(* ===== verification/Cache_Prelude.thy ===== *)
theory Cache_Prelude
  imports Main "HOL-Library.Word" "HOL-Library.List_Lexorder" "HOL-Library.Char_ord"
begin

text \<open>
  Shared vocabulary of the development: names for Go's machine types, the theorem
  collections that the component theories extend, and the generic facts on lists,
  options, folds and words that more than one component uses. Nothing here models code.
\<close>

section \<open>Types\<close>

text \<open>
  A Go \<open>string\<close> used as a cache key and a \<open>[]byte\<close> are both byte sequences. A Go
  \<open>int64\<close> that is stored or compared as a signed number is kept as a 64-bit word and read
  with \<open>sint\<close>. File offsets and lengths are \<open>nat\<close>: they are bounded by the size of
  a file and never reach \<open>2 ^ 63\<close>.
\<close>

type_synonym byte = "8 word"
type_synonym bytes = "8 word list"
type_synonym key = "8 word list"
type_synonym u16 = "16 word"
type_synonym u32 = "32 word"
type_synonym u64 = "64 word"
type_synonym i64 = "64 word"
type_synonym addr = nat

section \<open>Theorem collections\<close>

text \<open>
  \<open>layout\<close> collects the constants of the on-disk formats, \<open>frame\<close> the facts that an
  operation leaves a component alone, \<open>inv_intros\<close> the preservation lemmas of the
  component invariants.
\<close>

named_theorems layout
named_theorems frame
named_theorems inv_intros

section \<open>Lists\<close>

text \<open>The head and the last element of a list, with nil for the empty list.\<close>

definition hd_opt :: "'a option \<Rightarrow> 'a list \<Rightarrow> 'a option" where
  "hd_opt d xs = (case xs of [] \<Rightarrow> d | x # _ \<Rightarrow> Some x)"

definition last_opt :: "'a option \<Rightarrow> 'a list \<Rightarrow> 'a option" where
  "last_opt d xs = (if xs = [] then d else Some (last xs))"

lemma hd_opt_simps [simp]:
  "hd_opt d [] = d"
  "hd_opt d (x # xs) = Some x"
  "hd_opt d (xs @ ys) = hd_opt (hd_opt d ys) xs"
  by (auto simp: hd_opt_def split: list.splits)

lemma last_opt_simps [simp]:
  "last_opt d [] = d"
  "last_opt d (x # xs) = last_opt (Some x) xs"
  "last_opt d (xs @ ys) = last_opt (last_opt d xs) ys"
  by (auto simp: last_opt_def)

lemma last_opt_in: "last_opt None xs = Some a \<Longrightarrow> a \<in> set xs"
  by (auto simp: last_opt_def split: if_splits)

lemma hd_opt_in: "hd_opt None xs = Some a \<Longrightarrow> a \<in> set xs"
  by (cases xs) auto

lemma hd_opt_None_iff [simp]: "hd_opt None xs = None \<longleftrightarrow> xs = []"
  by (cases xs) auto

lemma last_opt_None_iff [simp]: "last_opt None xs = None \<longleftrightarrow> xs = []"
  by (simp add: last_opt_def)

lemma distinct_split_unique:
  "distinct (as @ x # bs) \<Longrightarrow> as @ x # bs = cs @ x # ds \<Longrightarrow> as = cs \<and> bs = ds"
  by (auto simp: append_eq_append_conv2 append_eq_Cons_conv Cons_eq_append_conv)

lemma distinct_map_middle:
  assumes "distinct (map f (as @ x # bs))" and "a \<in> set (as @ bs)"
  shows "f a \<noteq> f x"
proof -
  have "f x \<notin> f ` set (as @ bs)"
    using assms(1) by auto
  then show ?thesis
    using assms(2) by (metis image_eqI)
qed

lemma filter_all_but_middle:
  assumes "distinct (map f (as @ x # bs))"
  shows "filter (\<lambda>y. f y \<noteq> f x) (as @ x # bs) = as @ bs"
  using distinct_map_middle [OF assms] by (simp add: filter_id_conv)

lemma find_first: "\<forall>a\<in>set as. \<not> P a \<Longrightarrow> P x \<Longrightarrow> find P (as @ x # bs) = Some x"
  by (induction as) auto

lemma sum_list_cong:
  "(\<And>x. x \<in> set xs \<Longrightarrow> f x = g x) \<Longrightarrow> (\<Sum>x\<leftarrow>xs. f x) = (\<Sum>x\<leftarrow>xs. g x)"
  by (rule arg_cong [where f = sum_list]) simp

lemma sum_list_filter_split:
  "(\<Sum>x\<leftarrow>xs. f x) = (\<Sum>x\<leftarrow>filter P xs. f x) + (\<Sum>x\<leftarrow>filter (\<lambda>x. \<not> P x) xs. f x)"
  for f :: "'a \<Rightarrow> 'b::comm_monoid_add"
  by (induction xs) (auto simp: ac_simps)

lemma sum_list_update_word:
  "i < length xs \<Longrightarrow> (\<Sum>x\<leftarrow>xs[i := y]. f x) = (\<Sum>x\<leftarrow>xs. f x) - f (xs ! i) + f y"
  for f :: "'a \<Rightarrow> 'b::ab_group_add"
proof (induction xs arbitrary: i)
  case Nil
  then show ?case by simp
next
  case (Cons x xs)
  then show ?case by (cases i) (auto simp: algebra_simps)
qed

section \<open>Words\<close>

lemma unat_of_nat_small [simp]: "n < 2 ^ LENGTH('a) \<Longrightarrow> unat (of_nat n :: 'a::len word) = n"
  by (simp add: unat_of_nat take_bit_nat_eq_self)

lemma word_succ_neq_zero: "(w::'a::len word) \<noteq> - 1 \<Longrightarrow> unat (w + 1) = Suc (unat w)"
  by (metis add.commute eq_neg_iff_add_eq_0 unatSuc)

end
