(* ===== verification/Cache_Bytes.thy ===== *)
theory Cache_Bytes
  imports Cache_Prelude
begin

unbundle bit_operations_syntax

text \<open>
  The parts of Go's standard library that the on-disk formats rest on: slice writes
  (\<open>copy\<close>), \<open>encoding/binary\<close> in little-endian order and the CRC32C checksum of
  \<open>hash/crc32\<close> with the Castagnoli table. The facts the codecs use are the round trip
  of the integer encodings and the reading of a field back after it was written.
\<close>

section \<open>Slices\<close>

text \<open>
  \<open>copyInto off src dst\<close> is the slice \<open>dst\<close> after \<open>copy(dst[off:], src)\<close>, which
  copies as many bytes as fit; \<open>slice lo hi xs\<close> is \<open>xs[lo:hi]\<close>.
\<close>

definition copyInto :: "nat \<Rightarrow> 'a list \<Rightarrow> 'a list \<Rightarrow> 'a list" where
  "copyInto off src dst = take off dst @ take (length dst - off) src @ drop (off + length src) dst"

definition slice :: "nat \<Rightarrow> nat \<Rightarrow> 'a list \<Rightarrow> 'a list" where
  "slice lo hi xs = take (hi - lo) (drop lo xs)"

section \<open>Little-endian integers\<close>

primrec put_le :: "nat \<Rightarrow> 'a::len word \<Rightarrow> bytes" where
  "put_le 0 w = []"
| "put_le (Suc n) w = ucast w # put_le n (drop_bit 8 w)"

primrec get_le :: "bytes \<Rightarrow> 'a::len word" where
  "get_le [] = 0"
| "get_le (b # bs) = ucast b OR push_bit 8 (get_le bs)"

definition PutUint16 :: "u16 \<Rightarrow> bytes" where "PutUint16 w = put_le 2 w"
definition PutUint32 :: "u32 \<Rightarrow> bytes" where "PutUint32 w = put_le 4 w"
definition PutUint64 :: "u64 \<Rightarrow> bytes" where "PutUint64 w = put_le 8 w"

definition Uint16 :: "bytes \<Rightarrow> u16" where "Uint16 bs = get_le (take 2 bs)"
definition Uint32 :: "bytes \<Rightarrow> u32" where "Uint32 bs = get_le (take 4 bs)"
definition Uint64 :: "bytes \<Rightarrow> u64" where "Uint64 bs = get_le (take 8 bs)"

section \<open>CRC32C\<close>

text \<open>
  The reflected Castagnoli polynomial; one table entry is eight shifts, and a checksum
  starts from and ends with the complement.
\<close>

definition castagnoli :: u32 where
  "castagnoli = 0x82F63B78"

definition crc_shift :: "u32 \<Rightarrow> u32" where
  "crc_shift c = (if bit c 0 then drop_bit 1 c XOR castagnoli else drop_bit 1 c)"

definition crc_table :: "byte \<Rightarrow> u32" where
  "crc_table b = (crc_shift ^^ 8) (ucast b)"

definition crc_update :: "u32 \<Rightarrow> byte \<Rightarrow> u32" where
  "crc_update c b = crc_table (ucast c XOR b) XOR drop_bit 8 c"

definition Checksum :: "bytes \<Rightarrow> u32" where
  "Checksum bs = foldl crc_update 0xFFFFFFFF bs XOR 0xFFFFFFFF"

section \<open>Facts\<close>

subsection \<open>Slices\<close>

lemma length_copyInto [simp]:
  "off + length src \<le> length dst \<Longrightarrow> length (copyInto off src dst) = length dst"
  by (simp add: copyInto_def)

lemma copyInto_append:
  "length src = length mid \<Longrightarrow> copyInto (length pre) src (pre @ mid @ post) = pre @ src @ post"
  by (simp add: copyInto_def)

lemma copyInto_at:
  "off = length pre \<Longrightarrow> length src = length mid \<Longrightarrow>
     copyInto off src (pre @ mid @ post) = pre @ src @ post"
  by (simp add: copyInto_append)

lemma slice_append_at [simp]:
  "lo = length pre \<Longrightarrow> hi = lo + length mid \<Longrightarrow> slice lo hi (pre @ mid @ post) = mid"
  by (simp add: slice_def)

lemma length_slice: "length (slice lo hi xs) = min (hi - lo) (length xs - lo)"
  by (simp add: slice_def)

subsection \<open>Integers\<close>

lemma length_put_le [simp]: "length (put_le n w) = n"
  by (induction n arbitrary: w) auto

lemma length_Put [simp]:
  "length (PutUint16 a) = 2" "length (PutUint32 b) = 4" "length (PutUint64 c) = 8"
  by (simp_all add: PutUint16_def PutUint32_def PutUint64_def)

lemma get_put_le: "get_le (put_le n w) = take_bit (8 * n) w" for w :: "'a::len word"
proof (induction n arbitrary: w)
  case 0
  then show ?case by simp
next
  case (Suc n)
  show ?case
    by (rule bit_word_eqI) (auto simp: Suc bit_simps not_less dest: bit_imp_le_length)
qed

lemma Uint_Put [simp]:
  "Uint16 (PutUint16 a) = a" "Uint32 (PutUint32 b) = b" "Uint64 (PutUint64 c) = c"
  by (simp_all add: Uint16_def PutUint16_def Uint32_def PutUint32_def Uint64_def PutUint64_def
      get_put_le take_bit_word_eq_self)

lemma Uint_Put_append [simp]:
  "Uint16 (PutUint16 a @ xs) = a" "Uint32 (PutUint32 b @ xs) = b" "Uint64 (PutUint64 c @ xs) = c"
  using Uint_Put by (simp_all add: Uint16_def Uint32_def Uint64_def)

lemma put_get_le: "length bs = n \<Longrightarrow> 8 * n \<le> LENGTH('a) \<Longrightarrow> put_le n (get_le bs :: 'a::len word) = bs"
proof (induction bs arbitrary: n)
  case Nil
  then show ?case by simp
next
  case (Cons b bs)
  have low: "ucast (ucast b OR push_bit 8 (get_le bs :: 'a word)) = b"
    using Cons.prems
    by (intro bit_word_eqI) (auto simp: bit_simps)
  have bound: "bit (get_le bs :: 'a word) i \<Longrightarrow> i < 8 * length bs" for i
  proof (induction bs arbitrary: i)
    case (Cons c cs)
    then show ?case
      by (auto simp: bit_simps not_less dest: bit_imp_le_length) fastforce
  qed simp
  have high: "drop_bit 8 (ucast b OR push_bit 8 (get_le bs :: 'a word)) = get_le bs"
    using Cons.prems
    by (intro bit_word_eqI) (auto simp: bit_simps dest: bound bit_imp_le_length)
  show ?case
    using Cons.IH [of "n - 1"] Cons.prems by (cases n) (auto simp: low high simp del: drop_bit_or)
qed

lemma Put_Uint [simp]:
  "length b2 = 2 \<Longrightarrow> PutUint16 (Uint16 b2) = b2"
  "length b4 = 4 \<Longrightarrow> PutUint32 (Uint32 b4) = b4"
  "length b8 = 8 \<Longrightarrow> PutUint64 (Uint64 b8) = b8"
  by (simp_all add: PutUint16_def Uint16_def PutUint32_def Uint32_def PutUint64_def Uint64_def
      put_get_le)

subsection \<open>Evaluating a checksum\<close>

lemma funpow_8: "(f ^^ 8) x = f (f (f (f (f (f (f (f x)))))))"
  by (simp add: numeral_eq_Suc)

lemmas crc_eval = Checksum_def crc_update_def crc_table_def funpow_8 crc_shift_def castagnoli_def

text \<open>The check value of CRC-32C: the checksum of the nine bytes \<open>"123456789"\<close>.\<close>

lemma Checksum_check_value:
  "Checksum [0x31, 0x32, 0x33, 0x34, 0x35, 0x36, 0x37, 0x38, 0x39] = 0xE3069283"
  by (simp add: crc_eval)

end
