(* ===== verification/Cache_State.thy ===== *)
theory Cache_State
  imports Cache_Bytes
begin

unbundle bit_operations_syntax

text \<open>
  The data model of \<open>src/cache/store.go\<close>: errors, entries, shards, counters and the
  store, its construction, and the routing of a key to its shard. A shard owns the entries
  it allocates, so each shard record carries the part of the Go heap that holds them: a
  non-nil \<open>*entry\<close> is an address of that heap and nil is \<open>None\<close>.
\<close>

section \<open>Errors\<close>

text \<open>
  Every error the code builds is a constructor. \<open>corruption\<close> lists the causes that
  recovery wraps with a file name and an offset; an operating-system error is its number,
  with the operation the code names in the message.
\<close>

type_synonym errno = nat

datatype corruption =
    UnexpectedEOF
  | UnknownMagic bytes
  | UnsupportedVersion u16
  | UnsupportedFlags
  | PlatformLimit nat
  | CRCMismatch
  | KeyLengthExceeds nat
  | SequenceGap u64 u64
  | SegmentStart u64 u64
  | DeleteHasDeadline
  | DeleteHasValue
  | UnknownOperation byte
  | InvalidShardCount u32
  | EntrySequenceExceeds u64 u64
  | OsCause errno
  | ContextCause

datatype go_error =
    ErrClosed
  | ErrNilContext
  | ErrNilOption nat
  | ErrOption string
  | ErrContext string
  | ErrOs string errno
  | ErrShortWrite
  | ErrLockHeld
  | ErrUnsupported string string
  | ErrKeyTooLarge nat
  | ErrRecordTooLarge
  | ErrEntryTooLarge u64 u64
  | ErrTTL
  | ErrWALSequenceExhausted
  | ErrWriteLog string nat go_error
  | ErrRecover string nat corruption
  | ErrInvalidName string
  | ErrDuplicateSequence u64 string string
  | ErrNoRetainedWAL u64 u64
  | ErrSequenceSpaceExhausted u64
  | ErrGapAfterSnapshot string u64
  | ErrOldestRetained string u64
  | ErrGapAfterWAL u64 u64
  | ErrSnapshotNewer u64 u64
  | ErrCompactionGap u64 u64
  | ErrEvicted u64
  | ErrInstalledBut string go_error
  | ErrJoined "go_error list"

type_synonym 'a res = "go_error + 'a"

text \<open>\<open>errors.Join\<close> drops nil errors and returns nil when nothing is left.\<close>

definition errors_Join :: "go_error option list \<Rightarrow> go_error option" where
  "errors_Join es = (let real = [the e. e \<leftarrow> es, e \<noteq> None]
                     in if real = [] then None else Some (ErrJoined real))"

section \<open>Entries and shards\<close>

text \<open>
  The data of an \<open>entry\<close> is the record \<open>item\<close>; the Go struct extends it with the two
  links of the shard's recency list.
\<close>

record item =
  ekey :: key
  evalue :: bytes
  edeadline :: i64
  esequence :: u64

record entry = item +
  prev_entry :: "addr option"
  next_entry :: "addr option"

text \<open>
  \<open>heap\<close> holds the entries the shard has allocated and \<open>fresh\<close> is the next address
  \<open>&entry{...}\<close> will return.
\<close>

record shard =
  entries :: "key \<rightharpoonup> addr"
  recent :: "addr option"
  oldest :: "addr option"
  sbytes :: u64
  capacity :: u64
  heap :: "addr \<Rightarrow> entry"
  fresh :: addr

section \<open>The store\<close>

record counters =
  hits :: u64
  misses :: u64
  expiries :: u64
  evictions :: u64
  recordsWritten :: u64
  bytesWritten :: u64
  fsyncs :: u64
  snapshots :: u64
  lastError :: "go_error option"
  lastSnapshotError :: "go_error option"

text \<open>
  The fields of \<open>Store\<close> that hold data. The totals \<open>entries\<close> and \<open>bytes\<close> of the Go
  struct are \<open>entryTotal\<close> and \<open>byteTotal\<close>; its channels, the flag \<open>closed\<close> and the goroutines are
  the record and the steps of \<open>Cache_Store\<close>, its directory is the file system of
  \<open>Cache_OS\<close>.
\<close>

record store =
  shards :: "shard list"
  shardMask :: u64
  entryTotal :: u64
  byteTotal :: i64
  stats :: counters
  logSequence :: u64
  snapshotRunning :: bool
  evictionGeneration :: u64
  recoveryShard :: "nat option"

definition entryOverhead :: u64 where
  "entryOverhead = 72"

definition no_entry :: entry where
  "no_entry = \<lparr>ekey = [], evalue = [], edeadline = 0, esequence = 0,
               prev_entry = None, next_entry = None\<rparr>"

definition new_shard :: "u64 \<Rightarrow> shard" where
  "new_shard cap = \<lparr>entries = Map.empty, recent = None, oldest = None, sbytes = 0,
                    capacity = cap, heap = (\<lambda>_. no_entry), fresh = 0\<rparr>"

definition zero_counters :: counters where
  "zero_counters = \<lparr>hits = 0, misses = 0, expiries = 0, evictions = 0, recordsWritten = 0,
     bytesWritten = 0, fsyncs = 0, snapshots = 0, lastError = None, lastSnapshotError = None\<rparr>"

definition newStoreState :: "nat \<Rightarrow> u64 \<Rightarrow> store" where
  "newStoreState shardCount shardCapacity =
     \<lparr>shards = replicate shardCount (new_shard shardCapacity),
      shardMask = of_nat (shardCount - 1), entryTotal = 0, byteTotal = 0, stats = zero_counters,
      logSequence = 0, snapshotRunning = False, evictionGeneration = 0,
      recoveryShard = None\<rparr>"

section \<open>Routing a key to its shard\<close>

text \<open>\<open>hashKey\<close> is the 64-bit FNV-1a hash.\<close>

definition hashKey :: "key \<Rightarrow> u64" where
  "hashKey key = foldl (\<lambda>hash b. (hash XOR ucast b) * 1099511628211) 14695981039346656037 key"

definition shardIndex :: "store \<Rightarrow> key \<Rightarrow> nat" where
  "shardIndex store key = unat (hashKey key AND shardMask store)"

definition shardFor :: "store \<Rightarrow> key \<Rightarrow> shard" where
  "shardFor store key = shards store ! shardIndex store key"

text \<open>Writing a shard back into the store, as its unlock publishes it.\<close>

definition putShard :: "store \<Rightarrow> nat \<Rightarrow> shard \<Rightarrow> store" where
  "putShard store i shard = store\<lparr>shards := (shards store)[i := shard]\<rparr>"

section \<open>Sizes and deadlines\<close>

definition entrySize :: "'a item_scheme \<Rightarrow> u64" where
  "entrySize current = entryOverhead + of_nat (length (ekey current)) + of_nat (length (evalue current))"

definition deadlinePassed :: "i64 \<Rightarrow> i64 \<Rightarrow> bool" where
  "deadlinePassed deadline now \<longleftrightarrow> deadline \<noteq> 0 \<and> deadline \<le>s now"

text \<open>\<open>latch\<close> keeps the first write failure and returns it.\<close>

definition latch :: "store \<Rightarrow> go_error \<Rightarrow> go_error \<times> store" where
  "latch store err =
     (case lastError (stats store) of
        None \<Rightarrow> (err, store\<lparr>stats := (stats store)\<lparr>lastError := Some err\<rparr>\<rparr>)
      | Some first \<Rightarrow> (first, store))"

section \<open>Facts\<close>

text \<open>
  The mask is one less than the number of shards, so a masked hash is always an index of
  the shard array: the slice access of \<open>shardFor\<close> cannot panic.
\<close>

definition routed :: "store \<Rightarrow> bool" where
  "routed store \<longleftrightarrow> shards store \<noteq> [] \<and> length (shards store) < 2 ^ 63 \<and>
     shardMask store = of_nat (length (shards store) - 1)"

lemma shardIndex_less:
  assumes "routed store"
  shows "shardIndex store key < length (shards store)"
proof -
  let ?n = "length (shards store)"
  from assms have n: "0 < ?n" "?n < 2 ^ 63" and mask: "shardMask store = of_nat (?n - 1)"
    by (auto simp: routed_def)
  have "unat (hashKey key AND shardMask store) \<le> unat (shardMask store)"
    by (rule word_and_le1 [THEN word_le_nat_alt [THEN iffD1]])
  also have "\<dots> = ?n - 1"
    using n unfolding mask by (intro unat_of_nat_small) simp
  finally show ?thesis
    using n unfolding shardIndex_def by linarith
qed

lemma routed_newStoreState: "0 < n \<Longrightarrow> n < 2 ^ 63 \<Longrightarrow> routed (newStoreState n cap)"
  by (auto simp: routed_def newStoreState_def)

lemma routed_putShard [simp]: "routed (putShard store i shard) = routed store"
  by (simp add: routed_def putShard_def)

lemma shardIndex_cong [frame]:
  "shardMask s = shardMask t \<Longrightarrow> shardIndex s = shardIndex t"
  by (simp add: shardIndex_def fun_eq_iff)

lemma putShard_simps [simp]:
  "shardMask (putShard store i sh) = shardMask store"
  "length (shards (putShard store i sh)) = length (shards store)"
  "shards (putShard store i sh) = (shards store)[i := sh]"
  "entryTotal (putShard store i sh) = entryTotal store"
  "byteTotal (putShard store i sh) = byteTotal store"
  "stats (putShard store i sh) = stats store"
  "logSequence (putShard store i sh) = logSequence store"
  "snapshotRunning (putShard store i sh) = snapshotRunning store"
  "evictionGeneration (putShard store i sh) = evictionGeneration store"
  "recoveryShard (putShard store i sh) = recoveryShard store"
  by (simp_all add: putShard_def)

lemma entrySize_cong:
  "ekey e = ekey e' \<Longrightarrow> evalue e = evalue e' \<Longrightarrow> entrySize e = entrySize e'"
  by (simp add: entrySize_def)

lemma deadlinePassed_mono: "deadlinePassed d now \<Longrightarrow> now \<le>s later \<Longrightarrow> deadlinePassed d later"
  by (auto simp: deadlinePassed_def word_sle_eq)

lemma deadlinePassed_none [simp]: "\<not> deadlinePassed 0 now"
  by (simp add: deadlinePassed_def)

end
