(* ===== verification/Cache_Entries.thy ===== *)
theory Cache_Entries
  imports Cache_State "HOL-Library.Monad_Syntax"
begin

text \<open>
  \<open>src/cache/entries.go\<close>: the entries of a shard, kept in a map and in a doubly linked
  recency list, and the operations that read, write, expire and evict them. An operation
  whose name ends in \<open>Locked\<close> works on a shard that its caller has locked: it takes the
  store and the shard and returns both, and the caller writes the shard back.
  \<open>None\<close> is a run-time panic (a nil dereference) or a loop that does not end; the lemmas
  on the invariant show that neither happens.
\<close>

section \<open>Links\<close>

definition setNext :: "(addr \<Rightarrow> entry) \<Rightarrow> addr \<Rightarrow> addr option \<Rightarrow> addr \<Rightarrow> entry" where
  "setNext h a n = h(a := (h a)\<lparr>next_entry := n\<rparr>)"

definition setPrev :: "(addr \<Rightarrow> entry) \<Rightarrow> addr \<Rightarrow> addr option \<Rightarrow> addr \<Rightarrow> entry" where
  "setPrev h a p = h(a := (h a)\<lparr>prev_entry := p\<rparr>)"

section \<open>Removal\<close>

datatype removalKind = removalDelete | removalExpiry | removalEviction

text \<open>The first two conditionals of \<open>removeEntryLocked\<close>: the entry leaves the list.\<close>

definition unlinkEntry :: "shard \<Rightarrow> addr \<Rightarrow> shard" where
  "unlinkEntry shard current =
     (let s1 = (case prev_entry (heap shard current) of
                  Some p \<Rightarrow> shard\<lparr>heap := setNext (heap shard) p (next_entry (heap shard current))\<rparr>
                | None \<Rightarrow> shard\<lparr>recent := next_entry (heap shard current)\<rparr>)
      in case next_entry (heap s1 current) of
           Some n \<Rightarrow> s1\<lparr>heap := setPrev (heap s1) n (prev_entry (heap s1 current))\<rparr>
         | None \<Rightarrow> s1\<lparr>oldest := prev_entry (heap s1 current)\<rparr>)"

definition countRemoval :: "removalKind \<Rightarrow> store \<Rightarrow> store" where
  "countRemoval kind store =
     (case kind of
        removalDelete \<Rightarrow> store
      | removalExpiry \<Rightarrow> store\<lparr>stats := (stats store)\<lparr>expiries := expiries (stats store) + 1\<rparr>\<rparr>
      | removalEviction \<Rightarrow>
          store\<lparr>evictionGeneration := evictionGeneration store + 1,
                stats := (stats store)\<lparr>evictions := evictions (stats store) + 1\<rparr>\<rparr>)"

definition removeEntryLocked :: "store \<Rightarrow> shard \<Rightarrow> addr \<Rightarrow> removalKind \<Rightarrow> store \<times> shard" where
  "removeEntryLocked store shard current kind =
     (let s1 = unlinkEntry shard current;
          s2 = s1\<lparr>entries := (entries s1)(ekey (heap s1 current) := None)\<rparr>;
          size = entrySize (heap s2 current);
          s3 = s2\<lparr>sbytes := sbytes s2 - size\<rparr>;
          st = store\<lparr>entryTotal := entryTotal store + (- 1), byteTotal := byteTotal store + (- size)\<rparr>
      in (countRemoval kind st, s3))"

section \<open>Recency\<close>

definition markRecentLocked :: "shard \<Rightarrow> addr \<Rightarrow> shard" where
  "markRecentLocked shard current =
     (if recent shard = Some current then shard
      else
        let s1 = (case prev_entry (heap shard current) of
                    Some p \<Rightarrow> shard\<lparr>heap := setNext (heap shard) p (next_entry (heap shard current))\<rparr>
                  | None \<Rightarrow> shard);
            s2 = (case next_entry (heap s1 current) of
                    Some n \<Rightarrow> s1\<lparr>heap := setPrev (heap s1) n (prev_entry (heap s1 current))\<rparr>
                  | None \<Rightarrow> if oldest s1 = Some current
                             then s1\<lparr>oldest := prev_entry (heap s1 current)\<rparr> else s1);
            s3 = s2\<lparr>heap := setPrev (heap s2) current None\<rparr>;
            s4 = s3\<lparr>heap := setNext (heap s3) current (recent s3)\<rparr>;
            s5 = (case recent s4 of
                    Some r \<Rightarrow> s4\<lparr>heap := setPrev (heap s4) r (Some current)\<rparr>
                  | None \<Rightarrow> s4\<lparr>oldest := Some current\<rparr>)
        in s5\<lparr>recent := Some current\<rparr>)"

section \<open>Insertion and lookup\<close>

definition setEntryLocked ::
    "store \<Rightarrow> shard \<Rightarrow> key \<Rightarrow> bytes \<Rightarrow> i64 \<Rightarrow> u64 \<Rightarrow> addr \<times> store \<times> shard" where
  "setEntryLocked store shard key val deadline sequence =
     (case entries shard key of
        Some current \<Rightarrow>
          let old = heap shard current;
              oldSize = entrySize old;
              new = old\<lparr>evalue := val, edeadline := deadline, esequence := sequence\<rparr>;
              newSize = entrySize new;
              s1 = shard\<lparr>heap := (heap shard)(current := new),
                         sbytes := sbytes shard - oldSize + newSize\<rparr>
          in (current, store\<lparr>byteTotal := byteTotal store + (newSize - oldSize)\<rparr>,
              markRecentLocked s1 current)
      | None \<Rightarrow>
          let current = fresh shard;
              new = \<lparr>ekey = key, evalue = val, edeadline = deadline, esequence = sequence,
                     prev_entry = None, next_entry = None\<rparr>;
              s1 = shard\<lparr>heap := (heap shard)(current := new), fresh := Suc current,
                         entries := (entries shard)(key \<mapsto> current)\<rparr>;
              s2 = markRecentLocked s1 current;
              size = entrySize (heap s2 current)
          in (current,
              store\<lparr>entryTotal := entryTotal store + 1, byteTotal := byteTotal store + size\<rparr>,
              s2\<lparr>sbytes := sbytes s2 + size\<rparr>))"

definition addHit :: "store \<Rightarrow> store" where
  "addHit store = store\<lparr>stats := (stats store)\<lparr>hits := hits (stats store) + 1\<rparr>\<rparr>"

definition addMiss :: "store \<Rightarrow> store" where
  "addMiss store = store\<lparr>stats := (stats store)\<lparr>misses := misses (stats store) + 1\<rparr>\<rparr>"

text \<open>
  \<open>getInto\<close> at the clock reading \<open>now\<close>. The returned slice is \<open>dst[:0]\<close> with the value
  appended, so its contents do not depend on \<open>dst\<close>.
\<close>

definition getInto :: "store \<Rightarrow> key \<Rightarrow> i64 \<Rightarrow> (bytes \<times> bool) \<times> store" where
  "getInto store key now =
     (let i = shardIndex store key; shard = shardFor store key
      in case entries shard key of
           None \<Rightarrow> (([], False), addMiss store)
         | Some found \<Rightarrow>
             if deadlinePassed (edeadline (heap shard found)) now then
               (case removeEntryLocked store shard found removalExpiry of
                  (st, sh) \<Rightarrow> (([], False), addMiss (putShard st i sh)))
             else
               let sh = markRecentLocked shard found
               in ((evalue (heap sh found), True), addHit (putShard store i sh)))"

section \<open>Eviction\<close>

partial_function (option) evictToCapacityLocked ::
    "store \<Rightarrow> shard \<Rightarrow> i64 \<Rightarrow> (store \<times> shard) option" where
  "evictToCapacityLocked store shard now =
     (if capacity shard < sbytes shard then
        (case oldest shard of
           None \<Rightarrow> None
         | Some current \<Rightarrow>
             (case removeEntryLocked store shard current
                     (if deadlinePassed (edeadline (heap shard current)) now
                      then removalExpiry else removalEviction) of
                (st, sh) \<Rightarrow> evictToCapacityLocked st sh now))
      else Some (store, shard))"

section \<open>Applying log records\<close>

definition applySet :: "store \<Rightarrow> key \<Rightarrow> bytes \<Rightarrow> i64 \<Rightarrow> u64 \<Rightarrow> i64 \<Rightarrow> store option" where
  "applySet store key val deadline sequence now =
     (let i = shardIndex store key
      in case setEntryLocked store (shardFor store key) key val deadline sequence of
           (current, st, sh) \<Rightarrow>
             do {
               (st', sh') \<leftarrow>
                 (if deadlinePassed (edeadline (heap sh current)) now
                  then Some (removeEntryLocked st sh current removalExpiry)
                  else if capacity sh < sbytes sh then evictToCapacityLocked st sh now
                  else Some (st, sh));
               Some (putShard (st'\<lparr>logSequence := sequence\<rparr>) i sh')
             })"

definition applyRecoveredSet :: "store \<Rightarrow> key \<Rightarrow> bytes \<Rightarrow> i64 \<Rightarrow> u64 \<Rightarrow> store" where
  "applyRecoveredSet store key val deadline sequence =
     (let i = shardIndex store key
      in case setEntryLocked store (shardFor store key) key val deadline sequence of
           (current, st, sh) \<Rightarrow> putShard st i sh)"

definition applyDelete :: "store \<Rightarrow> key \<Rightarrow> u64 \<Rightarrow> store" where
  "applyDelete store key sequence =
     (let i = shardIndex store key; shard = shardFor store key
      in case (case entries shard key of
                 Some current \<Rightarrow> removeEntryLocked store shard current removalDelete
               | None \<Rightarrow> (store, shard)) of
           (st, sh) \<Rightarrow> putShard (st\<lparr>logSequence := sequence\<rparr>) i sh)"

section \<open>Expiry\<close>

text \<open>
  Go leaves the order of a \<open>range\<close> over a map open, so the order in which the loop meets
  the keys is an argument; a key that has left the map is not produced.
\<close>

fun reclaimExpiredLocked :: "store \<Rightarrow> shard \<Rightarrow> i64 \<Rightarrow> key list \<Rightarrow> store \<times> shard" where
  "reclaimExpiredLocked store shard now [] = (store, shard)"
| "reclaimExpiredLocked store shard now (k # order) =
     (case entries shard k of
        None \<Rightarrow> reclaimExpiredLocked store shard now order
      | Some current \<Rightarrow>
          if deadlinePassed (edeadline (heap shard current)) now then
            (case removeEntryLocked store shard current removalExpiry of
               (st, sh) \<Rightarrow> reclaimExpiredLocked st sh now order)
          else reclaimExpiredLocked store shard now order)"

text \<open>\<open>enforceRecoveredState\<close>: one map order per shard.\<close>

fun enforceRecoveredState_from :: "nat \<Rightarrow> store \<Rightarrow> i64 \<Rightarrow> key list list \<Rightarrow> store option" where
  "enforceRecoveredState_from i store now [] = Some store"
| "enforceRecoveredState_from i store now (order # orders) =
     (case reclaimExpiredLocked store (shards store ! i) now order of
        (st, sh) \<Rightarrow>
          do {
            (st', sh') \<leftarrow> evictToCapacityLocked st sh now;
            enforceRecoveredState_from (Suc i) (putShard st' i sh') now orders
          })"

definition enforceRecoveredState :: "store \<Rightarrow> i64 \<Rightarrow> key list list \<Rightarrow> store option" where
  "enforceRecoveredState store now orders = enforceRecoveredState_from 0 store now orders"

section \<open>The sweep\<close>

definition sweepSampleSize :: nat where "sweepSampleSize = 20"
definition sweepRepeatDivisor :: nat where "sweepRepeatDivisor = 4"

text \<open>
  One locked pass of \<open>sweepShard\<close>. Its clock readings are arguments: \<open>now\<close>, and for each
  key whether the reading before it is after \<open>budgetEnd\<close>.
\<close>

fun sweepPass :: "store \<Rightarrow> shard \<Rightarrow> i64 \<Rightarrow> (key \<times> bool) list \<Rightarrow> nat \<Rightarrow> nat \<Rightarrow>
    store \<times> shard \<times> nat \<times> nat" where
  "sweepPass store shard now [] sampled reclaimed = (store, shard, sampled, reclaimed)"
| "sweepPass store shard now ((k, late) # order) sampled reclaimed =
     (case entries shard k of
        None \<Rightarrow> sweepPass store shard now order sampled reclaimed
      | Some current \<Rightarrow>
          if sampled = sweepSampleSize \<or> late then (store, shard, sampled, reclaimed)
          else if deadlinePassed (edeadline (heap shard current)) now then
            (case removeEntryLocked store shard current removalExpiry of
               (st, sh) \<Rightarrow> sweepPass st sh now order (Suc sampled) (Suc reclaimed))
          else sweepPass store shard now order (Suc sampled) reclaimed)"

text \<open>
  The readings of one pass: the time it starts, the order of the map with the budget check
  before each key, and the budget check after the pass. \<open>sweepShard\<close> runs pass \<open>i\<close> on
  readings \<open>i\<close>; the shard is unlocked between passes, so \<open>other i\<close> is what the other
  goroutines do to the store before pass \<open>Suc i\<close>.
\<close>

record sweep_reading =
  pass_now :: i64
  pass_order :: "(key \<times> bool) list"
  pass_late :: bool

partial_function (option) sweepShard ::
    "nat \<Rightarrow> (nat \<Rightarrow> sweep_reading) \<Rightarrow> (nat \<Rightarrow> store \<Rightarrow> store) \<Rightarrow> nat \<Rightarrow> store \<Rightarrow> store option" where
  "sweepShard i readings other n store =
     (case sweepPass store (shards store ! i) (pass_now (readings n)) (pass_order (readings n)) 0 0 of
        (st, sh, sampled, reclaimed) \<Rightarrow>
          (let st' = putShard st i sh
           in if sampled = 0 \<or> reclaimed * sweepRepeatDivisor < sampled \<or> pass_late (readings n)
              then Some st'
              else sweepShard i readings other (Suc n) (other n st')))"

end
