(* ===== verification/Cache_LRU.thy ===== *)
theory Cache_LRU
  imports Cache_Entries
begin

text \<open>
  Correctness of a shard. The recency list of \<open>entries.go\<close> is a doubly linked list in the
  shard's heap; \<open>shard_ok\<close> ties it to the map and to the byte count. Over it stands an
  abstract cache, a list of items from most to least recently used, and each operation of
  \<open>Cache_Entries\<close> refines the operation of the same purpose on that list.
\<close>

section \<open>The abstract cache\<close>

text \<open>The items of a shard, most recently used first.\<close>

definition lru_find :: "key \<Rightarrow> item list \<Rightarrow> item option" where
  "lru_find k L = find (\<lambda>i. ekey i = k) L"

definition lru_remove :: "key \<Rightarrow> item list \<Rightarrow> item list" where
  "lru_remove k L = filter (\<lambda>i. ekey i \<noteq> k) L"

definition lru_touch :: "key \<Rightarrow> item list \<Rightarrow> item list" where
  "lru_touch k L = (case lru_find k L of None \<Rightarrow> L | Some i \<Rightarrow> i # lru_remove k L)"

definition lru_put :: "item \<Rightarrow> item list \<Rightarrow> item list" where
  "lru_put i L = i # lru_remove (ekey i) L"

definition charge :: "item list \<Rightarrow> u64" where
  "charge L = (\<Sum>i\<leftarrow>L. entrySize i)"

text \<open>Eviction drops least recently used items until the charge fits.\<close>

function lru_evict :: "u64 \<Rightarrow> item list \<Rightarrow> item list" where
  "lru_evict cap L = (if cap < charge L then lru_evict cap (butlast L) else L)"
  by pat_completeness auto
termination
proof (relation "measure (\<lambda>(cap, L). length L)")
  fix cap L
  assume "cap < charge L"
  then show "((cap, butlast L), cap, L) \<in> measure (\<lambda>(cap, L). length L)"
    by (cases L) (auto simp: charge_def)
qed simp

declare lru_evict.simps [simp del]

section \<open>The linked list\<close>

fun linked :: "(addr \<Rightarrow> entry) \<Rightarrow> addr option \<Rightarrow> addr list \<Rightarrow> addr option \<Rightarrow> bool" where
  "linked h p [] n = True"
| "linked h p (a # as) n =
     (prev_entry (h a) = p \<and> next_entry (h a) = hd_opt n as \<and> linked h (Some a) as n)"

definition links_ok :: "shard \<Rightarrow> addr list \<Rightarrow> bool" where
  "links_ok sh xs \<longleftrightarrow> distinct xs \<and> linked (heap sh) None xs None \<and>
     recent sh = hd_opt None xs \<and> oldest sh = last_opt None xs"

text \<open>
  The recency order read off the shard: the addresses from \<open>recent\<close> along \<open>next\<close>. No
  more than \<open>fresh\<close> entries were ever allocated, which bounds the walk.
\<close>

fun walk :: "nat \<Rightarrow> (addr \<Rightarrow> entry) \<Rightarrow> addr option \<Rightarrow> addr list" where
  "walk 0 h p = []"
| "walk (Suc n) h None = []"
| "walk (Suc n) h (Some a) = a # walk n h (next_entry (h a))"

definition lruList :: "shard \<Rightarrow> addr list" where
  "lruList sh = walk (fresh sh) (heap sh) (recent sh)"

definition items :: "shard \<Rightarrow> item list" where
  "items sh = map (\<lambda>a. item.truncate (heap sh a)) (lruList sh)"

section \<open>The invariant\<close>

definition shard_ok :: "shard \<Rightarrow> addr list \<Rightarrow> bool" where
  "shard_ok sh xs \<longleftrightarrow> links_ok sh xs \<and> (\<forall>a\<in>set xs. a < fresh sh) \<and>
     (\<forall>k a. entries sh k = Some a \<longleftrightarrow> a \<in> set xs \<and> ekey (heap sh a) = k) \<and>
     sbytes sh = (\<Sum>a\<leftarrow>xs. entrySize (heap sh a))"

definition wf_shard :: "shard \<Rightarrow> bool" where
  "wf_shard sh \<longleftrightarrow> shard_ok sh (lruList sh)"

section \<open>Lemmas on links\<close>

lemma set_links [simp]:
  "prev_entry (setNext h a n b) = prev_entry (h b)"
  "next_entry (setNext h a n b) = (if b = a then n else next_entry (h b))"
  "prev_entry (setPrev h a p b) = (if b = a then p else prev_entry (h b))"
  "next_entry (setPrev h a p b) = next_entry (h b)"
  by (simp_all add: setNext_def setPrev_def)

lemma set_links_data [simp]:
  "item.truncate (setNext h a n b) = item.truncate (h b)"
  "item.truncate (setPrev h a p b) = item.truncate (h b)"
  "ekey (setNext h a n b) = ekey (h b)" "ekey (setPrev h a p b) = ekey (h b)"
  "evalue (setNext h a n b) = evalue (h b)" "evalue (setPrev h a p b) = evalue (h b)"
  "edeadline (setNext h a n b) = edeadline (h b)" "edeadline (setPrev h a p b) = edeadline (h b)"
  "esequence (setNext h a n b) = esequence (h b)" "esequence (setPrev h a p b) = esequence (h b)"
  "entrySize (setNext h a n b) = entrySize (h b)" "entrySize (setPrev h a p b) = entrySize (h b)"
  by (simp_all add: setNext_def setPrev_def item.truncate_def entrySize_def)

lemma linked_append [simp]:
  "linked h p (as @ bs) n \<longleftrightarrow> linked h p as (hd_opt n bs) \<and> linked h (last_opt p as) bs n"
  by (induction as arbitrary: p) auto

lemma linked_cong:
  "(\<And>a. a \<in> set as \<Longrightarrow> prev_entry (h a) = prev_entry (h' a) \<and> next_entry (h a) = next_entry (h' a)) \<Longrightarrow>
     linked h p as n = linked h' p as n"
  by (induction as arbitrary: p) auto

lemma linked_setNext [simp]: "a \<notin> set as \<Longrightarrow> linked (setNext h a m) p as n = linked h p as n"
  by (rule linked_cong) auto

lemma linked_setPrev [simp]: "a \<notin> set as \<Longrightarrow> linked (setPrev h a m) p as n = linked h p as n"
  by (rule linked_cong) auto

lemma linked_upd [simp]: "a \<notin> set as \<Longrightarrow> linked (h(a := e)) p as n = linked h p as n"
  by (rule linked_cong) auto

text \<open>Redirecting the last link of a segment, and the first.\<close>

lemma linked_set_last:
  "linked h p as m \<Longrightarrow> distinct as \<Longrightarrow> last_opt None as = Some q \<Longrightarrow>
     linked (setNext h q n) p as n"
  by (induction as rule: rev_induct) (auto simp: last_opt_def)

lemma linked_set_first:
  "linked h m bs n \<Longrightarrow> distinct bs \<Longrightarrow> hd_opt None bs = Some q \<Longrightarrow>
     linked (setPrev h q p) p bs n"
  by (cases bs) auto

lemma linked_prev: "linked h p (as @ x # bs) n \<Longrightarrow> prev_entry (h x) = last_opt p as"
  by simp

lemma linked_next: "linked h p (as @ x # bs) n \<Longrightarrow> next_entry (h x) = hd_opt n bs"
  by simp

section \<open>Unlinking and moving to the front\<close>

text \<open>What the pointer operations leave alone: everything but links, head and tail.\<close>

lemma unlinkEntry_frame [simp]:
  "entries (unlinkEntry sh x) = entries sh" "sbytes (unlinkEntry sh x) = sbytes sh"
  "capacity (unlinkEntry sh x) = capacity sh" "fresh (unlinkEntry sh x) = fresh sh"
  "item.truncate (heap (unlinkEntry sh x) a) = item.truncate (heap sh a)"
  "ekey (heap (unlinkEntry sh x) a) = ekey (heap sh a)"
  "evalue (heap (unlinkEntry sh x) a) = evalue (heap sh a)"
  "edeadline (heap (unlinkEntry sh x) a) = edeadline (heap sh a)"
  "entrySize (heap (unlinkEntry sh x) a) = entrySize (heap sh a)"
  by (auto simp: unlinkEntry_def Let_def split: option.splits)

lemma markRecentLocked_frame [simp]:
  "entries (markRecentLocked sh x) = entries sh" "sbytes (markRecentLocked sh x) = sbytes sh"
  "capacity (markRecentLocked sh x) = capacity sh" "fresh (markRecentLocked sh x) = fresh sh"
  "item.truncate (heap (markRecentLocked sh x) a) = item.truncate (heap sh a)"
  "ekey (heap (markRecentLocked sh x) a) = ekey (heap sh a)"
  "evalue (heap (markRecentLocked sh x) a) = evalue (heap sh a)"
  "edeadline (heap (markRecentLocked sh x) a) = edeadline (heap sh a)"
  "entrySize (heap (markRecentLocked sh x) a) = entrySize (heap sh a)"
  by (auto simp: markRecentLocked_def Let_def split: option.splits)

lemma unlink_links_ok:
  assumes ok: "links_ok sh (as @ x # bs)"
  shows "links_ok (unlinkEntry sh x) (as @ bs)"
proof -
  from ok have dist: "distinct (as @ x # bs)" and
    l: "linked (heap sh) None as (Some x)" "linked (heap sh) (Some x) bs None" and
    x: "prev_entry (heap sh x) = last_opt None as" "next_entry (heap sh x) = hd_opt None bs" and
    ends: "recent sh = hd_opt (Some x) as" "oldest sh = last_opt (Some x) bs"
    by (auto simp: links_ok_def)
  show ?thesis
  proof (cases "last_opt None as")
    case None
    then have [simp]: "as = []" by simp
    show ?thesis
      using dist l x ends
      by (cases bs) (auto simp: links_ok_def unlinkEntry_def last_opt_def)
  next
    case (Some q)
    then have q: "q \<in> set as" and ne: "as \<noteq> []" by (auto dest: last_opt_in)
    have qx: "q \<noteq> x" "q \<notin> set bs" using q dist by auto
    have l1: "linked (setNext (heap sh) q n) None as n" for n
      using linked_set_last [OF l(1) _ Some] dist by simp
    show ?thesis
    proof (cases bs)
      case Nil
      then show ?thesis
        using dist l1 x ends Some ne qx
        by (cases as) (auto simp: links_ok_def unlinkEntry_def last_opt_def)
    next
      case (Cons n bs')
      then have "linked (setPrev (setNext (heap sh) q (Some n)) n (Some q)) (Some q) bs None"
        using l(2) dist qx by auto
      then show ?thesis
        using dist l1 [of "Some n"] x ends Some ne qx Cons
        by (cases as) (auto simp: links_ok_def unlinkEntry_def last_opt_def)
    qed
  qed
qed


lemma markRecent_links_ok_member:
  assumes ok: "links_ok sh (as @ x # bs)"
  shows "links_ok (markRecentLocked sh x) (x # as @ bs)"
proof (cases as)
  case Nil
  then show ?thesis
    using ok by (simp add: links_ok_def markRecentLocked_def)
next
  case (Cons r as')
  define q where "q = last as"
  have as: "hd_opt d as = Some r" "last_opt d as = Some q" for d
    using Cons by (auto simp: q_def last_opt_def)
  from ok have dist: "distinct (as @ x # bs)" and
    l: "linked (heap sh) None as (Some x)" "linked (heap sh) (Some x) bs None" and
    x: "prev_entry (heap sh x) = Some q" "next_entry (heap sh x) = hd_opt None bs" and
    ends: "recent sh = Some r" "oldest sh = last_opt (Some x) bs"
    using as Cons by (auto simp: links_ok_def)
  have mem: "q \<in> set as" "r \<in> set as" using as [of None] by (auto dest: last_opt_in hd_opt_in)
  then have neq: "q \<noteq> x" "r \<noteq> x" "q \<notin> set bs" "r \<notin> set bs" "x \<notin> set as" "x \<notin> set bs"
    using dist by auto
  have las: "linked (setPrev (setNext (heap sh) q n) r (Some x)) (Some x) as n" for n
    using linked_set_first [OF linked_set_last [OF l(1) _ as(2)] _ as(1)] dist by simp
  show ?thesis
  proof (cases bs)
    case Nil
    have "linked (heap (markRecentLocked sh x)) (Some x) as None
          = linked (setPrev (setNext (heap sh) q None) r (Some x)) (Some x) as None"
      using neq x ends Nil by (intro linked_cong) (auto simp: markRecentLocked_def)
    then show ?thesis
      using dist las [of None] x ends neq as Nil
      by (auto simp: links_ok_def markRecentLocked_def)
  next
    case bs: (Cons n bs')
    have n: "n \<notin> set as" "n \<noteq> x" "n \<noteq> q" "n \<noteq> r" using dist mem bs by auto
    have "linked (heap (markRecentLocked sh x)) (Some x) as (Some n)
          = linked (setPrev (setNext (heap sh) q (Some n)) r (Some x)) (Some x) as (Some n)"
      using neq n x ends bs by (intro linked_cong) (auto simp: markRecentLocked_def)
    moreover have "linked (heap (markRecentLocked sh x)) (Some q) bs None
          = linked (setPrev (heap sh) n (Some q)) (Some q) bs None"
      using neq n x ends bs by (intro linked_cong) (auto simp: markRecentLocked_def)
    moreover have "linked (setPrev (heap sh) n (Some q)) (Some q) bs None"
      using linked_set_first [OF l(2)] dist bs by simp
    ultimately show ?thesis
      using dist las [of "Some n"] x ends neq n as bs
      by (auto simp: links_ok_def markRecentLocked_def)
  qed
qed

lemma markRecent_links_ok_new:
  assumes "links_ok sh xs" "x \<notin> set xs"
    and "prev_entry (heap sh x) = None" "next_entry (heap sh x) = None"
  shows "links_ok (markRecentLocked sh x) (x # xs)"
proof (cases xs)
  case Nil
  then show ?thesis
    using assms by (auto simp: links_ok_def markRecentLocked_def)
next
  case (Cons r xs')
  have "oldest sh \<noteq> Some x"
    using assms by (auto simp: links_ok_def dest: last_opt_in)
  then show ?thesis
    using assms Cons by (auto simp: links_ok_def markRecentLocked_def)
qed

lemma links_ok_cong:
  "links_ok sh xs \<Longrightarrow> recent sh' = recent sh \<Longrightarrow> oldest sh' = oldest sh \<Longrightarrow>
     (\<And>a. a \<in> set xs \<Longrightarrow> prev_entry (heap sh' a) = prev_entry (heap sh a) \<and>
                       next_entry (heap sh' a) = next_entry (heap sh a)) \<Longrightarrow>
     links_ok sh' xs"
  by (simp add: links_ok_def linked_cong [of xs "heap sh'" "heap sh"])

section \<open>Reading the list off the shard\<close>

lemma walk_linked:
  "linked h p xs None \<Longrightarrow> length xs \<le> n \<Longrightarrow> walk n h (hd_opt None xs) = xs"
proof (induction xs arbitrary: p n)
  case Nil
  then show ?case by (cases n) auto
next
  case (Cons a xs)
  then show ?case by (cases n) auto
qed

lemma shard_ok_lruList:
  assumes "shard_ok sh xs"
  shows "lruList sh = xs"
proof -
  have "card (set xs) \<le> card {..<fresh sh}"
    using assms by (intro card_mono) (auto simp: shard_ok_def)
  then have "length xs \<le> fresh sh"
    using assms by (simp add: shard_ok_def links_ok_def distinct_card)
  then show ?thesis
    using assms by (auto simp: lruList_def shard_ok_def links_ok_def intro: walk_linked)
qed

lemma wf_shardI: "shard_ok sh xs \<Longrightarrow> wf_shard sh"
  by (simp add: wf_shard_def shard_ok_lruList)

lemma items_shard_ok: "shard_ok sh xs \<Longrightarrow> items sh = map (\<lambda>a. item.truncate (heap sh a)) xs"
  by (simp add: items_def shard_ok_lruList)

lemma wf_shardE:
  assumes "wf_shard sh"
  obtains xs where "shard_ok sh xs" "lruList sh = xs"
    "items sh = map (\<lambda>a. item.truncate (heap sh a)) xs"
  using assms by (auto simp: wf_shard_def items_def)

lemma item_truncate_simps [simp]:
  "ekey (item.truncate e) = ekey e" "evalue (item.truncate e) = evalue e"
  "edeadline (item.truncate e) = edeadline e" "esequence (item.truncate e) = esequence e"
  "entrySize (item.truncate e) = entrySize e"
  by (simp_all add: item.truncate_def entrySize_def)

lemma truncate_entry [simp]:
  "item.truncate \<lparr>ekey = k, evalue = v, edeadline = d, esequence = q, prev_entry = p, next_entry = n\<rparr>
     = \<lparr>ekey = k, evalue = v, edeadline = d, esequence = q\<rparr>"
  "item.truncate (e\<lparr>evalue := v, edeadline := d, esequence := q\<rparr>)
     = \<lparr>ekey = ekey e, evalue = v, edeadline = d, esequence = q\<rparr>"
  by (simp_all add: item.truncate_def)

lemma item_eqI:
  "ekey i = ekey j \<Longrightarrow> evalue i = evalue j \<Longrightarrow> edeadline i = edeadline j \<Longrightarrow>
     esequence i = esequence j \<Longrightarrow> (i::item) = j"
  by simp


section \<open>The shard invariant under the operations\<close>

lemma shard_ok_keys_distinct:
  "shard_ok sh xs \<Longrightarrow> distinct (map (\<lambda>a. ekey (heap sh a)) xs)"
  by (auto simp: shard_ok_def links_ok_def distinct_map inj_on_def) (metis option.inject)

lemma wf_shard_keys_distinct: "wf_shard sh \<Longrightarrow> distinct (map ekey (items sh))"
  by (erule wf_shardE) (simp add: comp_def shard_ok_keys_distinct)

lemma shard_ok_split:
  assumes "shard_ok sh xs" "entries sh k = Some x"
  obtains as bs where "xs = as @ x # bs" "ekey (heap sh x) = k"
  using assms by (auto simp: shard_ok_def dest: split_list)

lemma shard_ok_remove:
  assumes "shard_ok sh (as @ x # bs)"
  shows "shard_ok (snd (removeEntryLocked st sh x kind)) (as @ bs)"
proof -
  have keys: "ekey (heap sh a) \<noteq> ekey (heap sh x)" if "a \<in> set (as @ bs)" for a
    by (rule distinct_map_middle [OF shard_ok_keys_distinct [OF assms] that])
  show ?thesis
    using assms keys unlink_links_ok [of sh as x bs]
    by (auto simp: shard_ok_def removeEntryLocked_def Let_def algebra_simps
        intro: links_ok_cong [of "unlinkEntry sh x"])
qed

lemma shard_ok_markRecent:
  assumes "shard_ok sh (as @ x # bs)"
  shows "shard_ok (markRecentLocked sh x) (x # as @ bs)"
  using assms markRecent_links_ok_member [of sh as x bs]
  by (auto simp: shard_ok_def algebra_simps)

lemma charge_items: "wf_shard sh \<Longrightarrow> sbytes sh = charge (items sh)"
  by (erule wf_shardE) (simp add: shard_ok_def charge_def comp_def)

lemma lru_find_items:
  assumes "wf_shard sh"
  shows "lru_find k (items sh) = map_option (\<lambda>a. item.truncate (heap sh a)) (entries sh k)"
proof -
  from assms obtain xs where ok: "shard_ok sh xs"
    and it: "items sh = map (\<lambda>a. item.truncate (heap sh a)) xs"
    by (rule wf_shardE)
  show ?thesis
  proof (cases "entries sh k")
    case None
    then have "\<forall>a\<in>set xs. ekey (heap sh a) \<noteq> k"
      using ok by (metis option.distinct(1) shard_ok_def)
    then show ?thesis
      using None it by (auto simp: lru_find_def find_None_iff)
  next
    case (Some x)
    with ok obtain as bs where xs: "xs = as @ x # bs" and k: "ekey (heap sh x) = k"
      by (rule shard_ok_split)
    have "\<forall>a\<in>set as. ekey (heap sh a) \<noteq> k"
      using distinct_map_middle [of "\<lambda>a. ekey (heap sh a)" as x bs] shard_ok_keys_distinct [OF ok] xs k
      by auto
    then have "find (\<lambda>i. ekey i = k) (items sh) = Some (item.truncate (heap sh x))"
      using it xs k by (auto intro!: find_first)
    then show ?thesis
      using Some by (simp add: lru_find_def)
  qed
qed

lemma lru_remove_split:
  assumes "shard_ok sh (as @ x # bs)"
  shows "lru_remove (ekey (heap sh x)) (map (\<lambda>a. item.truncate (heap sh a)) (as @ x # bs))
         = map (\<lambda>a. item.truncate (heap sh a)) (as @ bs)"
proof -
  have "filter (\<lambda>a. ekey (heap sh a) \<noteq> ekey (heap sh x)) (as @ x # bs) = as @ bs"
    by (rule filter_all_but_middle) (rule shard_ok_keys_distinct [OF assms])
  then show ?thesis
    by (simp add: lru_remove_def filter_map comp_def flip: map_append)
qed

subsection \<open>Steps that keep a store in balance\<close>

text \<open>
  What every \<open>Locked\<close> operation promises its caller: the shard stays well formed and keeps
  its capacity, the store's totals move with the shard, nothing else of the store changes
  but counters.
\<close>

definition shard_step :: "store \<Rightarrow> shard \<Rightarrow> store \<Rightarrow> shard \<Rightarrow> bool" where
  "shard_step st sh st' sh' \<longleftrightarrow> wf_shard sh' \<and> capacity sh' = capacity sh \<and>
     entryTotal st' - of_nat (length (items sh')) = entryTotal st - of_nat (length (items sh)) \<and>
     byteTotal st' - sbytes sh' = byteTotal st - sbytes sh \<and>
     shards st' = shards st \<and> shardMask st' = shardMask st \<and>
     logSequence st' = logSequence st \<and> snapshotRunning st' = snapshotRunning st \<and>
     recoveryShard st' = recoveryShard st \<and> lastError (stats st') = lastError (stats st)"

lemma shard_step_refl: "wf_shard sh \<Longrightarrow> shard_step st sh st sh"
  by (simp add: shard_step_def)

lemma shard_step_trans:
  "shard_step st sh st' sh' \<Longrightarrow> shard_step st' sh' st'' sh'' \<Longrightarrow> shard_step st sh st'' sh''"
  by (simp add: shard_step_def)

lemma shard_step_wf: "shard_step st sh st' sh' \<Longrightarrow> wf_shard sh'"
  by (simp add: shard_step_def)

lemma countRemoval_simps [simp]:
  "entryTotal (countRemoval kd st) = entryTotal st" "byteTotal (countRemoval kd st) = byteTotal st"
  "shards (countRemoval kd st) = shards st" "shardMask (countRemoval kd st) = shardMask st"
  "logSequence (countRemoval kd st) = logSequence st"
  "snapshotRunning (countRemoval kd st) = snapshotRunning st"
  "recoveryShard (countRemoval kd st) = recoveryShard st"
  "lastError (stats (countRemoval kd st)) = lastError (stats st)"
  by (cases kd; simp add: countRemoval_def)+

lemma removeEntryLocked_correct:
  assumes wf: "wf_shard sh" and k: "entries sh k = Some x"
    and r: "removeEntryLocked st sh x kind = (st', sh')"
  shows "shard_step st sh st' sh'" "items sh' = lru_remove k (items sh)"
    "entries sh' = (entries sh)(k := None)"
proof -
  from wf obtain xs where ok: "shard_ok sh xs"
    and it: "items sh = map (\<lambda>a. item.truncate (heap sh a)) xs"
    by (rule wf_shardE)
  from ok k obtain as bs where xs: "xs = as @ x # bs" and kx: "ekey (heap sh x) = k"
    by (rule shard_ok_split)
  have ok': "shard_ok sh' (as @ bs)"
    using shard_ok_remove [of sh as x bs st kind] ok xs r by simp
  have heap': "item.truncate (heap sh' a) = item.truncate (heap sh a)" for a
    using r by (auto simp: removeEntryLocked_def Let_def)
  have it': "items sh' = map (\<lambda>a. item.truncate (heap sh a)) (as @ bs)"
    using items_shard_ok [OF ok'] heap' by simp
  show "items sh' = lru_remove k (items sh)"
    using lru_remove_split [of sh as x bs] ok xs kx it it' by simp
  show "entries sh' = (entries sh)(k := None)"
    using r kx by (auto simp: removeEntryLocked_def Let_def)
  show "shard_step st sh st' sh'"
    using r it it' xs wf_shardI [OF ok']
    by (auto simp: shard_step_def removeEntryLocked_def Let_def)
qed


lemma markRecentLocked_correct:
  assumes wf: "wf_shard sh" and k: "entries sh k = Some x"
  shows "shard_step st sh st (markRecentLocked sh x)"
    "items (markRecentLocked sh x) = lru_touch k (items sh)"
proof -
  from wf obtain xs where ok: "shard_ok sh xs"
    and it: "items sh = map (\<lambda>a. item.truncate (heap sh a)) xs"
    by (rule wf_shardE)
  from ok k obtain as bs where xs: "xs = as @ x # bs" and kx: "ekey (heap sh x) = k"
    by (rule shard_ok_split)
  have ok': "shard_ok (markRecentLocked sh x) (x # as @ bs)"
    using shard_ok_markRecent ok xs by simp
  have it': "items (markRecentLocked sh x) = map (\<lambda>a. item.truncate (heap sh a)) (x # as @ bs)"
    using items_shard_ok [OF ok'] by simp
  show "items (markRecentLocked sh x) = lru_touch k (items sh)"
    using lru_remove_split [of sh as x bs] lru_find_items [OF wf, of k] ok xs kx k it it'
    by (simp add: lru_touch_def)
  show "shard_step st sh st (markRecentLocked sh x)"
    using it it' xs wf_shardI [OF ok'] by (auto simp: shard_step_def)
qed

subsection \<open>Insertion\<close>

lemma shard_ok_overwrite:
  assumes ok: "shard_ok sh (as @ x # bs)"
    and sh1: "sh1 = sh\<lparr>heap := (heap sh)(x := (heap sh x)\<lparr>evalue := v, edeadline := d, esequence := q\<rparr>),
                        sbytes := sbytes sh - entrySize (heap sh x) +
                          entrySize ((heap sh x)\<lparr>evalue := v, edeadline := d, esequence := q\<rparr>)\<rparr>"
  shows "shard_ok sh1 (as @ x # bs)"
proof -
  have dist: "distinct (as @ x # bs)" using ok by (auto simp: shard_ok_def links_ok_def)
  have "links_ok sh1 (as @ x # bs)"
    using ok sh1 by (auto simp: shard_ok_def intro!: links_ok_cong [of sh])
  moreover have "sbytes sh1 = (\<Sum>a\<leftarrow>as @ x # bs. entrySize (heap sh1 a))"
  proof -
    have same: "(\<Sum>a\<leftarrow>ys. entrySize (heap sh1 a)) = (\<Sum>a\<leftarrow>ys. entrySize (heap sh a))"
      if "x \<notin> set ys" for ys
      using that sh1 by (intro sum_list_cong) auto
    have "sbytes sh1 = sbytes sh - entrySize (heap sh x) + entrySize (heap sh1 x)"
      using sh1 by simp
    then show ?thesis
      using ok dist same [of as] same [of bs] by (simp add: shard_ok_def)
  qed
  ultimately show ?thesis
    using ok sh1 by (auto simp: shard_ok_def)
qed

lemma shard_ok_insert:
  assumes ok: "shard_ok sh xs" and k: "entries sh (ekey e) = None"
    and e: "prev_entry e = None" "next_entry e = None"
    and s1: "sh1 = sh\<lparr>heap := (heap sh)(fresh sh := e), fresh := Suc (fresh sh),
                       entries := (entries sh)(ekey e \<mapsto> fresh sh)\<rparr>"
    and sh': "sh' = (markRecentLocked sh1 (fresh sh))\<lparr>sbytes := sbytes sh + entrySize e\<rparr>"
  shows "shard_ok sh' (fresh sh # xs)"
proof -
  have fr: "fresh sh \<notin> set xs" and keys: "\<forall>a\<in>set xs. ekey (heap sh a) \<noteq> ekey e"
    using ok k by (auto simp: shard_ok_def) (metis option.distinct(1))
  have "links_ok sh1 xs"
    using ok s1 fr by (auto simp: shard_ok_def intro!: links_ok_cong [of sh])
  then have "links_ok (markRecentLocked sh1 (fresh sh)) (fresh sh # xs)"
    using fr e s1 by (intro markRecent_links_ok_new) auto
  then have "links_ok sh' (fresh sh # xs)"
    using sh' by (auto intro: links_ok_cong)
  moreover have "sbytes sh' = (\<Sum>a\<leftarrow>fresh sh # xs. entrySize (heap sh' a))"
  proof -
    have "(\<Sum>a\<leftarrow>xs. entrySize (heap sh' a)) = (\<Sum>a\<leftarrow>xs. entrySize (heap sh a))"
      using fr s1 sh' by (intro sum_list_cong) auto
    moreover have "heap sh' (fresh sh) = heap (markRecentLocked sh1 (fresh sh)) (fresh sh)"
      "sbytes sh' = sbytes sh + entrySize e"
      using sh' by auto
    ultimately show ?thesis
      using ok s1 by (simp add: shard_ok_def)
  qed
  ultimately show ?thesis
    using ok fr keys s1 sh' by (auto simp: shard_ok_def less_SucI)
qed

lemma setEntryLocked_correct:
  assumes wf: "wf_shard sh" and r: "setEntryLocked st sh k v d q = (x, st', sh')"
  shows "shard_step st sh st' sh'"
    "items sh' = lru_put \<lparr>ekey = k, evalue = v, edeadline = d, esequence = q\<rparr> (items sh)"
    "entries sh' k = Some x" "edeadline (heap sh' x) = d"
    "evictionGeneration st' = evictionGeneration st" "stats st' = stats st"
proof -
  from wf obtain xs where ok: "shard_ok sh xs"
    and it: "items sh = map (\<lambda>a. item.truncate (heap sh a)) xs"
    by (rule wf_shardE)
  let ?i = "\<lparr>ekey = k, evalue = v, edeadline = d, esequence = q\<rparr>"
  have "shard_step st sh st' sh' \<and> items sh' = lru_put ?i (items sh) \<and> entries sh' k = Some x \<and>
        edeadline (heap sh' x) = d \<and> evictionGeneration st' = evictionGeneration st \<and> stats st' = stats st"
  proof (cases "entries sh k")
    case None
    define e where "e = \<lparr>ekey = k, evalue = v, edeadline = d, esequence = q,
                         prev_entry = None, next_entry = None\<rparr>"
    define sh1 where "sh1 = sh\<lparr>heap := (heap sh)(fresh sh := e), fresh := Suc (fresh sh),
                       entries := (entries sh)(ekey e \<mapsto> fresh sh)\<rparr>"
    have x: "x = fresh sh" and sh': "sh' = (markRecentLocked sh1 (fresh sh))\<lparr>sbytes := sbytes sh + entrySize e\<rparr>"
      and st': "st' = st\<lparr>entryTotal := entryTotal st + 1, byteTotal := byteTotal st + entrySize e\<rparr>"
      using r None by (auto simp: setEntryLocked_def Let_def sh1_def e_def)
    have ok': "shard_ok sh' (fresh sh # xs)"
      by (rule shard_ok_insert [OF ok _ _ _ sh1_def sh']) (auto simp: e_def None)
    have fr: "fresh sh \<notin> set xs" and keys: "\<forall>a\<in>set xs. ekey (heap sh a) \<noteq> k"
      using ok None by (auto simp: shard_ok_def) (metis option.distinct(1))
    have it': "items sh' = ?i # items sh"
      using items_shard_ok [OF ok'] it fr sh'
      by (auto simp: sh1_def e_def)
    moreover have "lru_remove k (items sh) = items sh"
      using it keys by (auto simp: lru_remove_def filter_id_conv)
    ultimately show ?thesis
      using wf_shardI [OF ok'] x sh' st'
      by (auto simp: shard_step_def lru_put_def sh1_def e_def)
  next
    case (Some y)
    define new where "new = (heap sh y)\<lparr>evalue := v, edeadline := d, esequence := q\<rparr>"
    define sh1 where "sh1 = sh\<lparr>heap := (heap sh)(y := new),
                        sbytes := sbytes sh - entrySize (heap sh y) + entrySize new\<rparr>"
    have x: "x = y" and sh': "sh' = markRecentLocked sh1 y"
      and st': "st' = st\<lparr>byteTotal := byteTotal st + (entrySize new - entrySize (heap sh y))\<rparr>"
      using r Some by (auto simp: setEntryLocked_def Let_def sh1_def new_def)
    from ok Some obtain as bs where xs: "xs = as @ y # bs" and kx: "ekey (heap sh y) = k"
      by (rule shard_ok_split)
    have ok1: "shard_ok sh1 (as @ y # bs)"
      using shard_ok_overwrite [OF _ sh1_def [unfolded new_def]] ok xs by simp
    have k1: "entries sh1 k = Some y" using Some by (simp add: sh1_def)
    have step: "shard_step st sh1 st sh'" and it': "items sh' = lru_touch k (items sh1)"
      using markRecentLocked_correct [OF wf_shardI [OF ok1] k1] sh' by auto
    have dist: "distinct (as @ y # bs)" using ok xs by (auto simp: shard_ok_def links_ok_def)
    have it1: "items sh1 = map (\<lambda>a. item.truncate (heap sh a)) as @ ?i #
                 map (\<lambda>a. item.truncate (heap sh a)) bs"
      using items_shard_ok [OF ok1] dist kx by (auto simp: sh1_def new_def)
    have "lru_remove k (items sh1) = lru_remove k (items sh)"
      using it1 it xs kx by (simp add: lru_remove_def)
    moreover have "lru_find k (items sh1) = Some ?i"
      using lru_find_items [OF wf_shardI [OF ok1], of k] k1 kx
      by (simp add: sh1_def new_def)
    ultimately have "items sh' = lru_put ?i (items sh)"
      using it' by (simp add: lru_touch_def lru_put_def)
    moreover have "length (items sh1) = length (items sh)"
      using it1 it xs by simp
    ultimately show ?thesis
      using step x sh' st' k1
      by (auto simp: shard_step_def sh1_def new_def)
  qed
  then show "shard_step st sh st' sh'" "items sh' = lru_put ?i (items sh)"
    "entries sh' k = Some x" "edeadline (heap sh' x) = d"
    "evictionGeneration st' = evictionGeneration st" "stats st' = stats st"
    by auto
qed


subsection \<open>Facts on the abstract operations\<close>

lemma lru_find_remove [simp]: "lru_find k (lru_remove k' L) = (if k = k' then None else lru_find k L)"
  by (induction L) (auto simp: lru_find_def lru_remove_def)

lemma lru_find_put [simp]: "lru_find k (lru_put i L) = (if k = ekey i then Some i else lru_find k L)"
  by (auto simp: lru_put_def lru_find_def) (metis lru_find_def lru_find_remove)

lemma lru_find_key: "lru_find k L = Some i \<Longrightarrow> ekey i = k \<and> i \<in> set L"
  by (auto simp: lru_find_def find_Some_iff)

lemma lru_find_touch [simp]: "lru_find k (lru_touch k' L) = lru_find k L"
proof (cases "lru_find k' L")
  case None
  then show ?thesis by (simp add: lru_touch_def)
next
  case (Some i)
  with lru_find_key have "lru_touch k' L = lru_put i L"
    by (metis lru_put_def lru_touch_def option.simps(5))
  then show ?thesis
    using Some lru_find_key [OF Some] by auto
qed

lemma lru_find_None: "lru_find k L = None \<longleftrightarrow> k \<notin> ekey ` set L"
  by (auto simp: lru_find_def find_None_iff)

lemma lru_find_in: "distinct (map ekey L) \<Longrightarrow> i \<in> set L \<Longrightarrow> lru_find (ekey i) L = Some i"
  by (induction L) (auto simp: lru_find_def image_iff)

text \<open>Removing the key of the last item drops just that item.\<close>

lemma lru_remove_last:
  "distinct (map ekey (L @ [i])) \<Longrightarrow> lru_remove (ekey i) (L @ [i]) = L"
  using filter_all_but_middle [of ekey L i "[]"] by (simp add: lru_remove_def)

text \<open>Eviction keeps a prefix, the longest one whose dropped suffixes were all needed.\<close>

lemma lru_evict_charge: "charge (lru_evict cap L) \<le> cap"
proof (induction cap L rule: lru_evict.induct)
  case (1 cap L)
  then show ?case by (subst lru_evict.simps) (simp add: not_less)
qed

lemma lru_evict_take:
  "\<exists>n. n \<le> length L \<and> lru_evict cap L = take n L \<and> (\<forall>m. n < m \<and> m \<le> length L \<longrightarrow> cap < charge (take m L))"
proof (induction cap L rule: lru_evict.induct)
  case (1 cap L)
  show ?case
  proof (cases "cap < charge L")
    case True
    with 1 obtain n where n: "n \<le> length (butlast L)" "lru_evict cap (butlast L) = take n (butlast L)"
      "\<forall>m. n < m \<and> m \<le> length (butlast L) \<longrightarrow> cap < charge (take m (butlast L))"
      by blast
    have tk: "m \<le> length (butlast L) \<Longrightarrow> take m (butlast L) = take m L" for m
      by (auto simp: butlast_conv_take min_def split: if_splits)
    have "cap < charge (take m L)" if "n < m" "m \<le> length L" for m
      using that n(3) True tk [of m] by (cases "m = length L") auto
    then show ?thesis
      using n tk [of n] True by (intro exI [of _ n]) (auto simp: lru_evict.simps [of cap L])
  next
    case False
    then show ?thesis
      by (intro exI [of _ "length L"]) (simp add: lru_evict.simps [of cap L])
  qed
qed

lemma lru_evict_subset: "set (lru_evict cap L) \<subseteq> set L"
  using lru_evict_take [of L cap] by (auto dest: in_set_takeD)

subsection \<open>Eviction\<close>

text \<open>The number of live items among those an operation dropped.\<close>

definition live_count :: "i64 \<Rightarrow> item list \<Rightarrow> nat" where
  "live_count now L = length (filter (\<lambda>i. \<not> deadlinePassed (edeadline i) now) L)"

lemma wf_shard_oldest:
  assumes "wf_shard sh" "oldest sh = Some a"
  shows "entries sh (ekey (heap sh a)) = Some a"
    "items sh = butlast (items sh) @ [item.truncate (heap sh a)]"
proof -
  from assms(1) obtain xs where ok: "shard_ok sh xs"
    and it: "items sh = map (\<lambda>a. item.truncate (heap sh a)) xs"
    by (rule wf_shardE)
  with assms(2) have xs: "xs \<noteq> []" "a = last xs"
    by (auto simp: shard_ok_def links_ok_def last_opt_def split: if_splits)
  show "entries sh (ekey (heap sh a)) = Some a"
    using ok xs by (auto simp: shard_ok_def)
  show "items sh = butlast (items sh) @ [item.truncate (heap sh a)]"
    using it xs by (metis Nil_is_map_conv append_butlast_last_id last_map)
qed

lemma wf_shard_empty: "wf_shard sh \<Longrightarrow> oldest sh = None \<longleftrightarrow> items sh = []"
  by (erule wf_shardE) (auto simp: shard_ok_def links_ok_def)

lemma evictToCapacityLocked_correct:
  assumes "wf_shard sh"
  shows "\<exists>st' sh'. evictToCapacityLocked st sh now = Some (st', sh') \<and> shard_step st sh st' sh' \<and>
           items sh' = lru_evict (capacity sh) (items sh) \<and>
           evictionGeneration st' = evictionGeneration st +
             of_nat (live_count now (drop (length (items sh')) (items sh)))"
  using assms
proof (induction "length (items sh)" arbitrary: st sh rule: less_induct)
  case less
  note wf = less.prems
  show ?case
  proof (cases "capacity sh < sbytes sh")
    case False
    then have "\<not> capacity sh < charge (items sh)"
      using charge_items [OF wf] by simp
    then have "lru_evict (capacity sh) (items sh) = items sh"
      by (simp add: lru_evict.simps [of "capacity sh" "items sh"])
    then show ?thesis
      using False wf by (simp add: evictToCapacityLocked.simps shard_step_refl live_count_def)
  next
    case True
    then have ch: "capacity sh < charge (items sh)"
      using charge_items [OF wf] by simp
    then have "items sh \<noteq> []"
      by (auto simp: charge_def)
    then obtain a where a: "oldest sh = Some a"
      using wf_shard_empty [OF wf] by auto
    let ?k = "ekey (heap sh a)" and ?i = "item.truncate (heap sh a)"
    let ?kind = "if deadlinePassed (edeadline (heap sh a)) now then removalExpiry else removalEviction"
    obtain st1 sh1 where r: "removeEntryLocked st sh a ?kind = (st1, sh1)"
      by (cases "removeEntryLocked st sh a ?kind")
    note old = wf_shard_oldest [OF wf a]
    note rem = removeEntryLocked_correct [OF wf old(1) r]
    have it1: "items sh1 = butlast (items sh)"
      using rem(2) old(2) wf_shard_keys_distinct [OF wf]
      by (metis item_truncate_simps(1) lru_remove_last)
    have gen1: "evictionGeneration st1 = evictionGeneration st + of_nat (live_count now [?i])"
      using r by (auto simp: removeEntryLocked_def countRemoval_def Let_def live_count_def split: if_splits)
    have "length (items sh1) < length (items sh)"
      using it1 \<open>items sh \<noteq> []\<close> by simp
    from less.hyps [OF this shard_step_wf [OF rem(1)], of st1]
    obtain st' sh' where ev: "evictToCapacityLocked st1 sh1 now = Some (st', sh')"
      and step: "shard_step st1 sh1 st' sh'"
      and it': "items sh' = lru_evict (capacity sh1) (items sh1)"
      and gen': "evictionGeneration st' = evictionGeneration st1 +
             of_nat (live_count now (drop (length (items sh')) (items sh1)))"
      by blast
    have "capacity sh1 = capacity sh" using rem(1) by (simp add: shard_step_def)
    then have it2: "items sh' = lru_evict (capacity sh) (items sh)"
      using it' it1 ch by (simp add: lru_evict.simps [of "capacity sh" "items sh"])
    have "length (items sh') \<le> length (items sh1)"
      using it' lru_evict_take [of "items sh1" "capacity sh1"] by auto
    then have "drop (length (items sh')) (items sh) = drop (length (items sh')) (items sh1) @ [?i]"
      using old(2) it1 by (metis drop_append append_Nil2 diff_is_0_eq drop0)
    then have gen2: "evictionGeneration st' = evictionGeneration st +
             of_nat (live_count now (drop (length (items sh')) (items sh)))"
      using gen1 gen' by (simp add: live_count_def)
    have "evictToCapacityLocked st sh now = Some (st', sh')"
      using True a r ev by (simp add: evictToCapacityLocked.simps [of st sh now])
    then show ?thesis
      using shard_step_trans [OF rem(1) step] it2 gen2 by blast
  qed
qed

end
