(* ===== verification/Cache_Image.thy ===== *)
theory Cache_Image
  imports Cache_LRU
begin

text \<open>
  The store as a map. \<open>wf_store\<close> is the invariant of the whole in-memory store: every shard
  is well formed, every key lives in the shard it hashes to, and the two totals equal what
  the shards hold. \<open>contents\<close> is the contents a store holds; the lemmas say what each
  operation of \<open>entries.go\<close> does to it. The contract the recovery code relies on, a store
  that applies log records to its contents, is the locale \<open>record_store\<close>.
\<close>

section \<open>Invariant and contents\<close>

definition shard_image :: "shard \<Rightarrow> key \<Rightarrow> item option" where
  "shard_image sh k = map_option (\<lambda>a. item.truncate (heap sh a)) (entries sh k)"

definition contents :: "store \<Rightarrow> key \<Rightarrow> item option" where
  "contents st k = shard_image (shardFor st k) k"

definition homed :: "store \<Rightarrow> nat \<Rightarrow> shard \<Rightarrow> bool" where
  "homed st i sh \<longleftrightarrow> (\<forall>k. entries sh k \<noteq> None \<longrightarrow> shardIndex st k = i)"

definition wf_store :: "store \<Rightarrow> bool" where
  "wf_store st \<longleftrightarrow> routed st \<and>
     (\<forall>i < length (shards st). wf_shard (shards st ! i) \<and> homed st i (shards st ! i)) \<and>
     entryTotal st = (\<Sum>sh\<leftarrow>shards st. of_nat (length (items sh))) \<and>
     byteTotal st = (\<Sum>sh\<leftarrow>shards st. sbytes sh)"

lemma shard_image_items: "wf_shard sh \<Longrightarrow> shard_image sh k = lru_find k (items sh)"
  by (simp add: shard_image_def lru_find_items)

lemma wf_store_shard:
  assumes "wf_store st"
  shows "wf_shard (shardFor st k)" "shardIndex st k < length (shards st)"
    "homed st (shardIndex st k) (shardFor st k)"
  using assms shardIndex_less [of st k] by (auto simp: wf_store_def shardFor_def)

text \<open>Writing a shard back after a balanced step keeps the store well formed.\<close>

lemma wf_store_putShard:
  assumes wf: "wf_store st" and i: "i < length (shards st)"
    and step: "shard_step st (shards st ! i) st' sh'" and home: "homed st i sh'"
  shows "wf_store (putShard st' i sh')"
proof -
  let ?sh = "shards st ! i"
  from step have eqs: "shards st' = shards st" "shardMask st' = shardMask st" "wf_shard sh'"
    and tot: "entryTotal st' - of_nat (length (items sh')) = entryTotal st - of_nat (length (items ?sh))"
      "byteTotal st' - sbytes sh' = byteTotal st - sbytes ?sh"
    by (auto simp: shard_step_def)
  have idx: "shardIndex (putShard st' i sh') = shardIndex st"
    by (rule shardIndex_cong) (simp add: eqs)
  have "entryTotal st' = (\<Sum>sh\<leftarrow>(shards st)[i := sh']. of_nat (length (items sh)))"
    using wf i tot(1) unfolding wf_store_def
    by (simp add: sum_list_update_word [OF i] algebra_simps)
  moreover have "byteTotal st' = (\<Sum>sh\<leftarrow>(shards st)[i := sh']. sbytes sh)"
    using wf i tot(2) unfolding wf_store_def
    by (simp add: sum_list_update_word [OF i] algebra_simps)
  moreover have "wf_shard ((shards st)[i := sh'] ! j) \<and> homed st j ((shards st)[i := sh'] ! j)"
    if "j < length (shards st)" for j
    using wf eqs(3) home that by (cases "j = i") (auto simp: wf_store_def)
  ultimately show ?thesis
    using wf eqs idx by (auto simp: wf_store_def routed_def homed_def)
qed

lemma contents_putShard:
  assumes "wf_store st" "shards st' = shards st" "shardMask st' = shardMask st"
    and "i = shardIndex st k" "homed st i sh'"
  shows "contents (putShard st' i sh') k' = (if shardIndex st k' = i then shard_image sh' k' else contents st k')"
proof -
  have idx: "shardIndex (putShard st' i sh') = shardIndex st"
    by (rule shardIndex_cong) (simp add: assms)
  show ?thesis
    using assms wf_store_shard(2) [OF assms(1), of k] idx
    by (auto simp: contents_def shardFor_def nth_list_update)
qed

lemma shard_image_other_home: "homed st i sh \<Longrightarrow> shardIndex st k \<noteq> i \<Longrightarrow> shard_image sh k = None"
  by (auto simp: homed_def shard_image_def)

lemma homed_shard_image: "homed st i sh \<longleftrightarrow> (\<forall>k. shard_image sh k \<noteq> None \<longrightarrow> shardIndex st k = i)"
  by (auto simp: homed_def shard_image_def)

lemma homed_subset:
  assumes "homed st i sh" "wf_shard sh" "wf_shard sh'"
    and keys: "ekey ` set (items sh') \<subseteq> insert k (ekey ` set (items sh))" and "shardIndex st k = i"
  shows "homed st i sh'"
  unfolding homed_shard_image
proof (intro allI impI)
  fix k'
  assume "shard_image sh' k' \<noteq> None"
  then have "k' \<in> ekey ` set (items sh')"
    using assms(3) lru_find_None by (metis shard_image_items)
  then have "k' = k \<or> shard_image sh k' \<noteq> None"
    using keys assms(2) lru_find_None by (metis insert_iff shard_image_items subsetD)
  then show "shardIndex st k' = i"
    using assms(1,5) unfolding homed_shard_image by blast
qed

section \<open>Applying records\<close>

abbreviation mk_item :: "key \<Rightarrow> bytes \<Rightarrow> i64 \<Rightarrow> u64 \<Rightarrow> item" where
  "mk_item k v d q \<equiv> \<lparr>ekey = k, evalue = v, edeadline = d, esequence = q\<rparr>"

lemma set_lru_put: "set (lru_put i L) \<subseteq> insert i (set L)"
  by (auto simp: lru_put_def lru_remove_def)

lemma set_lru_remove: "set (lru_remove k L) \<subseteq> set L"
  by (auto simp: lru_remove_def)

lemma set_lru_touch: "set (lru_touch k L) \<subseteq> set L"
  using lru_find_key by (fastforce simp: lru_touch_def lru_remove_def split: option.splits)

text \<open>A step inside the shard of a key, written back: the whole store moves with it.\<close>

lemma shard_step_store:
  assumes wf: "wf_store st" and step: "shard_step st (shardFor st k) st' sh'"
    and keys: "ekey ` set (items sh') \<subseteq> insert k (ekey ` set (items (shardFor st k)))"
  shows "wf_store (putShard st' (shardIndex st k) sh')"
    "contents (putShard st' (shardIndex st k) sh') k' =
       (if shardIndex st k' = shardIndex st k then lru_find k' (items sh') else contents st k')"
proof -
  note sh = wf_store_shard [OF wf, of k]
  have home: "homed st (shardIndex st k) sh'"
    by (rule homed_subset [OF sh(3,1) shard_step_wf [OF step] keys]) simp
  show "wf_store (putShard st' (shardIndex st k) sh')"
    by (rule wf_store_putShard [OF wf sh(2) _ home]) (use step in \<open>simp add: shardFor_def\<close>)
  show "contents (putShard st' (shardIndex st k) sh') k' =
       (if shardIndex st k' = shardIndex st k then lru_find k' (items sh') else contents st k')"
    using contents_putShard [OF wf _ _ refl home, of st' k'] step shard_image_items [OF shard_step_wf [OF step]]
    by (simp add: shard_step_def)
qed

lemma contents_shardFor: "wf_store st \<Longrightarrow> shardIndex st k' = shardIndex st k \<Longrightarrow>
    lru_find k' (items (shardFor st k)) = contents st k'"
  by (metis contents_def shardFor_def shard_image_items wf_store_shard(1))

text \<open>Fields that play no part in the invariant or the contents.\<close>

lemma wf_store_cong:
  assumes "shards st' = shards st" "shardMask st' = shardMask st"
    "entryTotal st' = entryTotal st" "byteTotal st' = byteTotal st"
  shows "wf_store st' = wf_store st"
  using assms shardIndex_cong [of st' st] by (simp add: wf_store_def routed_def homed_def)

lemma contents_cong:
  "shards st' = shards st \<Longrightarrow> shardMask st' = shardMask st \<Longrightarrow> contents st' = contents st"
  by (simp add: contents_def shardFor_def shardIndex_def fun_eq_iff)

lemma wf_store_upd [simp]:
  "wf_store (st\<lparr>logSequence := q\<rparr>) = wf_store st" "wf_store (st\<lparr>stats := c\<rparr>) = wf_store st"
  "wf_store (st\<lparr>snapshotRunning := b\<rparr>) = wf_store st"
  "wf_store (st\<lparr>recoveryShard := r\<rparr>) = wf_store st" "wf_store (st\<lparr>evictionGeneration := g\<rparr>) = wf_store st"
  by (rule wf_store_cong; simp)+

lemma contents_upd [simp]:
  "contents (st\<lparr>logSequence := q\<rparr>) = contents st" "contents (st\<lparr>stats := c\<rparr>) = contents st"
  "contents (st\<lparr>snapshotRunning := b\<rparr>) = contents st"
  "contents (st\<lparr>recoveryShard := r\<rparr>) = contents st" "contents (st\<lparr>evictionGeneration := g\<rparr>) = contents st"
  by (rule contents_cong; simp)+

lemma putShard_logSequence [simp]:
  "putShard (st\<lparr>logSequence := q\<rparr>) i sh = (putShard st i sh)\<lparr>logSequence := q\<rparr>"
  by (simp add: putShard_def)

lemma applyRecoveredSet_correct:
  assumes wf: "wf_store st"
  shows "wf_store (applyRecoveredSet st k v d q)"
    "contents (applyRecoveredSet st k v d q) = (contents st)(k \<mapsto> mk_item k v d q)"
proof -
  obtain x st' sh' where r: "setEntryLocked st (shardFor st k) k v d q = (x, st', sh')"
    by (metis prod_cases3)
  note c = setEntryLocked_correct [OF wf_store_shard(1) [OF wf] r]
  have keys: "ekey ` set (items sh') \<subseteq> insert k (ekey ` set (items (shardFor st k)))"
    using c(2) set_lru_put by fastforce
  note s = shard_step_store [OF wf c(1) keys]
  have eq: "applyRecoveredSet st k v d q = putShard st' (shardIndex st k) sh'"
    by (simp add: applyRecoveredSet_def r)
  show "wf_store (applyRecoveredSet st k v d q)" using s(1) eq by simp
  show "contents (applyRecoveredSet st k v d q) = (contents st)(k \<mapsto> mk_item k v d q)"
    using s(2) eq c(2) contents_shardFor [OF wf] by (auto simp: fun_eq_iff)
qed

lemma applyDelete_correct:
  assumes wf: "wf_store st"
  shows "wf_store (applyDelete st k q)" "contents (applyDelete st k q) = (contents st)(k := None)"
    "logSequence (applyDelete st k q) = q"
    "evictionGeneration (applyDelete st k q) = evictionGeneration st"
proof -
  let ?sh = "shardFor st k"
  note sh = wf_store_shard(1) [OF wf, of k]
  obtain st' sh' where r: "(case entries ?sh k of
      Some current \<Rightarrow> removeEntryLocked st ?sh current removalDelete | None \<Rightarrow> (st, ?sh)) = (st', sh')"
    by fastforce
  have c: "shard_step st ?sh st' sh' \<and> items sh' = lru_remove k (items ?sh) \<and>
      evictionGeneration st' = evictionGeneration st"
  proof (cases "entries ?sh k")
    case None
    then have "lru_find k (items ?sh) = None"
      using lru_find_items [OF sh, of k] by simp
    then have "lru_remove k (items ?sh) = items ?sh"
      by (auto simp: lru_find_None lru_remove_def filter_id_conv)
    then show ?thesis
      using None r sh by (auto simp: shard_step_refl)
  next
    case (Some x)
    then show ?thesis
      using removeEntryLocked_correct [OF sh Some, of st removalDelete st' sh'] r
      by (auto simp: removeEntryLocked_def countRemoval_def Let_def)
  qed
  have keys: "ekey ` set (items sh') \<subseteq> insert k (ekey ` set (items ?sh))"
    using c set_lru_remove by fastforce
  note s = shard_step_store [OF wf conjunct1 [OF c] keys]
  have eq: "applyDelete st k q = (putShard st' (shardIndex st k) sh')\<lparr>logSequence := q\<rparr>"
    by (simp add: applyDelete_def r)
  show "wf_store (applyDelete st k q)" "logSequence (applyDelete st k q) = q"
    "evictionGeneration (applyDelete st k q) = evictionGeneration st"
    using s(1) c by (simp_all add: eq)
  show "contents (applyDelete st k q) = (contents st)(k := None)"
    using s(2) c contents_shardFor [OF wf] by (auto simp: eq fun_eq_iff)
qed


section \<open>Losing entries\<close>

text \<open>
  \<open>lost_live now m m'\<close> are the keys that are live in \<open>m\<close> at \<open>now\<close> and gone from \<open>m'\<close>.
  \<open>thinned now n m m'\<close>: \<open>m'\<close> is \<open>m\<close> less some entries, of which \<open>n\<close> were live.
\<close>

definition lost_live :: "i64 \<Rightarrow> (key \<rightharpoonup> item) \<Rightarrow> (key \<rightharpoonup> item) \<Rightarrow> key set" where
  "lost_live now m m' =
     {k. m' k = None \<and> (\<exists>i. m k = Some i \<and> \<not> deadlinePassed (edeadline i) now)}"

definition thinned :: "i64 \<Rightarrow> nat \<Rightarrow> (key \<rightharpoonup> item) \<Rightarrow> (key \<rightharpoonup> item) \<Rightarrow> bool" where
  "thinned now n m m' \<longleftrightarrow> m' \<subseteq>\<^sub>m m \<and> finite (lost_live now m m') \<and> card (lost_live now m m') = n"

lemma lost_live_same [simp]: "lost_live now m m = {}"
  by (auto simp: lost_live_def)

lemma thinned_refl [simp]: "thinned now 0 m m"
  by (simp add: thinned_def)

lemma thinned_0_iff:
  "thinned now 0 m m' \<longleftrightarrow>
     (\<forall>k. m' k = m k \<or> m' k = None \<and> (\<exists>i. m k = Some i \<and> deadlinePassed (edeadline i) now))"
proof -
  have "thinned now 0 m m' \<longleftrightarrow> m' \<subseteq>\<^sub>m m \<and> lost_live now m m' = {}"
    by (auto simp: thinned_def)
  also have "\<dots> \<longleftrightarrow> (\<forall>k. (m' k = None \<or> m' k = m k) \<and> k \<notin> lost_live now m m')"
    unfolding map_le_def by (auto simp: dom_def) (metis option.distinct(1))
  also have "\<dots> \<longleftrightarrow> (\<forall>k. m' k = m k \<or> m' k = None \<and> (\<exists>i. m k = Some i \<and> deadlinePassed (edeadline i) now))"
  proof (rule all_cong1)
    fix k
    show "((m' k = None \<or> m' k = m k) \<and> k \<notin> lost_live now m m') \<longleftrightarrow>
        (m' k = m k \<or> m' k = None \<and> (\<exists>i. m k = Some i \<and> deadlinePassed (edeadline i) now))"
      by (cases "m k"; cases "m' k") (auto simp: lost_live_def)
  qed
  finally show ?thesis .
qed

lemma thinned_0:
  "thinned now 0 m m' \<Longrightarrow> m k = Some i \<Longrightarrow> \<not> deadlinePassed (edeadline i) now \<Longrightarrow> m' k = Some i"
  unfolding thinned_0_iff by (metis option.inject)

lemma thinned_trans_0:
  "thinned now 0 m m' \<Longrightarrow> thinned now 0 m' m'' \<Longrightarrow> thinned now 0 m m''"
  unfolding thinned_0_iff by (metis option.distinct(1))

text \<open>Dropping a suffix of the recency list loses the live items of that suffix.\<close>

lemma thinned_prefix:
  assumes "distinct (map ekey (L @ D))"
  shows "thinned now (live_count now D) (\<lambda>k. lru_find k (L @ D)) (\<lambda>k. lru_find k L)"
proof -
  let ?live = "filter (\<lambda>i. \<not> deadlinePassed (edeadline i) now) D"
  have dist: "distinct (map ekey L)" "distinct (map ekey D)" using assms by auto
  have le: "lru_find k (L @ D) = Some i" if "lru_find k L = Some i" for k i
    using lru_find_in [OF assms, of i] lru_find_key [OF that] by auto
  have "lost_live now (\<lambda>k. lru_find k (L @ D)) (\<lambda>k. lru_find k L) = ekey ` set ?live" (is "?lost = _")
  proof
    show "?lost \<subseteq> ekey ` set ?live"
      by (auto simp: lost_live_def lru_find_None dest!: lru_find_key)
    show "ekey ` set ?live \<subseteq> ?lost"
    proof
      fix k assume "k \<in> ekey ` set ?live"
      then obtain i where i: "i \<in> set D" "\<not> deadlinePassed (edeadline i) now" "k = ekey i" by auto
      then have "ekey i \<notin> ekey ` set L" using assms by auto
      then show "k \<in> ?lost"
        using i lru_find_in [OF assms, of i] by (auto simp: lost_live_def lru_find_None)
    qed
  qed
  moreover have "card (ekey ` set ?live) = live_count now D"
    using dist(2) distinct_card [of "map ekey ?live"] by (simp add: live_count_def distinct_map_filter)
  moreover have "(\<lambda>k. lru_find k L) \<subseteq>\<^sub>m (\<lambda>k. lru_find k (L @ D))"
    by (auto simp: map_le_def le)
  ultimately show ?thesis
    by (simp add: thinned_def)
qed

text \<open>The same inside the whole store, when one shard is written back.\<close>

lemma thinned_store:
  assumes "thinned now n (\<lambda>k. lru_find k L) (\<lambda>k. lru_find k L')"
    and m: "\<And>k. m k = (if P k then lru_find k L else r k)"
    and m': "\<And>k. m' k = (if P k then lru_find k L' else r k)"
    and "\<And>k. \<not> P k \<Longrightarrow> lru_find k L = None"
  shows "thinned now n m m'"
proof -
  have "lost_live now m m' = lost_live now (\<lambda>k. lru_find k L) (\<lambda>k. lru_find k L')"
    using assms(4) by (auto simp: lost_live_def m m' split: if_splits)
  moreover have "m' \<subseteq>\<^sub>m m"
    using assms(1) by (auto simp: thinned_def map_le_def dom_def m m')
  ultimately show ?thesis
    using assms(1) by (simp add: thinned_def)
qed


section \<open>Reads and writes\<close>

lemma lru_find_other_home:
  "wf_store st \<Longrightarrow> shardIndex st k' \<noteq> shardIndex st k \<Longrightarrow> lru_find k' (items (shardFor st k)) = None"
  by (metis shard_image_items shard_image_other_home wf_store_shard(1,3))

text \<open>
  The second half of \<open>applySet\<close>: the written entry is dropped when it is already expired,
  and otherwise the shard is evicted down to its capacity.
\<close>

lemma settle_correct:
  assumes wf: "wf_shard sh" and x: "entries sh k = Some x" "edeadline (heap sh x) = d"
    and i: "lru_find k (items sh) = Some i" "edeadline i = d"
  shows "\<exists>st' sh' n. (if deadlinePassed (edeadline (heap sh x)) now
        then Some (removeEntryLocked st sh x removalExpiry)
        else if capacity sh < sbytes sh then evictToCapacityLocked st sh now else Some (st, sh))
        = Some (st', sh') \<and> shard_step st sh st' sh' \<and>
      thinned now n (\<lambda>k. lru_find k (items sh)) (\<lambda>k. lru_find k (items sh')) \<and>
      evictionGeneration st' = evictionGeneration st + of_nat n \<and>
      items sh' = (if deadlinePassed d now then lru_remove k (items sh)
                   else lru_evict (capacity sh) (items sh))"
proof (cases "deadlinePassed d now")
  case True
  obtain st' sh' where rm: "removeEntryLocked st sh x removalExpiry = (st', sh')" by fastforce
  note cr = removeEntryLocked_correct [OF wf x(1) rm]
  have "thinned now 0 (\<lambda>k. lru_find k (items sh)) (\<lambda>k. lru_find k (items sh'))"
    using cr(2) i True by (simp add: thinned_0_iff)
  moreover have "evictionGeneration st' = evictionGeneration st"
    using rm by (auto simp: removeEntryLocked_def countRemoval_def Let_def)
  ultimately show ?thesis
    using rm cr x(2) True by (intro exI [of _ st'] exI [of _ sh'] exI [of _ 0]) simp
next
  case False
  let ?live = "\<lambda>sh'. live_count now (drop (length (items sh')) (items sh))"
  obtain st' sh' where ev: "evictToCapacityLocked st sh now = Some (st', sh')"
    and step: "shard_step st sh st' sh'" and it: "items sh' = lru_evict (capacity sh) (items sh)"
    and gen: "evictionGeneration st' = evictionGeneration st + of_nat (?live sh')"
    using evictToCapacityLocked_correct [OF wf, of st now] by blast
  have "items sh = items sh' @ drop (length (items sh')) (items sh)"
    using lru_evict_take [of "items sh" "capacity sh"] it by auto
  then have "thinned now (?live sh') (\<lambda>k. lru_find k (items sh)) (\<lambda>k. lru_find k (items sh'))"
    using thinned_prefix wf_shard_keys_distinct [OF wf] by metis
  then show ?thesis
    using ev step it gen False x(2)
    by (intro exI [of _ st'] exI [of _ sh'] exI [of _ "?live sh'"])
      (auto simp: evictToCapacityLocked.simps [of st sh now])
qed

lemma applySet_correct:
  assumes wf: "wf_store st"
  shows "\<exists>st' n. applySet st k v d q now = Some st' \<and> wf_store st' \<and> logSequence st' = q \<and>
    thinned now n ((contents st)(k \<mapsto> mk_item k v d q)) (contents st') \<and>
    evictionGeneration st' = evictionGeneration st + of_nat n \<and>
    items (shardFor st' k) =
      (if deadlinePassed d now then lru_remove k (items (shardFor st k))
       else lru_evict (capacity (shardFor st k)) (lru_put (mk_item k v d q) (items (shardFor st k)))) \<and>
    (\<forall>j. j \<noteq> shardIndex st k \<longrightarrow> shards st' ! j = shards st ! j) \<and>
    shardMask st' = shardMask st \<and> lastError (stats st') = lastError (stats st)"
proof -
  let ?sh = "shardFor st k" and ?j = "shardIndex st k" and ?i = "mk_item k v d q"
  obtain x st1 sh1 where r: "setEntryLocked st ?sh k v d q = (x, st1, sh1)"
    by (metis prod_cases3)
  note c = setEntryLocked_correct [OF wf_store_shard(1) [OF wf] r]
  note wf1 = shard_step_wf [OF c(1)]
  have cap1: "capacity sh1 = capacity ?sh" using c(1) by (simp add: shard_step_def)
  have i1: "lru_find k (items sh1) = Some ?i" "edeadline ?i = d" using c(2) by auto
  obtain st2 sh2 n where mid: "(if deadlinePassed (edeadline (heap sh1 x)) now
       then Some (removeEntryLocked st1 sh1 x removalExpiry)
       else if capacity ?sh < sbytes sh1 then evictToCapacityLocked st1 sh1 now else Some (st1, sh1))
       = Some (st2, sh2)" and step2: "shard_step st1 sh1 st2 sh2"
    and th: "thinned now n (\<lambda>k. lru_find k (items sh1)) (\<lambda>k. lru_find k (items sh2))"
    and gen: "evictionGeneration st2 = evictionGeneration st1 + of_nat n"
    and it2: "items sh2 = (if deadlinePassed d now then lru_remove k (items sh1)
                   else lru_evict (capacity ?sh) (items sh1))"
    using settle_correct [OF wf1 c(3,4) i1, where st = st1 and now = now] unfolding cap1 by blast
  note step = shard_step_trans [OF c(1) step2]
  have keys: "ekey ` set (items sh2) \<subseteq> insert k (ekey ` set (items ?sh))"
    using it2 c(2) lru_evict_subset [of "capacity ?sh" "items sh1"] set_lru_remove [of k "items sh1"]
      set_lru_put [of ?i "items ?sh"]
    by (auto split: if_splits)
  note s = shard_step_store [OF wf step keys]
  define st' where "st' = (putShard st2 ?j sh2)\<lparr>logSequence := q\<rparr>"
  have res: "applySet st k v d q now = Some st'"
    using mid cap1 by (simp add: applySet_def r st'_def split: if_splits)
  have m: "((contents st)(k \<mapsto> ?i)) k' = (if shardIndex st k' = ?j then lru_find k' (items sh1) else contents st k')" for k'
    using c(2) contents_shardFor [OF wf, of k' k] by auto
  have m': "contents st' k' = (if shardIndex st k' = ?j then lru_find k' (items sh2) else contents st k')" for k'
    using s(2) by (simp add: st'_def)
  have none: "\<not> shardIndex st k' = ?j \<Longrightarrow> lru_find k' (items sh1) = None" for k'
    using c(2) lru_find_other_home [OF wf, of k' k] by auto
  have "thinned now n ((contents st)(k \<mapsto> ?i)) (contents st')"
    by (rule thinned_store [OF th m m' none])
  moreover have "shardIndex st' k = ?j" "shards st' = (shards st)[?j := sh2]"
    "lastError (stats st') = lastError (stats st)" "shardMask st' = shardMask st"
    using step by (auto simp: st'_def shard_step_def shardIndex_def)
  then have "items (shardFor st' k) = items sh2" "lastError (stats st') = lastError (stats st)"
    "\<forall>j. j \<noteq> ?j \<longrightarrow> shards st' ! j = shards st ! j" "shardMask st' = shardMask st"
    using wf_store_shard(2) [OF wf, of k] by (auto simp: shardFor_def)
  moreover have "lru_remove k (items sh1) = lru_remove k (items ?sh)"
    using c(2) by (simp add: lru_put_def lru_remove_def)
  ultimately show ?thesis
    using res s(1) gen c(5) it2 c(2) by (intro exI [of _ st'] exI [of _ n]) (simp add: st'_def)
qed


lemma getInto_correct:
  assumes wf: "wf_store st" and r: "getInto st k now = (res, st')"
  shows "wf_store st'"
    "contents st' = (if \<exists>i. contents st k = Some i \<and> deadlinePassed (edeadline i) now
                   then (contents st)(k := None) else contents st)"
    "res = (case contents st k of
              Some i \<Rightarrow> if deadlinePassed (edeadline i) now then ([], False) else (evalue i, True)
            | None \<Rightarrow> ([], False))"
    "evictionGeneration st' = evictionGeneration st" "logSequence st' = logSequence st"
proof -
  let ?sh = "shardFor st k" and ?j = "shardIndex st k"
  note sh = wf_store_shard(1) [OF wf, of k]
  have ck: "contents st k = map_option (\<lambda>a. item.truncate (heap ?sh a)) (entries ?sh k)"
    by (simp add: contents_def shard_image_def)
  have "wf_store st' \<and> contents st' = (if \<exists>i. contents st k = Some i \<and> deadlinePassed (edeadline i) now
                   then (contents st)(k := None) else contents st) \<and>
    res = (case contents st k of
              Some i \<Rightarrow> if deadlinePassed (edeadline i) now then ([], False) else (evalue i, True)
            | None \<Rightarrow> ([], False)) \<and>
    evictionGeneration st' = evictionGeneration st \<and> logSequence st' = logSequence st"
  proof (cases "entries ?sh k")
    case None
    then show ?thesis
      using r ck wf by (auto simp: getInto_def addMiss_def Let_def)
  next
    case (Some x)
    show ?thesis
    proof (cases "deadlinePassed (edeadline (heap ?sh x)) now")
      case True
      obtain st1 sh1 where rm: "removeEntryLocked st ?sh x removalExpiry = (st1, sh1)" by fastforce
      note c = removeEntryLocked_correct [OF sh Some rm]
      have keys: "ekey ` set (items sh1) \<subseteq> insert k (ekey ` set (items ?sh))"
        using c(2) set_lru_remove by fastforce
      note s = shard_step_store [OF wf c(1) keys]
      have gen: "evictionGeneration st1 = evictionGeneration st"
        using rm by (auto simp: removeEntryLocked_def countRemoval_def Let_def)
      have "contents (putShard st1 ?j sh1) = (contents st)(k := None)"
        using s(2) c(2) contents_shardFor [OF wf] by (auto simp: fun_eq_iff)
      then show ?thesis
        using r Some rm True ck s(1) gen c(1)
        by (auto simp: getInto_def addMiss_def Let_def shard_step_def)
    next
      case False
      note c = markRecentLocked_correct(1) [OF sh Some, of st] markRecentLocked_correct(2) [OF sh Some]
      have keys: "ekey ` set (items (markRecentLocked ?sh x)) \<subseteq> insert k (ekey ` set (items ?sh))"
        using c(2) set_lru_touch by fastforce
      note s = shard_step_store [OF wf c(1) keys]
      have "contents (putShard st ?j (markRecentLocked ?sh x)) = contents st"
        using s(2) c(2) contents_shardFor [OF wf] by (auto simp: fun_eq_iff)
      then show ?thesis
        using r Some False ck s(1) by (auto simp: getInto_def addHit_def Let_def)
    qed
  qed
  then show "wf_store st'"
    "contents st' = (if \<exists>i. contents st k = Some i \<and> deadlinePassed (edeadline i) now
                   then (contents st)(k := None) else contents st)"
    "res = (case contents st k of
              Some i \<Rightarrow> if deadlinePassed (edeadline i) now then ([], False) else (evalue i, True)
            | None \<Rightarrow> ([], False))"
    "evictionGeneration st' = evictionGeneration st" "logSequence st' = logSequence st"
    by auto
qed


section \<open>Expiry\<close>

text \<open>The items that survive when the expired items with a key in \<open>ks\<close> are removed.\<close>

definition unexpired :: "i64 \<Rightarrow> key set \<Rightarrow> item list \<Rightarrow> item list" where
  "unexpired now ks L = filter (\<lambda>i. \<not> (ekey i \<in> ks \<and> deadlinePassed (edeadline i) now)) L"

lemma unexpired_empty [simp]: "unexpired now {} L = L"
  by (simp add: unexpired_def)

lemma set_unexpired: "set (unexpired now ks L) \<subseteq> set L"
  by (auto simp: unexpired_def)

lemma unexpired_insert_absent:
  "lru_find k L = None \<Longrightarrow> unexpired now (insert k ks) L = unexpired now ks L"
  by (auto simp: unexpired_def lru_find_None intro!: filter_cong)

lemma unexpired_insert:
  assumes "distinct (map ekey L)" "lru_find k L = Some i"
  shows "unexpired now (insert k ks) L =
    (if deadlinePassed (edeadline i) now then unexpired now ks (lru_remove k L) else unexpired now ks L)"
proof -
  have "j = i" if "j \<in> set L" "ekey j = k" for j
    using lru_find_in [OF assms(1) that(1)] that(2) assms(2) by simp
  then show ?thesis
    by (auto simp: unexpired_def lru_remove_def intro!: filter_cong)
qed

lemma unexpired_unexpired: "\<exists>ks''. unexpired now ks' (unexpired now ks L) = unexpired now ks'' L"
  by (rule exI [of _ "ks \<union> ks'"]) (auto simp: unexpired_def intro!: filter_cong)

lemma lru_remove_length:
  assumes "distinct (map ekey L)" "lru_find k L = Some i"
  shows "Suc (length (lru_remove k L)) = length L"
proof -
  from assms(2) obtain as bs where L: "L = as @ i # bs" and k: "ekey i = k"
    using lru_find_key by (metis split_list)
  then show ?thesis
    using filter_all_but_middle [of ekey as i bs] assms(1) by (simp add: lru_remove_def)
qed

lemma thinned_unexpired:
  assumes "distinct (map ekey L)"
  shows "thinned now 0 (\<lambda>k. lru_find k L) (\<lambda>k. lru_find k (unexpired now ks L))"
  unfolding thinned_0_iff
proof
  fix k
  have dist: "distinct (map ekey (unexpired now ks L))"
    using assms by (simp add: unexpired_def distinct_map_filter)
  show "lru_find k (unexpired now ks L) = lru_find k L \<or>
     lru_find k (unexpired now ks L) = None \<and> (\<exists>i. lru_find k L = Some i \<and> deadlinePassed (edeadline i) now)"
  proof (cases "lru_find k L")
    case None
    then have "lru_find k (unexpired now ks L) = None"
      using set_unexpired [of now ks L] by (auto simp: lru_find_None)
    then show ?thesis using None by simp
  next
    case (Some i)
    show ?thesis
    proof (cases "i \<in> set (unexpired now ks L)")
      case True
      then show ?thesis using lru_find_in [OF dist True] Some lru_find_key [OF Some] by simp
    next
      case False
      then have "deadlinePassed (edeadline i) now"
        using lru_find_key [OF Some] by (auto simp: unexpired_def)
      moreover have "lru_find k (unexpired now ks L) = None"
        using False lru_find_in [OF assms] lru_find_key Some set_unexpired [of now ks L]
        by (metis not_None_eq option.inject subsetD)
      ultimately show ?thesis using Some by simp
    qed
  qed
qed

lemma reclaimExpiredLocked_correct:
  assumes "wf_shard sh" "reclaimExpiredLocked st sh now order = (st', sh')"
  shows "shard_step st sh st' sh' \<and> items sh' = unexpired now (set order) (items sh) \<and>
    evictionGeneration st' = evictionGeneration st"
  using assms
proof (induction order arbitrary: st sh)
  case Nil
  then show ?case by (simp add: shard_step_refl)
next
  case (Cons k order)
  note wf = Cons.prems(1)
  note f = lru_find_items [OF wf, of k]
  note dist = wf_shard_keys_distinct [OF wf]
  show ?case
  proof (cases "entries sh k")
    case None
    then show ?thesis
      using Cons f by (auto simp: unexpired_insert_absent)
  next
    case (Some x)
    then have fx: "lru_find k (items sh) = Some (item.truncate (heap sh x))" using f by simp
    show ?thesis
    proof (cases "deadlinePassed (edeadline (heap sh x)) now")
      case True
      obtain st1 sh1 where rm: "removeEntryLocked st sh x removalExpiry = (st1, sh1)" by fastforce
      note c = removeEntryLocked_correct [OF wf Some rm]
      have "evictionGeneration st1 = evictionGeneration st"
        using rm by (auto simp: removeEntryLocked_def countRemoval_def Let_def)
      then show ?thesis
        using Cons.IH [OF shard_step_wf [OF c(1)], of st1] Cons.prems(2) Some True rm c
          unexpired_insert [OF dist fx] shard_step_trans [OF c(1)]
        by auto
    next
      case False
      then show ?thesis
        using Cons Some unexpired_insert [OF dist fx] by auto
    qed
  qed
qed

text \<open>
  A pass of the sweep removes only expired entries, looks at no more than the sample size,
  and reports how many entries it removed.
\<close>

lemma sweepPass_correct:
  assumes "wf_shard sh" "sweepPass st sh now order sampled reclaimed = (st', sh', sampled', reclaimed')"
    and "sampled \<le> sweepSampleSize" "reclaimed \<le> sampled"
  shows "shard_step st sh st' sh' \<and> (\<exists>ks. items sh' = unexpired now ks (items sh)) \<and>
    evictionGeneration st' = evictionGeneration st \<and>
    sampled \<le> sampled' \<and> sampled' \<le> sweepSampleSize \<and> reclaimed' \<le> sampled' \<and>
    reclaimed' + length (items sh') = reclaimed + length (items sh)"
  using assms
proof (induction order arbitrary: st sh sampled reclaimed)
  case Nil
  then show ?case by (auto simp: shard_step_refl intro: exI [of _ "{}"])
next
  case (Cons kb order)
  obtain k late where kb: "kb = (k, late)" by fastforce
  note wf = Cons.prems(1)
  show ?case
  proof (cases "entries sh k")
    case None
    then show ?thesis using Cons kb by auto
  next
    case (Some x)
    have fx: "lru_find k (items sh) = Some (item.truncate (heap sh x))"
      using lru_find_items [OF wf, of k] Some by simp
    consider "sampled = sweepSampleSize \<or> late"
      | "\<not> (sampled = sweepSampleSize \<or> late)" "\<not> deadlinePassed (edeadline (heap sh x)) now"
      | "\<not> (sampled = sweepSampleSize \<or> late)" "deadlinePassed (edeadline (heap sh x)) now"
      by blast
    then show ?thesis
    proof cases
      case 1
      then show ?thesis
        using Cons.prems kb Some by (auto simp: shard_step_refl intro: exI [of _ "{}"])
    next
      case 2
      then show ?thesis
        using Cons.IH [OF wf, of st "Suc sampled" reclaimed] Cons.prems kb Some by auto
    next
      case 3
      obtain st1 sh1 where rm: "removeEntryLocked st sh x removalExpiry = (st1, sh1)" by fastforce
      note c = removeEntryLocked_correct [OF wf Some rm]
      have gen: "evictionGeneration st1 = evictionGeneration st"
        using rm by (auto simp: removeEntryLocked_def countRemoval_def Let_def)
      have un: "items sh1 = unexpired now {k} (items sh)"
        using unexpired_insert [OF wf_shard_keys_distinct [OF wf] fx, of now "{}"] c(2) 3 by simp
      have len: "Suc (length (items sh1)) = length (items sh)"
        using lru_remove_length [OF wf_shard_keys_distinct [OF wf] fx] c(2) by simp
      have "shard_step st1 sh1 st' sh' \<and> (\<exists>ks. items sh' = unexpired now ks (items sh1)) \<and>
          evictionGeneration st' = evictionGeneration st1 \<and> Suc sampled \<le> sampled' \<and>
          sampled' \<le> sweepSampleSize \<and> reclaimed' \<le> sampled' \<and>
          reclaimed' + length (items sh') = Suc reclaimed + length (items sh1)"
        using Cons.IH [OF shard_step_wf [OF c(1)], of st1 "Suc sampled" "Suc reclaimed"]
          Cons.prems kb Some rm 3 by auto
      then show ?thesis
        using gen un len shard_step_trans [OF c(1), of st' sh']
        by (auto simp: unexpired_unexpired)
    qed
  qed
qed


section \<open>The state after recovery\<close>

lemma homed_items_subset:
  assumes "wf_store st" "i < length (shards st)" "wf_shard sh'"
    and "set (items sh') \<subseteq> set (items (shards st ! i))"
  shows "homed st i sh'"
  unfolding homed_shard_image
proof (intro allI impI)
  fix k assume "shard_image sh' k \<noteq> None"
  then have "k \<in> ekey ` set (items (shards st ! i))"
    using assms(3,4) by (auto simp: shard_image_items dest!: lru_find_key)
  then have "shard_image (shards st ! i) k \<noteq> None"
    using assms(1,2) by (simp add: shard_image_items wf_store_def lru_find_None)
  then show "shardIndex st k = i"
    using assms(1,2) by (auto simp: wf_store_def homed_shard_image)
qed

lemma enforce_from_correct:
  assumes "wf_store st" "i + length orders \<le> length (shards st)"
  shows "\<exists>st'. enforceRecoveredState_from i st now orders = Some st' \<and> wf_store st' \<and>
    length (shards st') = length (shards st) \<and> shardMask st' = shardMask st \<and>
    logSequence st' = logSequence st \<and>
    (\<forall>j. j < i \<or> i + length orders \<le> j \<longrightarrow> shards st' ! j = shards st ! j) \<and>
    (\<forall>j < length orders. capacity (shards st' ! (i + j)) = capacity (shards st ! (i + j)) \<and>
       items (shards st' ! (i + j)) = lru_evict (capacity (shards st ! (i + j)))
         (unexpired now (set (orders ! j)) (items (shards st ! (i + j)))))"
  using assms
proof (induction orders arbitrary: i st)
  case Nil
  then show ?case by simp
next
  case (Cons order orders)
  let ?sh = "shards st ! i"
  have i: "i < length (shards st)" using Cons.prems(2) by simp
  then have wf: "wf_shard ?sh" using Cons.prems(1) by (simp add: wf_store_def)
  obtain st1 sh1 where r: "reclaimExpiredLocked st ?sh now order = (st1, sh1)" by fastforce
  have c1: "shard_step st ?sh st1 sh1" "items sh1 = unexpired now (set order) (items ?sh)"
    using reclaimExpiredLocked_correct [OF wf r] by auto
  obtain st2 sh2 where ev: "evictToCapacityLocked st1 sh1 now = Some (st2, sh2)"
    and c2: "shard_step st1 sh1 st2 sh2" "items sh2 = lru_evict (capacity sh1) (items sh1)"
    using evictToCapacityLocked_correct [OF shard_step_wf [OF c1(1)], of st1 now] by blast
  note step = shard_step_trans [OF c1(1) c2(1)]
  have cap: "capacity sh1 = capacity ?sh" "capacity sh2 = capacity ?sh"
    using c1(1) step by (auto simp: shard_step_def)
  have "set (items sh2) \<subseteq> set (items ?sh)"
    using c2(2) c1(2) lru_evict_subset set_unexpired by (metis order_trans)
  then have "homed st i sh2"
    by (rule homed_items_subset [OF Cons.prems(1) i shard_step_wf [OF step]])
  then have wf2: "wf_store (putShard st2 i sh2)"
    by (rule wf_store_putShard [OF Cons.prems(1) i step])
  have fr: "shards st2 = shards st" "shardMask st2 = shardMask st" "logSequence st2 = logSequence st"
    using step by (auto simp: shard_step_def)
  have "Suc i + length orders \<le> length (shards (putShard st2 i sh2))"
    using Cons.prems(2) fr by simp
  from Cons.IH [OF wf2 this] obtain st' where
    en: "enforceRecoveredState_from (Suc i) (putShard st2 i sh2) now orders = Some st'"
    and st': "wf_store st'" "length (shards st') = length (shards st)" "shardMask st' = shardMask st"
      "logSequence st' = logSequence st"
    and low: "\<And>j. j < Suc i \<Longrightarrow> shards st' ! j = (shards st)[i := sh2] ! j"
    and high: "\<And>j. Suc i + length orders \<le> j \<Longrightarrow> shards st' ! j = shards st ! j"
    and ins: "\<And>j. j < length orders \<Longrightarrow>
       capacity (shards st' ! (Suc i + j)) = capacity ((shards st)[i := sh2] ! (Suc i + j)) \<and>
       items (shards st' ! (Suc i + j)) = lru_evict (capacity ((shards st)[i := sh2] ! (Suc i + j)))
         (unexpired now (set (orders ! j)) (items ((shards st)[i := sh2] ! (Suc i + j))))"
    by (auto simp: fr)
  have "capacity (shards st' ! (i + j)) = capacity (shards st ! (i + j)) \<and>
       items (shards st' ! (i + j)) = lru_evict (capacity (shards st ! (i + j)))
         (unexpired now (set ((order # orders) ! j)) (items (shards st ! (i + j))))"
    if "j < length (order # orders)" for j
  proof (cases j)
    case 0
    then show ?thesis using low [of i] i c1(2) c2(2) cap by simp
  next
    case (Suc j')
    then show ?thesis using ins [of j'] that by simp
  qed
  moreover have "shards st' ! j = shards st ! j" if "j < i \<or> i + length (order # orders) \<le> j" for j
    using low [of j] high [of j] that by auto
  ultimately show ?case
    using en st' r ev by (intro exI [of _ st']) auto
qed

lemma wf_new_shard: "shard_ok (new_shard cap) []"
  by (simp add: shard_ok_def links_ok_def new_shard_def)

lemma items_new_shard [simp]: "items (new_shard cap) = []"
  using items_shard_ok [OF wf_new_shard] by simp

lemma wf_newStoreState:
  assumes "0 < n" "n < 2 ^ 63"
  shows "wf_store (newStoreState n cap)" "contents (newStoreState n cap) = Map.empty"
proof -
  have rt: "routed (newStoreState n cap)" using assms by (rule routed_newStoreState)
  then show "wf_store (newStoreState n cap)"
    using wf_shardI [OF wf_new_shard, of cap]
    by (simp add: wf_store_def newStoreState_def homed_def sum_list_replicate)
      (simp add: new_shard_def)
  show "contents (newStoreState n cap) = Map.empty"
    using shardIndex_less [OF rt]
    by (simp add: contents_def shardFor_def newStoreState_def shard_image_def new_shard_def fun_eq_iff)
qed

text \<open>
  A whole sweep of a shard ends: it repeats only after a pass that reclaimed something, so
  it ends as long as the other goroutines do not refill the shard between passes.
\<close>

lemma sweepShard_ends:
  assumes other: "\<And>n st. wf_store st \<Longrightarrow> wf_store (other n st) \<and>
       length (shards (other n st)) = length (shards st) \<and>
       length (items (shards (other n st) ! i)) \<le> length (items (shards st ! i))"
    and "wf_store st" "i < length (shards st)"
  shows "\<exists>st'. sweepShard i readings other n st = Some st' \<and> wf_store st' \<and>
           length (items (shards st' ! i)) \<le> length (items (shards st ! i))"
  using assms(2,3)
proof (induction "length (items (shards st ! i))" arbitrary: st n rule: less_induct)
  case less
  let ?sh = "shards st ! i" and ?r = "readings n"
  have wf: "wf_shard ?sh" using less.prems by (simp add: wf_store_def)
  obtain st1 sh1 sampled reclaimed where
    p: "sweepPass st ?sh (pass_now ?r) (pass_order ?r) 0 0 = (st1, sh1, sampled, reclaimed)"
    by (metis prod_cases4)
  have c: "shard_step st ?sh st1 sh1" "\<exists>ks. items sh1 = unexpired (pass_now ?r) ks (items ?sh)"
    "reclaimed + length (items sh1) = length (items ?sh)"
    using sweepPass_correct [OF wf p] by auto
  have "set (items sh1) \<subseteq> set (items ?sh)" using c(2) set_unexpired by metis
  then have wf1: "wf_store (putShard st1 i sh1)"
    using wf_store_putShard [OF less.prems c(1)]
      homed_items_subset [OF less.prems shard_step_wf [OF c(1)]] by simp
  have sh1: "shards (putShard st1 i sh1) ! i = sh1" "length (shards (putShard st1 i sh1)) = length (shards st)"
    using c(1) less.prems(2) by (auto simp: shard_step_def)
  show ?case
  proof (cases "sampled = 0 \<or> reclaimed * sweepRepeatDivisor < sampled \<or> pass_late ?r")
    case True
    then have "sweepShard i readings other n st = Some (putShard st1 i sh1)"
      by (subst sweepShard.simps) (simp add: p)
    then show ?thesis using wf1 sh1 c(3) by auto
  next
    case False
    then have "0 < reclaimed" by (auto simp: sweepRepeatDivisor_def)
    then have less_sh: "length (items (shards (other n (putShard st1 i sh1)) ! i)) < length (items ?sh)"
      using other [OF wf1, of n] sh1 c(3) by simp
    have "sweepShard i readings other n st = sweepShard i readings other (Suc n) (other n (putShard st1 i sh1))"
      using False by (subst sweepShard.simps) (simp add: p)
    moreover obtain st' where "sweepShard i readings other (Suc n) (other n (putShard st1 i sh1)) = Some st'"
      "wf_store st'" "length (items (shards st' ! i)) \<le> length (items (shards (other n (putShard st1 i sh1)) ! i))"
      using less.hyps [OF less_sh] other [OF wf1, of n] sh1(2) less.prems(2) by auto
    ultimately show ?thesis using less_sh by auto
  qed
qed

section \<open>The store as a target of log records\<close>

text \<open>A log record: the change, with the sequence that orders it.\<close>

datatype logrec = LSet (lkey: key) (lvalue: bytes) (ldeadline: i64) (lseq: u64)
  | LDel (lkey: key) (lseq: u64)

text \<open>The durable contents a sequence of records describes, over a base.\<close>

fun apply_rec :: "logrec \<Rightarrow> (key \<rightharpoonup> item) \<Rightarrow> (key \<rightharpoonup> item)" where
  "apply_rec (LSet k v d q) m = m(k \<mapsto> mk_item k v d q)"
| "apply_rec (LDel k q) m = m(k := None)"

definition replay :: "logrec list \<Rightarrow> (key \<rightharpoonup> item) \<Rightarrow> (key \<rightharpoonup> item)" where
  "replay rs m = fold apply_rec rs m"

lemma replay_simps [simp]:
  "replay [] m = m" "replay (r # rs) m = replay rs (apply_rec r m)"
  "replay (rs @ ss) m = replay ss (replay rs m)"
  by (simp_all add: replay_def)

lemma apply_rec_key: "apply_rec r m k = (if lkey r = k then apply_rec r Map.empty k else m k)"
  by (cases r) auto

lemma apply_rec_absorb: "apply_rec r m (lkey r) = apply_rec r m' (lkey r)"
  by (cases r) auto

text \<open>
  The contract a store gives to the code that replays a log into it: it stays well formed
  and its contents follow the records.
\<close>

locale record_store =
  fixes ok :: "'s \<Rightarrow> bool" and holds :: "'s \<Rightarrow> key \<rightharpoonup> item"
    and put :: "'s \<Rightarrow> key \<Rightarrow> bytes \<Rightarrow> i64 \<Rightarrow> u64 \<Rightarrow> 's" and del :: "'s \<Rightarrow> key \<Rightarrow> u64 \<Rightarrow> 's"
  assumes ok_put: "ok s \<Longrightarrow> ok (put s k v d q)"
    and ok_del: "ok s \<Longrightarrow> ok (del s k q)"
    and holds_put: "ok s \<Longrightarrow> holds (put s k v d q) = (holds s)(k \<mapsto> mk_item k v d q)"
    and holds_del: "ok s \<Longrightarrow> holds (del s k q) = (holds s)(k := None)"
begin

lemma apply_one:
  assumes "ok s"
  shows "ok (case r of LSet k v d q \<Rightarrow> put s k v d q | LDel k q \<Rightarrow> del s k q)"
    "holds (case r of LSet k v d q \<Rightarrow> put s k v d q | LDel k q \<Rightarrow> del s k q) = apply_rec r (holds s)"
  using assms by (cases r; simp add: ok_put ok_del holds_put holds_del)+

lemma apply_many:
  assumes "ok s"
  shows "ok (fold (\<lambda>r s. case r of LSet k v d q \<Rightarrow> put s k v d q | LDel k q \<Rightarrow> del s k q) rs s) \<and>
    holds (fold (\<lambda>r s. case r of LSet k v d q \<Rightarrow> put s k v d q | LDel k q \<Rightarrow> del s k q) rs s)
      = replay rs (holds s)"
  using assms by (induction rs arbitrary: s) (simp_all add: apply_one)

end

interpretation mem: record_store wf_store contents applyRecoveredSet applyDelete
  by unfold_locales (simp_all add: applyRecoveredSet_correct applyDelete_correct)

end
