(* ===== verification/Cache_Entries_Props.thy ===== *)
theory Cache_Entries_Props
  imports Cache_Image
begin

text \<open>
  The properties of \<open>entries.go\<close> and of the routing in \<open>store.go\<close>, stated over the
  operations of \<open>Cache_Entries\<close>. The proofs collect the refinement lemmas of
  \<open>Cache_LRU\<close> and \<open>Cache_Image\<close>.
\<close>

section \<open>A store to evaluate on\<close>

text \<open>Two shards of 200 bytes, with one entry that never expires and one that does.\<close>

definition sample_store :: store where
  "sample_store = applyRecoveredSet (applyRecoveredSet (newStoreState 2 200) [1] [7] 0 1) [2, 2] [8] 5 2"

lemma wf_sample_store: "wf_store sample_store"
  unfolding sample_store_def by (intro applyRecoveredSet_correct wf_newStoreState) simp_all

lemma wf_sample_shard: "wf_shard (shardFor sample_store k)"
  by (rule wf_store_shard(1) [OF wf_sample_store])

lemma sample_store_entry: "entries (shardFor sample_store [1]) [1] = Some 0"
  by code_simp

lemma sample_store_shards: "length (shards sample_store) = 2"
  by code_simp

lemma sample_store_dom:
  assumes "i < length (shards sample_store)"
  shows "dom (entries (shards sample_store ! i)) \<subseteq> {[1], [2, 2]}"
proof
  fix k assume "k \<in> dom (entries (shards sample_store ! i))"
  then have "shardIndex sample_store k = i" "entries (shards sample_store ! i) k \<noteq> None"
    using wf_sample_store assms by (auto simp: wf_store_def homed_def)
  then have "contents sample_store k \<noteq> None"
    by (simp add: contents_def shard_image_def shardFor_def)
  then show "k \<in> {[1], [2, 2]}"
    by (auto simp: sample_store_def applyRecoveredSet_correct wf_newStoreState split: if_splits)
qed

section \<open>The list behind a shard\<close>

text \<open>C24. \<open>removeEntryLocked\<close> on a well-formed shard takes exactly the named entry out of the
  map and out of the recency list, keeps the order of the others and the links, and lowers the
  shard's bytes and the store's totals by what the entry counted for, whatever the reason for
  the removal.\<close>

theorem remove_refines_lru:
  assumes "wf_shard sh" and "entries sh k = Some x"
  shows "\<exists>st' sh'. removeEntryLocked st sh x kind = (st', sh') \<and> wf_shard sh' \<and>
    items sh' = lru_remove k (items sh) \<and> entries sh' = (entries sh)(k := None) \<and>
    sbytes sh' = sbytes sh - entrySize (heap sh x) \<and>
    entryTotal st' = entryTotal st - 1 \<and> byteTotal st' = byteTotal st - entrySize (heap sh x)"
proof -
  obtain st' sh' where r: "removeEntryLocked st sh x kind = (st', sh')" by fastforce
  note c = removeEntryLocked_correct [OF assms r]
  have "sbytes sh' = sbytes sh - entrySize (heap sh x)" "entryTotal st' = entryTotal st - 1"
    "byteTotal st' = byteTotal st - entrySize (heap sh x)"
    using r by (auto simp: removeEntryLocked_def unlinkEntry_def countRemoval_def Let_def
        split: option.splits removalKind.splits)
  then show ?thesis using r c shard_step_wf [OF c(1)] by blast
qed

theorem remove_refines_lru_witness:
  "\<exists>st' sh'. removeEntryLocked sample_store (shardFor sample_store [1]) 0 removalDelete = (st', sh') \<and>
     wf_shard sh' \<and> items sh' = lru_remove [1] (items (shardFor sample_store [1]))"
  using remove_refines_lru [OF wf_sample_shard sample_store_entry, of sample_store removalDelete] by blast

text \<open>C25. \<open>markRecentLocked\<close> moves the entry of a key to the front of the recency list and
  leaves the order of all other entries, the map and the byte count as they were.\<close>

theorem mark_recent_refines_lru:
  assumes "wf_shard sh" and "entries sh k = Some x"
  shows "wf_shard (markRecentLocked sh x) \<and> items (markRecentLocked sh x) = lru_touch k (items sh) \<and>
    entries (markRecentLocked sh x) = entries sh \<and> sbytes (markRecentLocked sh x) = sbytes sh"
proof -
  have "wf_shard (markRecentLocked sh x)"
    by (rule shard_step_wf [OF markRecentLocked_correct(1) [OF assms]])
  moreover have "entries (markRecentLocked sh x) = entries sh" "sbytes (markRecentLocked sh x) = sbytes sh"
    by (auto simp: markRecentLocked_def Let_def split: option.splits)
  ultimately show ?thesis
    using markRecentLocked_correct(2) [OF assms] by blast
qed

theorem mark_recent_refines_lru_witness:
  "items (markRecentLocked (shardFor sample_store [1]) 0) = lru_touch [1] (items (shardFor sample_store [1]))"
  using mark_recent_refines_lru [OF wf_sample_shard sample_store_entry] by blast

text \<open>C26. \<open>setEntryLocked\<close>, for a new key and for an overwrite alike, leaves a well-formed
  shard whose recency list is the old one with the new item in front and the key's old item
  gone; it charges the size of the new item in place of the old one.\<close>

theorem set_refines_lru:
  assumes "wf_shard sh"
  shows "\<exists>x st' sh'. setEntryLocked st sh k v d q = (x, st', sh') \<and> wf_shard sh' \<and>
    entries sh' k = Some x \<and> capacity sh' = capacity sh \<and>
    items sh' = lru_put \<lparr>ekey = k, evalue = v, edeadline = d, esequence = q\<rparr> (items sh) \<and>
    sbytes sh' = charge (items sh') \<and> byteTotal st' - sbytes sh' = byteTotal st - sbytes sh"
proof -
  obtain x st' sh' where r: "setEntryLocked st sh k v d q = (x, st', sh')" by (metis prod_cases3)
  note c = setEntryLocked_correct [OF assms r]
  show ?thesis
    using r c charge_items [OF shard_step_wf [OF c(1)]] by (simp add: shard_step_def)
qed

theorem set_refines_lru_witness:
  "\<exists>x st' sh'. setEntryLocked sample_store (shardFor sample_store [1]) [1] [9, 9] 0 3 = (x, st', sh') \<and>
     wf_shard sh' \<and> entries sh' [1] = Some x"
  using set_refines_lru [OF wf_sample_shard [of "[1]"], of sample_store "[1]" "[9, 9]" 0 3] by blast

text \<open>C27. \<open>evictToCapacityLocked\<close> returns on every well-formed shard: its loop ends and never
  meets a nil \<open>oldest\<close>. It keeps the longest most-recent part of the list whose charge fits
  among the prefixes it tries, so the shard is within its capacity, no shorter cut was needed,
  and the eviction generation grows by the number of live entries dropped.\<close>

theorem evict_returns_within_capacity:
  assumes "wf_shard sh"
  shows "\<exists>st' sh' n. evictToCapacityLocked st sh now = Some (st', sh') \<and> wf_shard sh' \<and>
    n \<le> length (items sh) \<and> items sh' = take n (items sh) \<and> sbytes sh' \<le> capacity sh \<and>
    (\<forall>m. n < m \<and> m \<le> length (items sh) \<longrightarrow> capacity sh < charge (take m (items sh))) \<and>
    evictionGeneration st' = evictionGeneration st + of_nat (live_count now (drop n (items sh)))"
proof -
  obtain st' sh' where e: "evictToCapacityLocked st sh now = Some (st', sh')" "shard_step st sh st' sh'"
    "items sh' = lru_evict (capacity sh) (items sh)"
    "evictionGeneration st' = evictionGeneration st + of_nat (live_count now (drop (length (items sh')) (items sh)))"
    using evictToCapacityLocked_correct [OF assms] by blast
  obtain n where n: "n \<le> length (items sh)" "lru_evict (capacity sh) (items sh) = take n (items sh)"
    "\<forall>m. n < m \<and> m \<le> length (items sh) \<longrightarrow> capacity sh < charge (take m (items sh))"
    using lru_evict_take by blast
  have "sbytes sh' \<le> capacity sh"
    using charge_items [OF shard_step_wf [OF e(2)]] lru_evict_charge [of "capacity sh" "items sh"] e(3) by simp
  then show ?thesis
    using e n shard_step_wf [OF e(2)] by (intro exI [of _ st'] exI [of _ sh'] exI [of _ n]) auto
qed

theorem evict_returns_within_capacity_witness:
  "\<exists>st' sh'. evictToCapacityLocked sample_store (shardFor sample_store [1]) 9 = Some (st', sh') \<and>
     wf_shard sh' \<and> sbytes sh' \<le> capacity (shardFor sample_store [1])"
  using evict_returns_within_capacity [OF wf_sample_shard [of "[1]"], of sample_store 9] by blast

section \<open>The store\<close>

text \<open>A store made by \<open>newStoreState\<close> with at least one shard routes every key to an
  existing shard, so the slice access of \<open>shardFor\<close> never panics; it is well formed and empty.\<close>

theorem new_store_routes:
  assumes "0 < n" "n < 2 ^ 63"
  shows "wf_store (newStoreState n cap) \<and> contents (newStoreState n cap) = Map.empty \<and>
    shardIndex (newStoreState n cap) k < length (shards (newStoreState n cap))"
  using wf_newStoreState [OF assms] shardIndex_less routed_newStoreState [OF assms] by blast

theorem new_store_routes_witness:
  "wf_store (newStoreState 256 1048576) \<and>
     shardIndex (newStoreState 256 1048576) [1, 2, 3] < length (shards (newStoreState 256 1048576))"
  using new_store_routes [of 256 1048576 "[1, 2, 3]"] by simp

text \<open>C28. \<open>applySet\<close> returns on every well-formed store and keeps it well formed; the key then
  holds the new item, every other entry that is gone was expired or evicted from the same shard,
  the evictions among them are counted in the eviction generation, an item that arrives expired
  is not kept, and the store's log sequence is the record's.\<close>

theorem apply_set_correct:
  assumes "wf_store st"
  shows "\<exists>st' n. applySet st k v d q now = Some st' \<and> wf_store st' \<and> logSequence st' = q \<and>
    thinned now n ((contents st)(k \<mapsto> mk_item k v d q)) (contents st') \<and>
    evictionGeneration st' = evictionGeneration st + of_nat n \<and>
    items (shardFor st' k) =
      (if deadlinePassed d now then lru_remove k (items (shardFor st k))
       else lru_evict (capacity (shardFor st k)) (lru_put (mk_item k v d q) (items (shardFor st k)))) \<and>
    (\<forall>j. j \<noteq> shardIndex st k \<longrightarrow> shards st' ! j = shards st ! j)"
  using applySet_correct [OF assms, of k v d q now] by blast

theorem apply_set_correct_witness:
  "\<exists>st' n. applySet sample_store [1] [9] 0 3 4 = Some st' \<and> wf_store st' \<and> logSequence st' = 3 \<and>
     thinned 4 n ((contents sample_store)([1] \<mapsto> mk_item [1] [9] 0 3)) (contents st')"
  using apply_set_correct [OF wf_sample_store, of "[1]" "[9]" 0 3 4] by blast

text \<open>C29. \<open>getInto\<close> returns the value of a live entry and reports a miss for an absent or
  expired one; the only change to the contents is that an expired entry is reclaimed. Reading
  never evicts and never moves the log sequence.\<close>

theorem get_correct:
  assumes "wf_store st"
  shows "\<exists>res st'. getInto st k now = (res, st') \<and> wf_store st' \<and>
    res = (case contents st k of
             Some i \<Rightarrow> if deadlinePassed (edeadline i) now then ([], False) else (evalue i, True)
           | None \<Rightarrow> ([], False)) \<and>
    contents st' = (if \<exists>i. contents st k = Some i \<and> deadlinePassed (edeadline i) now
                    then (contents st)(k := None) else contents st) \<and>
    evictionGeneration st' = evictionGeneration st \<and> logSequence st' = logSequence st"
proof -
  obtain res st' where r: "getInto st k now = (res, st')" by fastforce
  show ?thesis
    using r getInto_correct [OF assms r] by blast
qed

theorem get_correct_witness:
  "\<exists>res st'. getInto sample_store [1] 4 = (res, st') \<and> wf_store st' \<and> res = ([7], True)"
proof -
  have "contents sample_store [1] = Some (mk_item [1] [7] 0 1)"
    by (simp add: sample_store_def applyRecoveredSet_correct wf_newStoreState)
  then show ?thesis
    using get_correct [OF wf_sample_store, of "[1]" 4] by auto
qed

text \<open>Replaying log records into a well-formed store with \<open>applyRecoveredSet\<close> and
  \<open>applyDelete\<close>, as recovery does, leaves exactly the contents that the records describe:
  nothing is evicted and nothing expires during the replay.\<close>

theorem replay_into_store:
  assumes "wf_store st"
  shows "wf_store (fold (\<lambda>r s. case r of LSet k v d q \<Rightarrow> applyRecoveredSet s k v d q
                                | LDel k q \<Rightarrow> applyDelete s k q) rs st) \<and>
    contents (fold (\<lambda>r s. case r of LSet k v d q \<Rightarrow> applyRecoveredSet s k v d q
                            | LDel k q \<Rightarrow> applyDelete s k q) rs st) = replay rs (contents st)"
  using mem.apply_many [OF assms] .

theorem replay_into_store_witness:
  "contents (fold (\<lambda>r s. case r of LSet k v d q \<Rightarrow> applyRecoveredSet s k v d q | LDel k q \<Rightarrow> applyDelete s k q)
     [LSet [3] [4] 0 3, LDel [1] 4] sample_store) = (contents sample_store)([3] \<mapsto> mk_item [3] [4] 0 3, [1] := None)"
  using replay_into_store [OF wf_sample_store, of "[LSet [3] [4] 0 3, LDel [1] 4]"] by simp

lemma enforceRecoveredState_limits:
  assumes "wf_store st" and "length orders = length (shards st)"
    and "\<forall>i < length (shards st). dom (entries (shards st ! i)) \<subseteq> set (orders ! i)"
  shows "\<exists>st'. enforceRecoveredState st now orders = Some st' \<and> wf_store st' \<and>
    (\<forall>i < length (shards st).
       items (shards st' ! i) = lru_evict (capacity (shards st ! i))
         (filter (\<lambda>e. \<not> deadlinePassed (edeadline e) now) (items (shards st ! i))) \<and>
       sbytes (shards st' ! i) \<le> capacity (shards st' ! i))"
proof -
  obtain st' where e: "enforceRecoveredState_from 0 st now orders = Some st'" "wf_store st'"
    "length (shards st') = length (shards st)"
    "\<forall>j < length orders. capacity (shards st' ! j) = capacity (shards st ! j) \<and>
       items (shards st' ! j) = lru_evict (capacity (shards st ! j))
         (unexpired now (set (orders ! j)) (items (shards st ! j)))"
    using enforce_from_correct [OF assms(1), of 0 orders now] assms(2) by auto
  have "unexpired now (set (orders ! i)) (items (shards st ! i)) =
      filter (\<lambda>e. \<not> deadlinePassed (edeadline e) now) (items (shards st ! i))"
    if i: "i < length (shards st)" for i
    unfolding unexpired_def
  proof (rule filter_cong [OF refl])
    fix e assume "e \<in> set (items (shards st ! i))"
    then have "lru_find (ekey e) (items (shards st ! i)) \<noteq> None"
      by (auto simp: lru_find_None)
    then have "ekey e \<in> dom (entries (shards st ! i))"
      using lru_find_items [of "shards st ! i" "ekey e"] assms(1) i by (auto simp: wf_store_def)
    then show "(\<not> (ekey e \<in> set (orders ! i) \<and> deadlinePassed (edeadline e) now)) =
        (\<not> deadlinePassed (edeadline e) now)"
      using assms(3) i by blast
  qed
  moreover have "sbytes (shards st' ! i) = charge (items (shards st' ! i))" if "i < length (shards st)" for i
    using that e(2,3) charge_items by (simp add: wf_store_def)
  ultimately show ?thesis
    using e assms(2) lru_evict_charge by (auto simp: enforceRecoveredState_def)
qed

text \<open>C30. \<open>enforceRecoveredState\<close>, given the map order of every shard, returns a well-formed
  store in which each shard holds the longest most-recent part of its unexpired entries that
  fits its capacity.\<close>

theorem enforce_recovered_state_correct:
  assumes "wf_store st" and "length orders = length (shards st)"
    and "\<forall>i < length (shards st). dom (entries (shards st ! i)) \<subseteq> set (orders ! i)"
  shows "\<exists>st'. enforceRecoveredState st now orders = Some st' \<and> wf_store st' \<and>
    (\<forall>i < length (shards st).
       items (shards st' ! i) = lru_evict (capacity (shards st ! i))
         (filter (\<lambda>e. \<not> deadlinePassed (edeadline e) now) (items (shards st ! i))) \<and>
       sbytes (shards st' ! i) \<le> capacity (shards st' ! i))"
  using enforceRecoveredState_limits [OF assms] .

theorem enforce_recovered_state_correct_witness:
  "\<exists>st'. enforceRecoveredState sample_store 9 [[[1], [2, 2]], [[2, 2], [1]]] = Some st' \<and> wf_store st'"
proof -
  have "\<forall>i < length (shards sample_store).
      dom (entries (shards sample_store ! i)) \<subseteq> set ([[[1], [2, 2]], [[2, 2], [1]]] ! i)"
    using sample_store_dom by (fastforce simp: sample_store_shards less_2_cases_iff)
  then show ?thesis
    using enforce_recovered_state_correct [OF wf_sample_store, of "[[[1], [2, 2]], [[2, 2], [1]]]" 9]
    by (auto simp: sample_store_shards)
qed



text \<open>C32. One pass of the sweep removes only entries whose deadline has passed, samples at most
  \<open>sweepSampleSize\<close> entries, counts what it reclaims, and does not touch the eviction
  generation, so a sweep never invalidates a snapshot in progress.\<close>

theorem sweep_pass_correct:
  assumes "wf_shard sh"
  shows "\<exists>st' sh' sampled reclaimed. sweepPass st sh now order 0 0 = (st', sh', sampled, reclaimed) \<and>
    wf_shard sh' \<and> set (items sh') \<subseteq> set (items sh) \<and>
    (\<forall>e \<in> set (items sh). \<not> deadlinePassed (edeadline e) now \<longrightarrow> e \<in> set (items sh')) \<and>
    sampled \<le> sweepSampleSize \<and> reclaimed + length (items sh') = length (items sh) \<and>
    evictionGeneration st' = evictionGeneration st"
proof -
  obtain st' sh' sampled reclaimed where r: "sweepPass st sh now order 0 0 = (st', sh', sampled, reclaimed)"
    by (metis prod_cases4)
  note c = sweepPass_correct [OF assms r, simplified]
  then obtain ks where "items sh' = unexpired now ks (items sh)" by blast
  then show ?thesis
    using r c shard_step_wf by (auto simp: unexpired_def)
qed

theorem sweep_pass_correct_witness:
  "\<exists>st' sh' sampled reclaimed.
     sweepPass sample_store (shardFor sample_store [2, 2]) 9 [([2, 2], False)] 0 0 = (st', sh', sampled, reclaimed) \<and>
     wf_shard sh' \<and> sampled \<le> sweepSampleSize"
  using sweep_pass_correct [OF wf_sample_shard [of "[2, 2]"], of sample_store 9 "[([2, 2], False)]"] by blast

end
