(* ===== verification/Cache_Names.thy ===== *)
theory Cache_Names
  imports Cache_State
begin

text \<open>
  File names: \<open>segmentName\<close>, \<open>snapshotName\<close> and the parsers of \<open>recovery.go\<close>, with the
  string functions of the standard library they call. A name carries a sequence, zero-padded
  to twenty digits, so that parsing gives the sequence back and the lexical order of names is
  the order of sequences; the eight-digit names of earlier binaries are read as well.
\<close>

section \<open>Strings and numbers\<close>

definition HasPrefix :: "string \<Rightarrow> string \<Rightarrow> bool" where
  "HasPrefix s pre \<longleftrightarrow> take (length pre) s = pre"

definition HasSuffix :: "string \<Rightarrow> string \<Rightarrow> bool" where
  "HasSuffix s suf \<longleftrightarrow> length suf \<le> length s \<and> drop (length s - length suf) s = suf"

definition TrimSuffix :: "string \<Rightarrow> string \<Rightarrow> string" where
  "TrimSuffix s suf = (if HasSuffix s suf then take (length s - length suf) s else s)"

definition digit :: "nat \<Rightarrow> char" where
  "digit d = char_of (48 + d)"

fun decimal :: "nat \<Rightarrow> string" where
  "decimal n = (if n < 10 then [digit n] else decimal (n div 10) @ [digit (n mod 10)])"

declare decimal.simps [simp del]

text \<open>\<open>fmt.Sprintf("%020d", n)\<close>.\<close>

definition pad20 :: "nat \<Rightarrow> string" where
  "pad20 n = replicate (20 - length (decimal n)) (digit 0) @ decimal n"

text \<open>\<open>strconv.ParseUint(s, 10, 64)\<close>; \<open>None\<close> is its error.\<close>

fun parse_digits :: "nat \<Rightarrow> string \<Rightarrow> nat option" where
  "parse_digits n [] = Some n"
| "parse_digits n (c # cs) =
     (if (48::nat) \<le> of_char c \<and> of_char c \<le> (57::nat) then parse_digits (10 * n + (of_char c - 48)) cs
      else None)"

definition ParseUint :: "string \<Rightarrow> u64 option" where
  "ParseUint s =
     (if s = [] then None
      else case parse_digits 0 s of
             None \<Rightarrow> None
           | Some n \<Rightarrow> if n < 2 ^ 64 then Some (of_nat n) else None)"

section \<open>Names of segments and snapshots\<close>

definition segmentName :: "u64 \<Rightarrow> string" where
  "segmentName firstSequence = pad20 (unat firstSequence) @ ''.seg''"

definition snapshotName :: "u64 \<Rightarrow> string" where
  "snapshotName lowestSequence = pad20 (unat lowestSequence) @ ''.snap''"

definition parseSequenceFilename :: "string \<Rightarrow> string \<Rightarrow> bool \<Rightarrow> u64 res" where
  "parseSequenceFilename name suf allowZero =
     (let stem = TrimSuffix name suf
      in if length stem \<noteq> 8 \<and> length stem \<noteq> 20 then Inl (ErrInvalidName name)
         else case ParseUint stem of
                None \<Rightarrow> Inl (ErrInvalidName name)
              | Some sequence \<Rightarrow>
                  if \<not> allowZero \<and> sequence = 0 then Inl (ErrInvalidName name) else Inr sequence)"

definition parseSegmentFilename :: "string \<Rightarrow> u64 res" where
  "parseSegmentFilename name = parseSequenceFilename name ''.seg'' False"

definition parseSnapshotFilename :: "string \<Rightarrow> u64 res" where
  "parseSnapshotFilename name = parseSequenceFilename name ''.snap'' True"

section \<open>Digits\<close>

lemma HasSuffix_append [simp]: "HasSuffix (s @ suf) suf"
  by (simp add: HasSuffix_def)

lemma TrimSuffix_append [simp]: "TrimSuffix (s @ suf) suf = s"
  by (simp add: TrimSuffix_def)

lemma of_char_digit [simp]: "d < 10 \<Longrightarrow> of_char (digit d) = (48 + d :: nat)"
  by (simp add: digit_def of_char_of)

lemma parse_digits_append:
  "parse_digits n (xs @ ys) = (case parse_digits n xs of None \<Rightarrow> None | Some m \<Rightarrow> parse_digits m ys)"
  by (induction n xs rule: parse_digits.induct) auto

text \<open>The \<open>w\<close> lowest decimal digits of a number, and how padding produces them.\<close>

fun digits :: "nat \<Rightarrow> nat \<Rightarrow> string" where
  "digits 0 n = []"
| "digits (Suc w) n = digits w (n div 10) @ [digit (n mod 10)]"

lemma length_digits [simp]: "length (digits w n) = w"
  by (induction w arbitrary: n) auto

lemma digits_0 [simp]: "digits w 0 = replicate w (digit 0)"
  by (induction w) (auto simp: replicate_append_same)

lemma digits_decimal:
  "n < 10 ^ w \<Longrightarrow> 0 < w \<Longrightarrow> length (decimal n) \<le> w \<and>
     replicate (w - length (decimal n)) (digit 0) @ decimal n = digits w n"
proof (induction n arbitrary: w rule: decimal.induct)
  case (1 n)
  show ?case
  proof (cases "n < 10")
    case True
    then show ?thesis
      using 1 by (cases w) (auto simp: decimal.simps [of n] replicate_append_same)
  next
    case False
    then obtain w' where w: "w = Suc w'" "0 < w'" "n div 10 < 10 ^ w'"
      using "1.prems" by (cases w; cases "w - 1") (auto simp: less_mult_imp_div_less mult.commute)
    then show ?thesis
      using "1.IH" [OF False w(3,2)] False by (auto simp: decimal.simps [of n])
  qed
qed

lemma pad20_digits: "n < 10 ^ 20 \<Longrightarrow> pad20 n = digits 20 n"
  using digits_decimal [of n 20] by (simp add: pad20_def)

lemma parse_digits_digits:
  "n < 10 ^ w \<Longrightarrow> parse_digits m (digits w n) = Some (m * 10 ^ w + n)"
proof (induction w arbitrary: n)
  case 0
  then show ?case by simp
next
  case (Suc w)
  then have "n div 10 < 10 ^ w" by (simp add: less_mult_imp_div_less mult.commute)
  from Suc.IH [OF this] show ?case
    by (simp add: parse_digits_append algebra_simps)
qed

lemma unat_less_10_20: "unat (q::u64) < 10 ^ 20"
proof -
  have "unat q < 2 ^ 64" using unsigned_less [of q] by simp
  then show ?thesis by simp
qed

lemma ParseUint_pad20: "ParseUint (pad20 (unat q)) = Some q" for q :: u64
proof -
  have "parse_digits 0 (pad20 (unat q)) = Some (unat q)"
    using parse_digits_digits [OF unat_less_10_20, of 0 q] pad20_digits [OF unat_less_10_20, of q] by simp
  moreover have "unat q < 2 ^ 64" using unsigned_less [of q] by simp
  moreover have "pad20 (unat q) \<noteq> []"
    using pad20_digits [OF unat_less_10_20, of q] by (metis length_digits list.size(3) zero_neq_numeral)
  ultimately show ?thesis
    by (simp add: ParseUint_def)
qed

lemma length_pad20 [simp]: "length (pad20 (unat q)) = 20" for q :: u64
  by (simp add: pad20_digits [OF unat_less_10_20])

section \<open>Order\<close>

lemma list_less_append_same_length:
  "length xs = length ys \<Longrightarrow> xs @ us < ys @ vs \<longleftrightarrow> xs < ys \<or> xs = ys \<and> us < vs"
  for xs :: "'a::linorder list"
  by (induction xs ys rule: list_induct2) auto

lemma digit_less: "c < 10 \<Longrightarrow> d < 10 \<Longrightarrow> digit c < digit d \<longleftrightarrow> c < d"
  by (simp add: less_char_def)

lemma less_by_digits: "b < 10 \<Longrightarrow> d < 10 \<Longrightarrow> 10 * a + b < 10 * c + d \<longleftrightarrow> a < c \<or> a = c \<and> b < d"
  for a b c d :: nat
  by arith

lemma digits_less: "n < 10 ^ w \<Longrightarrow> m < 10 ^ w \<Longrightarrow> digits w n < digits w m \<longleftrightarrow> n < m"
proof (induction w arbitrary: n m)
  case 0
  then show ?case by simp
next
  case (Suc w)
  have bounds: "n div 10 < 10 ^ w" "m div 10 < 10 ^ w"
    using Suc.prems by (simp_all add: less_mult_imp_div_less mult.commute)
  have eq: "digits w (n div 10) = digits w (m div 10) \<longleftrightarrow> n div 10 = m div 10"
    using parse_digits_digits [OF bounds(1), of 0] parse_digits_digits [OF bounds(2), of 0]
    by (metis add.left_neutral mult_zero_left option.inject)
  have "digits (Suc w) n < digits (Suc w) m \<longleftrightarrow>
      n div 10 < m div 10 \<or> n div 10 = m div 10 \<and> n mod 10 < m mod 10"
    using Suc.IH [OF bounds] eq by (simp add: list_less_append_same_length digit_less)
  also have "\<dots> \<longleftrightarrow> 10 * (n div 10) + n mod 10 < 10 * (m div 10) + m mod 10"
    by (rule less_by_digits [symmetric]) auto
  also have "\<dots> \<longleftrightarrow> n < m"
    by simp
  finally show ?case .
qed

lemma pad20_less: "pad20 (unat p) @ suf < pad20 (unat q) @ suf \<longleftrightarrow> p < q" for p q :: u64
  using digits_less [OF unat_less_10_20 unat_less_10_20, of p q]
  by (simp add: list_less_append_same_length word_less_nat_alt pad20_digits [OF unat_less_10_20])

section \<open>The naming contract\<close>

text \<open>
  What the code that lists and prunes a directory relies on: a name parses to its sequence
  and names sort as sequences do.
\<close>

locale sequence_names =
  fixes name_of :: "u64 \<Rightarrow> string" and parse :: "string \<Rightarrow> u64 res" and legal :: "u64 \<Rightarrow> bool"
  assumes parse_name: "legal q \<Longrightarrow> parse (name_of q) = Inr q"
    and name_less: "name_of p < name_of q \<longleftrightarrow> p < q"
begin

lemma name_inject: "name_of p = name_of q \<longleftrightarrow> p = q"
  by (metis linorder_neqE name_less order_less_irrefl)

lemma sorted_names: "sorted (map name_of qs) \<longleftrightarrow> sorted qs"
proof -
  have "name_of p \<le> name_of q \<longleftrightarrow> p \<le> q" for p q
    by (metis linorder_not_le name_less)
  then show ?thesis
    by (induction qs) auto
qed

end

interpretation seg: sequence_names segmentName parseSegmentFilename "\<lambda>q. q \<noteq> 0"
  by unfold_locales
    (simp_all add: segmentName_def parseSegmentFilename_def parseSequenceFilename_def ParseUint_pad20
      pad20_less)

interpretation snap: sequence_names snapshotName parseSnapshotFilename "\<lambda>q. True"
  by unfold_locales
    (simp_all add: snapshotName_def parseSnapshotFilename_def parseSequenceFilename_def ParseUint_pad20
      pad20_less)

end
