(* ===== verification/Cache_Names_Props.thy ===== *)
theory Cache_Names_Props
  imports Cache_Names
begin

text \<open>File names carry their sequence: names and sequences determine each other.\<close>

lemma parse_digits_inverse: "parse_digits 0 s = Some n \<Longrightarrow> s = digits (length s) n"
proof (induction s arbitrary: n rule: rev_induct)
  case (snoc c s)
  obtain m where m: "parse_digits 0 s = Some m" "(48::nat) \<le> of_char c" "of_char c \<le> (57::nat)"
    "n = 10 * m + (of_char c - 48)"
    using snoc.prems by (auto simp: parse_digits_append split: option.splits if_splits)
  have "digit (of_char c - 48) = c" using m(2) by (simp add: digit_def)
  moreover have "n = 10 * m + d \<Longrightarrow> d < 10 \<Longrightarrow> n div 10 = m \<and> n mod 10 = d" for d by simp
  moreover have "of_char c - 48 < (10::nat)" using m(3) by simp
  ultimately show ?case using snoc.IH [OF m(1)] m(4) by simp
qed simp

lemma name_of_parsed:
  assumes "HasSuffix name suf" "length name = 20 + length suf" "parseSequenceFilename name suf z = Inr q"
  shows "name = pad20 (unat q) @ suf"
proof -
  let ?stem = "take 20 name"
  have stem: "TrimSuffix name suf = ?stem" "name = ?stem @ suf" "length ?stem = 20"
    using assms(1,2) append_take_drop_id [of 20 name] by (auto simp: TrimSuffix_def HasSuffix_def)
  obtain n where n: "parse_digits 0 ?stem = Some n" "n < 2 ^ 64" "q = of_nat n"
    using assms(3) stem(1) by (auto simp: parseSequenceFilename_def ParseUint_def Let_def split: if_splits option.splits)
  then have "unat q = n" by (simp add: unat_of_nat)
  then have "?stem = pad20 (unat q)" using parse_digits_inverse [OF n(1)] stem(3) pad20_digits [OF unat_less_10_20, of q] by simp
  then show ?thesis using stem(2) by simp
qed

text \<open>C40. File names and sequences determine each other. The name of a segment or snapshot parses to its
  sequence, a name of full length that parses is the name of its sequence, names in the order of
  the alphabet are sequences in order, and a segment is never taken for a snapshot. The sequence 0
  is refused for a segment and allowed for a snapshot.\<close>

theorem names_are_sequences:
  "(q \<noteq> 0 \<longrightarrow> parseSegmentFilename (segmentName q) = Inr q) \<and> parseSnapshotFilename (snapshotName q) = Inr q \<and>
   (HasSuffix name ''.seg'' \<and> length name = 24 \<and> parseSegmentFilename name = Inr q \<longrightarrow> name = segmentName q) \<and>
   (HasSuffix name ''.snap'' \<and> length name = 25 \<and> parseSnapshotFilename name = Inr q \<longrightarrow> name = snapshotName q) \<and>
   (segmentName p < segmentName q \<longleftrightarrow> p < q) \<and> (snapshotName p < snapshotName q \<longleftrightarrow> p < q) \<and>
   segmentName p \<noteq> snapshotName q \<and> parseSegmentFilename (segmentName 0) = Inl (ErrInvalidName (segmentName 0))"
proof -
  have "segmentName p \<noteq> snapshotName q" by (simp add: segmentName_def snapshotName_def)
  moreover have "parseSegmentFilename (segmentName 0) = Inl (ErrInvalidName (segmentName 0))"
    using ParseUint_pad20 [of 0] length_pad20 [of 0] by (simp add: parseSegmentFilename_def parseSequenceFilename_def segmentName_def)
  moreover have "name = segmentName q" if "HasSuffix name ''.seg''" "length name = 24" "parseSegmentFilename name = Inr q"
    using name_of_parsed [OF that(1), of False q] that(2,3) by (simp add: parseSegmentFilename_def segmentName_def)
  moreover have "name = snapshotName q" if "HasSuffix name ''.snap''" "length name = 25" "parseSnapshotFilename name = Inr q"
    using name_of_parsed [OF that(1), of True q] that(2,3) by (simp add: parseSnapshotFilename_def snapshotName_def)
  ultimately show ?thesis
    using seg.parse_name [of q] snap.parse_name [of q] seg.name_less [of p q] snap.name_less [of p q]
    by (intro conjI impI) simp_all
qed

theorem names_are_sequences_witness:
  "parseSegmentFilename (segmentName 7) = Inr 7 \<and> ''00000000000000000007.seg'' = segmentName 7"
proof -
  have "HasSuffix ''00000000000000000007.seg'' ''.seg''" "length ''00000000000000000007.seg'' = 24"
    "parseSegmentFilename ''00000000000000000007.seg'' = Inr 7"
    by (simp_all add: HasSuffix_def parseSegmentFilename_def parseSequenceFilename_def TrimSuffix_def ParseUint_def)
  then show ?thesis
    using names_are_sequences [of 7 "''00000000000000000007.seg''" 0] by simp
qed

end
