(* ===== verification/Cache_Record.thy ===== *)
theory Cache_Record
  imports Cache_State
begin

text \<open>
  The byte formats: a record of the write-ahead log (\<open>appendRecord\<close> in \<open>wal.go\<close>), an entry
  and the header of a snapshot (\<open>snapshot.go\<close>), and the header of a segment. The encoders
  fill a zeroed slice field by field, as the code does; the layout lemmas give the resulting
  sequence of fields, and the field lemmas read them back at the offsets the decoders use.
\<close>

section \<open>Constants of the formats\<close>

definition segmentHeaderSize :: nat where [layout]: "segmentHeaderSize = 8"
definition segmentLengthSize :: nat where [layout]: "segmentLengthSize = 4"
definition recordCRCOffset :: nat where [layout]: "recordCRCOffset = 4"
definition recordOpOffset :: nat where [layout]: "recordOpOffset = 8"
definition recordKeyLengthOffset :: nat where [layout]: "recordKeyLengthOffset = 9"
definition recordDeadlineOffset :: nat where [layout]: "recordDeadlineOffset = 11"
definition recordSequenceOffset :: nat where [layout]: "recordSequenceOffset = 19"
definition recordKeyOffset :: nat where [layout]: "recordKeyOffset = 27"
definition recordFixedSize :: nat where [layout]: "recordFixedSize = 27"
definition formatVersion :: u16 where [layout]: "formatVersion = 1"
definition maxSequence :: u64 where "maxSequence = - 1"
definition opSet :: byte where [layout]: "opSet = 1"
definition opDelete :: byte where [layout]: "opDelete = 2"

definition segmentMagic :: bytes where [layout]: "segmentMagic = [0x43, 0x57, 0x41, 0x4C]"
definition snapshotMagic :: bytes where [layout]: "snapshotMagic = [0x43, 0x53, 0x4E, 0x50]"

definition snapshotFixedHeaderSize :: nat where [layout]: "snapshotFixedHeaderSize = 12"
definition snapshotLengthSize :: nat where [layout]: "snapshotLengthSize = 4"
definition snapshotCRCOffset :: nat where [layout]: "snapshotCRCOffset = 4"
definition snapshotKeyLengthOffset :: nat where [layout]: "snapshotKeyLengthOffset = 8"
definition snapshotDeadlineOffset :: nat where [layout]: "snapshotDeadlineOffset = 10"
definition snapshotSequenceOffset :: nat where [layout]: "snapshotSequenceOffset = 18"
definition snapshotKeyOffset :: nat where [layout]: "snapshotKeyOffset = 26"
definition snapshotRecordFixedSize :: nat where [layout]: "snapshotRecordFixedSize = 26"

section \<open>Requests\<close>

datatype requestKind = requestSet | requestDelete | requestSync | requestClose

text \<open>A \<open>writeRequest\<close>; \<open>rid\<close> stands for the identity of its result channel.\<close>

record writeRequest =
  rkind :: requestKind
  rkey :: key
  rvalue :: bytes
  rdeadline :: i64
  rid :: nat

section \<open>Encoders\<close>

definition recordSizeFor :: "writeRequest \<Rightarrow> nat" where
  "recordSizeFor request = recordFixedSize + length (rkey request) + length (rvalue request)"

definition appendRecord :: "bytes \<Rightarrow> u64 \<Rightarrow> writeRequest \<Rightarrow> bytes" where
  "appendRecord dst sequence request =
     (let r0 = replicate (recordSizeFor request) 0;
          r1 = copyInto 0 (PutUint32 (of_nat (length r0 - segmentLengthSize))) r0;
          r2 = copyInto recordOpOffset [if rkind request = requestSet then opSet else opDelete] r1;
          r3 = copyInto recordKeyLengthOffset (PutUint16 (of_nat (length (rkey request)))) r2;
          r4 = copyInto recordDeadlineOffset (PutUint64 (rdeadline request)) r3;
          r5 = copyInto recordSequenceOffset (PutUint64 sequence) r4;
          r6 = copyInto recordKeyOffset (rkey request) r5;
          r7 = copyInto (recordKeyOffset + length (rkey request)) (rvalue request) r6;
          r8 = copyInto recordCRCOffset (PutUint32 (Checksum (drop recordOpOffset r7))) r7
      in dst @ r8)"

definition segmentHeader :: bytes where
  "segmentHeader =
     (let h0 = replicate segmentHeaderSize 0;
          h1 = copyInto 0 segmentMagic h0
      in copyInto 4 (PutUint16 formatVersion) h1)"

definition newSnapshotHeader :: "nat \<Rightarrow> bytes" where
  "newSnapshotHeader shardCount =
     (let h0 = replicate (snapshotFixedHeaderSize + shardCount * 8) 0;
          h1 = copyInto 0 snapshotMagic h0;
          h2 = copyInto 4 (PutUint16 formatVersion) h1
      in copyInto 8 (PutUint32 (of_nat shardCount)) h2)"

text \<open>The loops of \<open>writeSnapshotAt\<close> and \<open>writeFinalSnapshot\<close> that store a sequence per shard.\<close>

fun putSequences :: "nat \<Rightarrow> u64 list \<Rightarrow> bytes \<Rightarrow> bytes" where
  "putSequences i [] header = header"
| "putSequences i (q # qs) header =
     putSequences (Suc i) qs (copyInto (snapshotFixedHeaderSize + i * 8) (PutUint64 q) header)"

definition encodeSnapshotEntry :: "'a item_scheme \<Rightarrow> bytes" where
  "encodeSnapshotEntry current =
     (let len = snapshotRecordFixedSize + length (ekey current) + length (evalue current);
          r0 = replicate len 0;
          r1 = copyInto 0 (PutUint32 (of_nat (len - snapshotLengthSize))) r0;
          r2 = copyInto snapshotKeyLengthOffset (PutUint16 (of_nat (length (ekey current)))) r1;
          r3 = copyInto snapshotDeadlineOffset (PutUint64 (edeadline current)) r2;
          r4 = copyInto snapshotSequenceOffset (PutUint64 (esequence current)) r3;
          r5 = copyInto snapshotKeyOffset (ekey current) r4;
          r6 = copyInto (snapshotKeyOffset + length (ekey current)) (evalue current) r5
      in copyInto snapshotCRCOffset (PutUint32 (Checksum (drop snapshotKeyLengthOffset r6))) r6)"

section \<open>Validation before a record is built\<close>

definition validateRecordSize :: "key \<Rightarrow> nat \<Rightarrow> go_error option" where
  "validateRecordSize key valueLength =
     (if 65535 < length key then Some (ErrKeyTooLarge (length key))
      else if (2 ^ 32 - 1 :: nat) < recordFixedSize + length key + valueLength then Some ErrRecordTooLarge
      else None)"

definition validateEntrySize :: "store \<Rightarrow> key \<Rightarrow> nat \<Rightarrow> go_error option" where
  "validateEntrySize store key valueLength =
     (case validateRecordSize key valueLength of
        Some err \<Rightarrow> Some err
      | None \<Rightarrow>
          let charged = entryOverhead + of_nat (length key) + of_nat valueLength;
              cap = capacity (shardFor store key)
          in if cap < charged then Some (ErrEntryTooLarge charged cap) else None)"

section \<open>Layout\<close>

text \<open>
  A slice that is a sequence of fields, with one field overwritten: the step every encoder
  repeats.
\<close>

lemma copyInto_field:
  "off = length pre \<Longrightarrow> length src = n \<Longrightarrow> copyInto off src (pre @ replicate n x @ post) = pre @ src @ post"
  by (simp add: copyInto_at)

lemma copyInto_field_last:
  "off = length pre \<Longrightarrow> length src = n \<Longrightarrow> copyInto off src (pre @ replicate n x) = pre @ src"
  using copyInto_field [of off pre src n x "[]"] by simp

definition recordBody :: "u64 \<Rightarrow> writeRequest \<Rightarrow> bytes" where
  "recordBody sequence request =
     [if rkind request = requestSet then opSet else opDelete] @
     PutUint16 (of_nat (length (rkey request))) @ PutUint64 (rdeadline request) @
     PutUint64 sequence @ rkey request @ rvalue request"

lemma length_recordBody: "length (recordBody q req) = 19 + length (rkey req) + length (rvalue req)"
  by (simp add: recordBody_def)

lemma appendRecord_layout:
  "appendRecord dst q req = dst @ PutUint32 (of_nat (recordSizeFor req - 4)) @
     PutUint32 (Checksum (recordBody q req)) @ recordBody q req"
proof -
  let ?k = "rkey req" and ?v = "rvalue req"
  let ?L = "PutUint32 (of_nat (recordSizeFor req - 4))"
  let ?op = "[if rkind req = requestSet then opSet else opDelete]"
  let ?K = "PutUint16 (of_nat (length ?k))" and ?D = "PutUint64 (rdeadline req)" and ?Q = "PutUint64 q"
  let ?z = "\<lambda>n. replicate n (0::byte)"
  define r0 where "r0 = ?z (recordSizeFor req)"
  have r0: "r0 = ?z 4 @ ?z 4 @ ?z 1 @ ?z 2 @ ?z 8 @ ?z 8 @ ?z (length ?k) @ ?z (length ?v)"
    unfolding r0_def recordSizeFor_def recordFixedSize_def
    by (simp add: replicate_add [symmetric] del: replicate_Suc)
  define r1 where "r1 = copyInto 0 ?L r0"
  have r1: "r1 = (?L @ ?z 4) @ ?z 1 @ ?z 2 @ ?z 8 @ ?z 8 @ ?z (length ?k) @ ?z (length ?v)"
    unfolding r1_def r0 using copyInto_field [of 0 "[]" ?L 4] by simp
  define r2 where "r2 = copyInto 8 ?op r1"
  have r2: "r2 = (?L @ ?z 4 @ ?op) @ ?z 2 @ ?z 8 @ ?z 8 @ ?z (length ?k) @ ?z (length ?v)"
    unfolding r2_def r1 by (subst copyInto_field) auto
  define r3 where "r3 = copyInto 9 ?K r2"
  have r3: "r3 = (?L @ ?z 4 @ ?op @ ?K) @ ?z 8 @ ?z 8 @ ?z (length ?k) @ ?z (length ?v)"
    unfolding r3_def r2 by (subst copyInto_field) auto
  define r4 where "r4 = copyInto 11 ?D r3"
  have r4: "r4 = (?L @ ?z 4 @ ?op @ ?K @ ?D) @ ?z 8 @ ?z (length ?k) @ ?z (length ?v)"
    unfolding r4_def r3 by (subst copyInto_field) auto
  define r5 where "r5 = copyInto 19 ?Q r4"
  have r5: "r5 = (?L @ ?z 4 @ ?op @ ?K @ ?D @ ?Q) @ ?z (length ?k) @ ?z (length ?v)"
    unfolding r5_def r4 by (subst copyInto_field) auto
  define r6 where "r6 = copyInto 27 ?k r5"
  have r6: "r6 = (?L @ ?z 4 @ ?op @ ?K @ ?D @ ?Q @ ?k) @ ?z (length ?v)"
    unfolding r6_def r5 by (subst copyInto_field) auto
  define r7 where "r7 = copyInto (27 + length ?k) ?v r6"
  have r7: "r7 = ?L @ ?z 4 @ recordBody q req"
    unfolding r7_def r6 recordBody_def by (subst copyInto_field_last) auto
  have "drop 8 r7 = recordBody q req"
    unfolding r7 by simp
  moreover have "copyInto 4 (PutUint32 c) r7 = ?L @ PutUint32 c @ recordBody q req" for c
    unfolding r7 by (subst copyInto_field) auto
  moreover have "appendRecord dst q req = dst @ copyInto 4 (PutUint32 (Checksum (drop 8 r7))) r7"
    by (simp add: appendRecord_def Let_def layout r7_def r6_def r5_def r4_def r3_def r2_def r1_def r0_def)
  ultimately show ?thesis by simp
qed

lemma length_appendRecord: "length (appendRecord dst q req) = length dst + recordSizeFor req"
  by (simp add: appendRecord_layout length_recordBody recordSizeFor_def layout)

lemma segmentHeader_layout: "segmentHeader = segmentMagic @ PutUint16 formatVersion @ [0, 0]"
proof -
  have "replicate segmentHeaderSize (0::byte) = replicate 4 0 @ replicate 2 0 @ [0, 0]"
    by (simp add: layout numeral_eq_Suc)
  then show ?thesis
    using copyInto_field [of 0 "[]" segmentMagic 4] copyInto_field [of 4 segmentMagic "PutUint16 formatVersion" 2]
    by (simp add: segmentHeader_def segmentMagic_def Let_def del: replicate.simps)
qed


subsection \<open>Reading a record back\<close>

text \<open>The bytes after the length prefix, which the checksum and the decoder work on.\<close>

definition recordPayload :: "u64 \<Rightarrow> writeRequest \<Rightarrow> bytes" where
  "recordPayload q req = PutUint32 (Checksum (recordBody q req)) @ recordBody q req"

lemma length_recordPayload: "length (recordPayload q req) = 23 + length (rkey req) + length (rvalue req)"
  by (simp add: recordPayload_def length_recordBody)

lemma appendRecord_payload:
  "appendRecord dst q req =
     dst @ PutUint32 (of_nat (length (recordPayload q req))) @ recordPayload q req"
proof -
  have "length (recordPayload q req) = recordSizeFor req - 4"
    by (simp add: length_recordPayload recordSizeFor_def recordFixedSize_def)
  then show ?thesis
    by (simp only: appendRecord_layout) (simp add: recordPayload_def)
qed

lemma recordPayload_fields:
  "slice 0 4 (recordPayload q req) = PutUint32 (Checksum (recordBody q req))"
  "drop 4 (recordPayload q req) = recordBody q req"
  "recordPayload q req ! 4 = (if rkind req = requestSet then opSet else opDelete)"
  "slice 5 7 (recordPayload q req) = PutUint16 (of_nat (length (rkey req)))"
  "slice 7 15 (recordPayload q req) = PutUint64 (rdeadline req)"
  "slice 15 23 (recordPayload q req) = PutUint64 q"
  "slice 23 (23 + length (rkey req)) (recordPayload q req) = rkey req"
  by (simp_all add: recordPayload_def recordBody_def slice_def nth_append)

lemma recordPayload_value: "drop (23 + length (rkey req)) (recordPayload q req) = rvalue req"
proof -
  define pre where "pre = PutUint32 (Checksum (recordBody q req)) @
    [if rkind req = requestSet then opSet else opDelete] @ PutUint16 (of_nat (length (rkey req))) @
    PutUint64 (rdeadline req) @ PutUint64 q @ rkey req"
  have "recordPayload q req = pre @ rvalue req" and "length pre = 23 + length (rkey req)"
    by (simp_all add: pre_def recordPayload_def recordBody_def)
  then show ?thesis by simp
qed

subsection \<open>Snapshot entries and headers\<close>

definition entryBody :: "'a item_scheme \<Rightarrow> bytes" where
  "entryBody e = PutUint16 (of_nat (length (ekey e))) @ PutUint64 (edeadline e) @
     PutUint64 (esequence e) @ ekey e @ evalue e"

definition entryPayload :: "'a item_scheme \<Rightarrow> bytes" where
  "entryPayload e = PutUint32 (Checksum (entryBody e)) @ entryBody e"

lemma length_entryPayload: "length (entryPayload e) = 22 + length (ekey e) + length (evalue e)"
  by (simp add: entryPayload_def entryBody_def)

lemma encodeSnapshotEntry_payload:
  "encodeSnapshotEntry e = PutUint32 (of_nat (length (entryPayload e))) @ entryPayload e"
proof -
  let ?k = "ekey e" and ?v = "evalue e"
  let ?L = "PutUint32 (of_nat (26 + length ?k + length ?v - 4))"
  let ?K = "PutUint16 (of_nat (length ?k))" and ?D = "PutUint64 (edeadline e)" and ?Q = "PutUint64 (esequence e)"
  let ?z = "\<lambda>n. replicate n (0::byte)"
  define r0 where "r0 = ?z (26 + length ?k + length ?v)"
  have r0: "r0 = ?z 4 @ ?z 4 @ ?z 2 @ ?z 8 @ ?z 8 @ ?z (length ?k) @ ?z (length ?v)"
    unfolding r0_def by (simp add: replicate_add [symmetric] del: replicate_Suc)
  define r1 where "r1 = copyInto 0 ?L r0"
  have r1: "r1 = (?L @ ?z 4) @ ?z 2 @ ?z 8 @ ?z 8 @ ?z (length ?k) @ ?z (length ?v)"
    unfolding r1_def r0 using copyInto_field [of 0 "[]" ?L 4] by simp
  define r2 where "r2 = copyInto 8 ?K r1"
  have r2: "r2 = (?L @ ?z 4 @ ?K) @ ?z 8 @ ?z 8 @ ?z (length ?k) @ ?z (length ?v)"
    unfolding r2_def r1 by (subst copyInto_field) auto
  define r3 where "r3 = copyInto 10 ?D r2"
  have r3: "r3 = (?L @ ?z 4 @ ?K @ ?D) @ ?z 8 @ ?z (length ?k) @ ?z (length ?v)"
    unfolding r3_def r2 by (subst copyInto_field) auto
  define r4 where "r4 = copyInto 18 ?Q r3"
  have r4: "r4 = (?L @ ?z 4 @ ?K @ ?D @ ?Q) @ ?z (length ?k) @ ?z (length ?v)"
    unfolding r4_def r3 by (subst copyInto_field) auto
  define r5 where "r5 = copyInto 26 ?k r4"
  have r5: "r5 = (?L @ ?z 4 @ ?K @ ?D @ ?Q @ ?k) @ ?z (length ?v)"
    unfolding r5_def r4 by (subst copyInto_field) auto
  define r6 where "r6 = copyInto (26 + length ?k) ?v r5"
  have r6: "r6 = ?L @ ?z 4 @ entryBody e"
    unfolding r6_def r5 entryBody_def by (subst copyInto_field_last) auto
  have "drop 8 r6 = entryBody e"
    unfolding r6 by simp
  moreover have "copyInto 4 (PutUint32 c) r6 = ?L @ PutUint32 c @ entryBody e" for c
    unfolding r6 by (subst copyInto_field) auto
  moreover have "encodeSnapshotEntry e = copyInto 4 (PutUint32 (Checksum (drop 8 r6))) r6"
    by (simp add: encodeSnapshotEntry_def Let_def layout r6_def r5_def r4_def r3_def r2_def r1_def r0_def)
  moreover have "26 + length ?k + length ?v - 4 = length (entryPayload e)"
    by (simp add: length_entryPayload)
  ultimately show ?thesis
    by (simp only:) (simp add: entryPayload_def)
qed

lemma entryPayload_fields:
  "slice 0 4 (entryPayload e) = PutUint32 (Checksum (entryBody e))"
  "drop 4 (entryPayload e) = entryBody e"
  "slice 4 6 (entryPayload e) = PutUint16 (of_nat (length (ekey e)))"
  "slice 6 14 (entryPayload e) = PutUint64 (edeadline e)"
  "slice 14 22 (entryPayload e) = PutUint64 (esequence e)"
  "slice 22 (22 + length (ekey e)) (entryPayload e) = ekey e"
  by (simp_all add: entryPayload_def entryBody_def slice_def nth_append)

lemma entryPayload_value: "drop (22 + length (ekey e)) (entryPayload e) = evalue e"
proof -
  define pre where "pre = PutUint32 (Checksum (entryBody e)) @ PutUint16 (of_nat (length (ekey e))) @
    PutUint64 (edeadline e) @ PutUint64 (esequence e) @ ekey e"
  have "entryPayload e = pre @ evalue e" and "length pre = 22 + length (ekey e)"
    by (simp_all add: pre_def entryPayload_def entryBody_def)
  then show ?thesis by simp
qed

lemma newSnapshotHeader_layout:
  "newSnapshotHeader n = (snapshotMagic @ PutUint16 formatVersion @ [0, 0] @ PutUint32 (of_nat n)) @
     replicate (n * 8) 0"
proof -
  have "replicate (snapshotFixedHeaderSize + n * 8) (0::byte) =
      replicate 4 0 @ replicate 2 0 @ [0, 0] @ replicate 4 0 @ replicate (n * 8) 0"
    by (simp add: layout replicate_add numeral_eq_Suc)
  then show ?thesis
    using copyInto_field [of 0 "[]" snapshotMagic 4]
      copyInto_field [of 4 snapshotMagic "PutUint16 formatVersion" 2]
      copyInto_field [of 8 "snapshotMagic @ PutUint16 formatVersion @ [0, 0]" "PutUint32 (of_nat n)" 4]
    by (simp add: newSnapshotHeader_def snapshotMagic_def Let_def del: replicate.simps)
qed

lemma putSequences_layout:
  assumes "length pre = 12 + i * 8"
  shows "putSequences i qs (pre @ replicate (length qs * 8) 0) = pre @ concat (map PutUint64 qs)"
  using assms
proof (induction qs arbitrary: i pre)
  case Nil
  then show ?case by simp
next
  case (Cons q qs)
  have "copyInto (12 + i * 8) (PutUint64 q) (pre @ replicate (length (q # qs) * 8) 0)
        = (pre @ PutUint64 q) @ replicate (length qs * 8) 0"
    using copyInto_field [of "12 + i * 8" pre "PutUint64 q" 8 0 "replicate (length qs * 8) 0"] Cons.prems
    by (simp add: replicate_add [symmetric] del: replicate_Suc)
  then show ?case
    using Cons.IH [of "pre @ PutUint64 q" "Suc i"] Cons.prems by (simp add: layout)
qed

text \<open>The finished header of a snapshot with the given sequences per shard.\<close>

definition snapshotHeader :: "u64 list \<Rightarrow> bytes" where
  "snapshotHeader qs = snapshotMagic @ PutUint16 formatVersion @ [0, 0] @
     PutUint32 (of_nat (length qs)) @ concat (map PutUint64 qs)"

lemma putSequences_header: "putSequences 0 qs (newSnapshotHeader (length qs)) = snapshotHeader qs"
  using putSequences_layout [of "snapshotMagic @ PutUint16 formatVersion @ [0, 0] @ PutUint32 (of_nat (length qs))" 0 qs]
  by (simp add: newSnapshotHeader_layout snapshotHeader_def snapshotMagic_def)

lemma length_concat_Put64 [simp]: "length (concat (map PutUint64 qs)) = 8 * length qs"
  by (induction qs) auto

lemma length_snapshotHeader: "length (snapshotHeader qs) = 12 + 8 * length qs"
  by (simp add: snapshotHeader_def snapshotMagic_def)

end
