(* ===== verification/Cache_OS.thy ===== *)
theory Cache_OS
  imports Cache_Names "HOL-Library.AList"
begin

text \<open>
  The operating system as the store sees it: one directory, the files in it, a clock and a
  context. Every call that can fail takes its outcome from a list of faults, so a theorem
  for every such list is a theorem for every way the calls can fail; an empty list is a run
  without failures. The functions of \<open>store.go\<close>, \<open>recovery.go\<close> and \<open>snapshot.go\<close> that only
  list or prune the directory are here as well.
\<close>

section \<open>Files\<close>

text \<open>A file is its bytes and the length of the prefix that fsync has made stable.\<close>

record fdata =
  content :: bytes
  synced :: nat

text \<open>A directory entry is a regular file or a link, with its inode, or a directory.\<close>

datatype node = NFile nat | NLink nat | NDir

text \<open>
  The outcome of a system call. A write may fail after some of its bytes; as \<open>os.File\<close>
  documents, a write of fewer bytes than asked always comes with an error.
\<close>

datatype fault = Fine | Fail errno | Short nat errno

record handle =
  hname :: string
  hino :: nat
  hid :: nat

record world =
  dir :: "(string \<times> node) list"
  inodes :: "nat \<Rightarrow> fdata"
  nextInode :: nat
  nextHandle :: nat
  closedHandles :: "nat list"
  faults :: "fault list"
  clock :: "nat \<Rightarrow> i64"
  tick :: nat
  cancels :: "bool list"

definition nextFault :: "world \<Rightarrow> fault \<times> world" where
  "nextFault w = (case faults w of [] \<Rightarrow> (Fine, w) | f # fs \<Rightarrow> (f, w\<lparr>faults := fs\<rparr>))"

text \<open>A call that changes nothing and either succeeds or fails.\<close>

definition sysCall :: "world \<Rightarrow> errno option \<times> world" where
  "sysCall w = (case nextFault w of
     (Fine, w') \<Rightarrow> (None, w') | (Fail e, w') \<Rightarrow> (Some e, w') | (Short n e, w') \<Rightarrow> (Some e, w'))"

definition EBADF :: errno where "EBADF = 9"
definition ENOENT :: errno where "ENOENT = 2"
definition EISDIR :: errno where "EISDIR = 21"

text \<open>The same on an open file; a file that was closed refuses every call.\<close>

definition fileCall :: "handle \<Rightarrow> world \<Rightarrow> errno option \<times> world" where
  "fileCall h w = (if hid h \<in> set (closedHandles w) then (Some EBADF, w) else sysCall w)"

definition now :: "world \<Rightarrow> i64 \<times> world" where
  "now w = (clock w (tick w), w\<lparr>tick := Suc (tick w)\<rparr>)"

text \<open>
  A context: \<open>context.Background()\<close> is never cancelled; the context given to \<open>Open\<close> may
  be cancelled between any two checks, and then stays so.
\<close>

datatype ctx = Background | Caller

definition ctxErr :: "ctx \<Rightarrow> world \<Rightarrow> bool \<times> world" where
  "ctxErr c w =
     (case c of
        Background \<Rightarrow> (False, w)
      | Caller \<Rightarrow> (case cancels w of
                    [] \<Rightarrow> (False, w)
                  | b # bs \<Rightarrow> if b then (True, w) else (False, w\<lparr>cancels := bs\<rparr>)))"

section \<open>Calls\<close>

definition putFile :: "nat \<Rightarrow> fdata \<Rightarrow> world \<Rightarrow> world" where
  "putFile i f w = w\<lparr>inodes := (inodes w)(i := f)\<rparr>"

text \<open>\<open>os.CreateTemp(dir, pre*)\<close>: a new empty file under an unused name.\<close>

definition tempName :: "string \<Rightarrow> world \<Rightarrow> string" where
  "tempName pre w =
     (case find (\<lambda>n. map_of (dir w) (pre @ decimal n) = None) [0..<Suc (length (dir w))] of
        Some n \<Rightarrow> pre @ decimal n | None \<Rightarrow> pre)"

definition openHandle :: "string \<Rightarrow> nat \<Rightarrow> world \<Rightarrow> handle \<times> world" where
  "openHandle name i w =
     (\<lparr>hname = name, hino = i, hid = nextHandle w\<rparr>, w\<lparr>nextHandle := Suc (nextHandle w)\<rparr>)"

definition createTemp :: "string \<Rightarrow> world \<Rightarrow> (errno + handle) \<times> world" where
  "createTemp pre w =
     (case sysCall w of
        (Some e, w1) \<Rightarrow> (Inl e, w1)
      | (None, w1) \<Rightarrow>
          let name = tempName pre w1; i = nextInode w1;
              w2 = w1\<lparr>dir := AList.update name (NFile i) (dir w1),
                      inodes := (inodes w1)(i := \<lparr>content = [], synced = 0\<rparr>),
                      nextInode := Suc i\<rparr>
          in case openHandle name i w2 of (h, w3) \<Rightarrow> (Inr h, w3))"

text \<open>\<open>file.Write\<close> at the end of the file: the number of bytes written, and the error.\<close>

definition writeFile :: "handle \<Rightarrow> bytes \<Rightarrow> world \<Rightarrow> (nat \<times> errno option) \<times> world" where
  "writeFile h payload w =
     (if hid h \<in> set (closedHandles w) then ((0, Some EBADF), w)
      else
        case nextFault w of
          (f, w1) \<Rightarrow>
            let n = (case f of Fine \<Rightarrow> length payload | Fail _ \<Rightarrow> 0 | Short k _ \<Rightarrow> min k (length payload));
                e = (case f of Fine \<Rightarrow> None | Fail x \<Rightarrow> Some x | Short _ x \<Rightarrow> Some x);
                old = inodes w1 (hino h)
            in ((n, e), putFile (hino h) (old\<lparr>content := content old @ take n payload\<rparr>) w1))"

definition syncFile :: "handle \<Rightarrow> world \<Rightarrow> errno option \<times> world" where
  "syncFile h w =
     (case fileCall h w of
        (Some e, w1) \<Rightarrow> (Some e, w1)
      | (None, w1) \<Rightarrow>
          let old = inodes w1 (hino h)
          in (None, putFile (hino h) (old\<lparr>synced := max (synced old) (length (content old))\<rparr>) w1))"

definition truncateFile :: "handle \<Rightarrow> nat \<Rightarrow> world \<Rightarrow> errno option \<times> world" where
  "truncateFile h n w =
     (case fileCall h w of
        (Some e, w1) \<Rightarrow> (Some e, w1)
      | (None, w1) \<Rightarrow>
          let old = inodes w1 (hino h)
          in (None, putFile (hino h)
                (old\<lparr>content := take n (content old), synced := min n (synced old)\<rparr>) w1))"

definition closeFile :: "handle \<Rightarrow> world \<Rightarrow> errno option \<times> world" where
  "closeFile h w =
     (case fileCall h w of (r, w1) \<Rightarrow> (r, w1\<lparr>closedHandles := hid h # closedHandles w1\<rparr>))"

definition openFile :: "string \<Rightarrow> world \<Rightarrow> (errno + handle) \<times> world" where
  "openFile name w =
     (case sysCall w of
        (Some e, w1) \<Rightarrow> (Inl e, w1)
      | (None, w1) \<Rightarrow>
          (case map_of (dir w1) name of
             Some (NFile i) \<Rightarrow> (case openHandle name i w1 of (h, w2) \<Rightarrow> (Inr h, w2))
           | Some (NLink i) \<Rightarrow> (case openHandle name i w1 of (h, w2) \<Rightarrow> (Inr h, w2))
           | _ \<Rightarrow> (Inl ENOENT, w1)))"

text \<open>\<open>os.Rename\<close> replaces an existing file but not a directory.\<close>

definition renameFile :: "string \<Rightarrow> string \<Rightarrow> world \<Rightarrow> errno option \<times> world" where
  "renameFile from to w =
     (case sysCall w of
        (Some e, w1) \<Rightarrow> (Some e, w1)
      | (None, w1) \<Rightarrow>
          (case map_of (dir w1) from of
             None \<Rightarrow> (Some ENOENT, w1)
           | Some n \<Rightarrow>
               if map_of (dir w1) to = Some NDir then (Some EISDIR, w1)
               else (None, w1\<lparr>dir := AList.update to n (AList.delete from (dir w1))\<rparr>)))"

definition removeFile :: "string \<Rightarrow> world \<Rightarrow> errno option \<times> world" where
  "removeFile name w =
     (case sysCall w of
        (Some e, w1) \<Rightarrow> (Some e, w1)
      | (None, w1) \<Rightarrow>
          if map_of (dir w1) name = None then (Some ENOENT, w1)
          else (None, w1\<lparr>dir := AList.delete name (dir w1)\<rparr>))"

text \<open>\<open>os.ReadDir\<close> returns the entries in the order of their names.\<close>

definition readDir :: "world \<Rightarrow> (errno + (string \<times> node) list) \<times> world" where
  "readDir w =
     (case sysCall w of
        (Some e, w1) \<Rightarrow> (Inl e, w1)
      | (None, w1) \<Rightarrow> (Inr (sort_key fst (dir w1)), w1))"

text \<open>\<open>syncDirectory\<close> of \<open>syncdir_unix.go\<close>: it opens, syncs and closes the directory.\<close>

definition syncDirectory :: "world \<Rightarrow> errno option \<times> world" where
  "syncDirectory w =
     (case sysCall w of
        (Some e, w1) \<Rightarrow> (Some e, w1)
      | (None, w1) \<Rightarrow>
          (case sysCall w1 of
             (syncErr, w2) \<Rightarrow>
               (case sysCall w2 of
                  (closeErr, w3) \<Rightarrow> (if syncErr \<noteq> None then syncErr else closeErr, w3))))"

text \<open>\<open>writeFull\<close> of \<open>snapshot.go\<close>.\<close>

function writeFull :: "handle \<Rightarrow> bytes \<Rightarrow> world \<Rightarrow> go_error option \<times> world" where
  "writeFull h val w =
     (if val = [] then (None, w)
      else
        case writeFile h val w of
          ((written, Some e), w1) \<Rightarrow> (Some (ErrOs ''write'' e), w1)
        | ((written, None), w1) \<Rightarrow>
            if written = 0 then (Some ErrShortWrite, w1) else writeFull h (drop written val) w1)"
  by pat_completeness auto
termination
  by (relation "measure (\<lambda>(h, val, w). length val)") auto

declare writeFull.simps [simp del]

section \<open>Listing and pruning the directory\<close>

type_synonym seqfile = "string \<times> u64"

text \<open>
  The loop shared by \<open>listSegments\<close> and \<open>listSnapshots\<close>: names with the suffix are parsed,
  a bad name or a sequence seen before is an error.
\<close>

fun collectSequences :: "string \<Rightarrow> (string \<Rightarrow> u64 res) \<Rightarrow> (u64 \<rightharpoonup> string) \<Rightarrow> (string \<times> node) list \<Rightarrow>
    seqfile list res" where
  "collectSequences suf parse seen [] = Inr []"
| "collectSequences suf parse seen ((name, n) # es) =
     (if n = NDir \<or> \<not> HasSuffix name suf then collectSequences suf parse seen es
      else
        case parse name of
          Inl e \<Rightarrow> Inl e
        | Inr sequence \<Rightarrow>
            (case seen sequence of
               Some prev \<Rightarrow> Inl (ErrDuplicateSequence sequence prev name)
             | None \<Rightarrow>
                 (case collectSequences suf parse (seen(sequence \<mapsto> name)) es of
                    Inl e \<Rightarrow> Inl e
                  | Inr fs \<Rightarrow> Inr ((name, sequence) # fs))))"

definition listSegments :: "world \<Rightarrow> seqfile list res \<times> world" where
  "listSegments w =
     (case readDir w of
        (Inl e, w1) \<Rightarrow> (Inl (ErrOs ''read directory'' e), w1)
      | (Inr es, w1) \<Rightarrow>
          (case collectSequences ''.seg'' parseSegmentFilename Map.empty es of
             Inl e \<Rightarrow> (Inl e, w1)
           | Inr fs \<Rightarrow> (Inr (sort_key snd fs), w1)))"

definition listSnapshots :: "world \<Rightarrow> seqfile list res \<times> world" where
  "listSnapshots w =
     (case readDir w of
        (Inl e, w1) \<Rightarrow> (Inl (ErrOs ''read directory'' e), w1)
      | (Inr es, w1) \<Rightarrow>
          (case collectSequences ''.snap'' parseSnapshotFilename Map.empty es of
             Inl e \<Rightarrow> (Inl e, w1)
           | Inr fs \<Rightarrow> (Inr (sort_key snd fs), w1)))"

text \<open>Removing a list of names in order, until one removal fails.\<close>

fun removeEach :: "string \<Rightarrow> string list \<Rightarrow> world \<Rightarrow> go_error option \<times> world" where
  "removeEach op [] w = (None, w)"
| "removeEach op (n # ns) w =
     (case removeFile n w of
        (Some e, w1) \<Rightarrow> (Some (ErrOs op e), w1)
      | (None, w1) \<Rightarrow> removeEach op ns w1)"

fun isRegular :: "node \<Rightarrow> bool" where
  "isRegular (NFile i) = True"
| "isRegular (NLink i) = False"
| "isRegular NDir = False"

definition temporaryName :: "string \<Rightarrow> bool" where
  "temporaryName name \<longleftrightarrow> HasPrefix name ''.segment-'' \<or> HasPrefix name ''.snapshot-''"

definition removeTemporaryFiles :: "world \<Rightarrow> go_error option \<times> world" where
  "removeTemporaryFiles w =
     (case readDir w of
        (Inl e, w1) \<Rightarrow> (Some (ErrOs ''read directory'' e), w1)
      | (Inr es, w1) \<Rightarrow>
          removeEach ''remove stale temporary file''
            (map fst (filter (\<lambda>(name, n). isRegular n \<and> temporaryName name) es)) w1)"

text \<open>
  \<open>removeOtherSnapshots\<close> parses each snapshot name before it decides, so a name that does
  not parse stops it after the removals before it.
\<close>

fun removeOtherSnapshots_loop :: "string \<Rightarrow> (string \<times> node) list \<Rightarrow> world \<Rightarrow> go_error option \<times> world" where
  "removeOtherSnapshots_loop retained [] w = (None, w)"
| "removeOtherSnapshots_loop retained ((name, n) # es) w =
     (if n = NDir \<or> \<not> HasSuffix name ''.snap'' then removeOtherSnapshots_loop retained es w
      else
        case parseSnapshotFilename name of
          Inl e \<Rightarrow> (Some e, w)
        | Inr _ \<Rightarrow>
            if name \<noteq> retained then
              (case removeFile name w of
                 (Some e, w1) \<Rightarrow> (Some (ErrOs ''remove superseded snapshot'' e), w1)
               | (None, w1) \<Rightarrow> removeOtherSnapshots_loop retained es w1)
            else removeOtherSnapshots_loop retained es w)"

definition removeOtherSnapshots :: "string \<Rightarrow> world \<Rightarrow> go_error option \<times> world" where
  "removeOtherSnapshots retained w =
     (case readDir w of
        (Inl e, w1) \<Rightarrow> (Some (ErrOs ''read directory'' e), w1)
      | (Inr es, w1) \<Rightarrow> removeOtherSnapshots_loop retained es w1)"

text \<open>The segments \<open>deleteSegmentsBefore\<close> removes: those whose successor starts at or below \<open>lowest\<close>.\<close>

fun coveredSegments :: "u64 \<Rightarrow> seqfile list \<Rightarrow> string list" where
  "coveredSegments lowest ((p, q) # (p', q') # rest) =
     (if lowest < q' then [] else p # coveredSegments lowest ((p', q') # rest))"
| "coveredSegments lowest segs = []"

definition deleteSegmentsBefore :: "u64 \<Rightarrow> world \<Rightarrow> go_error option \<times> world" where
  "deleteSegmentsBefore lowest w =
     (case listSegments w of
        (Inl e, w1) \<Rightarrow> (Some e, w1)
      | (Inr segs, w1) \<Rightarrow> removeEach ''remove superseded segment'' (coveredSegments lowest segs) w1)"

end
