(* ===== verification/Cache_Wal.thy ===== *)
theory Cache_Wal
  imports Cache_Record Cache_OS Cache_Entries
begin

text \<open>
  The write-ahead log of \<open>src/cache/wal.go\<close>: creating and rolling segments, and the batch
  that the writer appends to the log before it applies and acknowledges its requests. A
  request is answered on its result channel, so the batch returns the answers it sent, each
  with the identity of the request, in the order in which it sent them. \<open>None\<close> is a
  panic or a loop that does not end; \<open>Cache_Wal_Props\<close> shows that neither happens.
\<close>

section \<open>The state of the log\<close>

record logState =
  lfile :: handle
  loffset :: nat
  logSeq :: u64
  bytesSinceSnapshot :: nat

type_synonym answer = "nat \<times> go_error option"

section \<open>Segments\<close>

text \<open>Closing and removing the temporary file when \<open>createSegment\<close> gives up before the rename.\<close>

definition discardTemp :: "handle \<Rightarrow> world \<Rightarrow> world" where
  "discardTemp h w = snd (removeFile (hname h) (snd (closeFile h w)))"

definition createSegment :: "u64 \<Rightarrow> world \<Rightarrow> handle res \<times> world" where
  "createSegment firstSequence w =
     (case createTemp ''.segment-'' w of
        (Inl e, w1) \<Rightarrow> (Inl (ErrOs ''create segment temporary file'' e), w1)
      | (Inr f, w1) \<Rightarrow>
          (case fileCall f w1 of
             (Some e, w2) \<Rightarrow> (Inl (ErrOs ''set segment permissions'' e), discardTemp f w2)
           | (None, w2) \<Rightarrow>
               (case writeFile f segmentHeader w2 of
                  ((_, Some e), w3) \<Rightarrow> (Inl (ErrOs ''write segment header'' e), discardTemp f w3)
                | ((_, None), w3) \<Rightarrow>
                    (case syncFile f w3 of
                       (Some e, w4) \<Rightarrow> (Inl (ErrOs ''sync segment header'' e), discardTemp f w4)
                     | (None, w4) \<Rightarrow>
                         (case renameFile (hname f) (segmentName firstSequence) w4 of
                            (Some e, w5) \<Rightarrow> (Inl (ErrOs ''install segment'' e), discardTemp f w5)
                          | (None, w5) \<Rightarrow>
                              (case syncDirectory w5 of
                                 (Some e, w6) \<Rightarrow>
                                   (Inl (ErrOs ''commit segment installation'' e), snd (closeFile f w6))
                               | (None, w6) \<Rightarrow> (Inr f, w6)))))))"

definition addFsync :: "store \<Rightarrow> store" where
  "addFsync store = store\<lparr>stats := (stats store)\<lparr>fsyncs := fsyncs (stats store) + 1\<rparr>\<rparr>"

definition rollSegment :: "store \<Rightarrow> logState \<Rightarrow> u64 \<Rightarrow> world \<Rightarrow>
    go_error option \<times> store \<times> logState \<times> world" where
  "rollSegment store log firstSequence w =
     (case syncFile (lfile log) w of
        (Some e, w1) \<Rightarrow> (Some (ErrOs ''fsync segment'' e), store, log, w1)
      | (None, w1) \<Rightarrow>
          (case closeFile (lfile log) w1 of
             (Some e, w2) \<Rightarrow> (Some (ErrOs ''close segment'' e), addFsync store, log, w2)
           | (None, w2) \<Rightarrow>
               (case createSegment firstSequence w2 of
                  (Inl err, w3) \<Rightarrow> (Some err, addFsync store, log, w3)
                | (Inr f, w3) \<Rightarrow>
                    (None, addFsync store, log\<lparr>lfile := f, loffset := segmentHeaderSize\<rparr>, w3))))"

section \<open>A batch\<close>

definition respondAll :: "writeRequest list \<Rightarrow> go_error \<Rightarrow> answer list" where
  "respondAll requests err = map (\<lambda>request. (rid request, Some err)) requests"

text \<open>
  The loop that extends a chunk: \<open>n\<close> is \<open>last-first\<close>, \<open>payloadSize\<close> the bytes selected so far. A chunk
  stops before the sequences run out and, once it holds a record, when it has passed the
  segment size.
\<close>

fun selectChunk :: "nat \<Rightarrow> logState \<Rightarrow> writeRequest list \<Rightarrow> nat \<Rightarrow> nat \<Rightarrow> nat" where
  "selectChunk segmentSize log [] n payloadSize = n"
| "selectChunk segmentSize log (request # rest) n payloadSize =
     (if maxSequence - logSeq log \<le> of_nat n then n
      else if 0 < n \<and> segmentSize < loffset log + payloadSize then n
      else selectChunk segmentSize log rest (Suc n) (payloadSize + recordSizeFor request))"

fun encodeBatch :: "bytes \<Rightarrow> u64 \<Rightarrow> nat \<Rightarrow> writeRequest list \<Rightarrow> bytes" where
  "encodeBatch payload sequence n [] = payload"
| "encodeBatch payload sequence n (request # rest) =
     encodeBatch (appendRecord payload (sequence + of_nat n + 1) request) sequence (Suc n) rest"

text \<open>Applying one written request, and all of them in order.\<close>

definition applyRequest :: "store \<Rightarrow> writeRequest \<Rightarrow> u64 \<Rightarrow> world \<Rightarrow> (store \<times> world) option" where
  "applyRequest store request sequence w =
     (if rkind request = requestSet then
        (case now w of
           (t, w1) \<Rightarrow>
             do {
               st \<leftarrow> applySet store (rkey request) (rvalue request) (rdeadline request) sequence t;
               Some (st, w1)
             })
      else Some (applyDelete store (rkey request) sequence, w))"

definition addRecord :: "store \<Rightarrow> store" where
  "addRecord store = store\<lparr>stats := (stats store)\<lparr>recordsWritten := recordsWritten (stats store) + 1\<rparr>\<rparr>"

fun applyBatch :: "store \<Rightarrow> logState \<Rightarrow> writeRequest list \<Rightarrow> world \<Rightarrow>
    (store \<times> logState \<times> answer list \<times> world) option" where
  "applyBatch store log [] w = Some (store, log, [], w)"
| "applyBatch store log (request # rest) w =
     do {
       (st, w1) \<leftarrow> applyRequest store request (logSeq log + 1) w;
       (st', log', answers, w2) \<leftarrow> applyBatch (addRecord st) (log\<lparr>logSeq := logSeq log + 1\<rparr>) rest w1;
       Some (st', log', (rid request, None) # answers, w2)
     }"

text \<open>The roll at the top of the loop of \<open>writeBatch\<close>.\<close>

definition rollIfFull :: "nat \<Rightarrow> writeRequest \<Rightarrow> store \<Rightarrow> logState \<Rightarrow> world \<Rightarrow>
    go_error option \<times> store \<times> logState \<times> world" where
  "rollIfFull segmentSize request store log w =
     (if segmentHeaderSize < loffset log \<and> segmentSize < loffset log + recordSizeFor request
      then rollSegment store log (logSeq log + 1) w
      else (None, store, log, w))"

definition failBatch :: "store \<Rightarrow> logState \<Rightarrow> go_error \<Rightarrow> writeRequest list \<Rightarrow> world \<Rightarrow>
    store \<times> logState \<times> answer list \<times> world" where
  "failBatch store log err requests w =
     (case latch store err of (failure, st) \<Rightarrow> (st, log, respondAll requests failure, w))"

definition addBytesWritten :: "nat \<Rightarrow> store \<Rightarrow> store" where
  "addBytesWritten n store =
     store\<lparr>stats := (stats store)\<lparr>bytesWritten := bytesWritten (stats store) + of_nat n\<rparr>\<rparr>"

text \<open>
  The error of a write: the one the call returned, or \<open>io.ErrShortWrite\<close> when it reported
  fewer bytes without one.
\<close>

definition writeError :: "nat \<Rightarrow> errno option \<Rightarrow> bytes \<Rightarrow> go_error option" where
  "writeError written err payload =
     (case err of
        Some e \<Rightarrow> Some (ErrOs ''write'' e)
      | None \<Rightarrow> if written \<noteq> length payload then Some ErrShortWrite else None)"

partial_function (option) writeLoop ::
    "nat \<Rightarrow> store \<Rightarrow> logState \<Rightarrow> writeRequest list \<Rightarrow> world \<Rightarrow>
      (store \<times> logState \<times> answer list \<times> world) option" where
  "writeLoop segmentSize store log requests w =
     (if requests = [] then Some (store, log, [], w)
      else if logSeq log = maxSequence then Some (failBatch store log ErrWALSequenceExhausted requests w)
      else
        case rollIfFull segmentSize (hd requests) store log w of
          (Some err, st, log1, w1) \<Rightarrow> Some (failBatch st log1 err requests w1)
        | (None, st, log1, w1) \<Rightarrow>
            (let n = selectChunk segmentSize log1 requests 0 0;
                 chunk = take n requests;
                 payload = encodeBatch [] (logSeq log1) 0 chunk
             in case writeFile (lfile log1) payload w1 of
                  ((written, err), w2) \<Rightarrow>
                    (case writeError written err payload of
                       Some e \<Rightarrow>
                         Some (failBatch st log1 (ErrWriteLog (hname (lfile log1)) (loffset log1) e) requests w2)
                     | None \<Rightarrow>
                         do {
                           (st', log', answers, w3) \<leftarrow>
                             applyBatch st
                               (log1\<lparr>loffset := loffset log1 + written,
                                     bytesSinceSnapshot := bytesSinceSnapshot log1 + written\<rparr>)
                               chunk w2;
                           (st'', log'', answers', w4) \<leftarrow>
                             writeLoop segmentSize (addBytesWritten written st') log' (drop n requests) w3;
                           Some (st'', log'', answers @ answers', w4)
                         })))"

definition writeBatch :: "nat \<Rightarrow> store \<Rightarrow> logState \<Rightarrow> writeRequest list \<Rightarrow> world \<Rightarrow>
    (store \<times> logState \<times> answer list \<times> world) option" where
  "writeBatch segmentSize store log requests w =
     (case lastError (stats store) of
        Some failure \<Rightarrow> Some (store, log, respondAll requests failure, w)
      | None \<Rightarrow> writeLoop segmentSize store log requests w)"

section \<open>Taking requests from the channel\<close>

text \<open>
  \<open>drainWrites\<close> takes what is waiting in the channel, up to the first request that is not a
  write: it returns the batch, that request and what it left in the channel.
\<close>

definition isControl :: "writeRequest \<Rightarrow> bool" where
  "isControl request \<longleftrightarrow> rkind request = requestSync \<or> rkind request = requestClose"

fun drainFrom :: "writeRequest list \<Rightarrow> writeRequest list \<Rightarrow>
    writeRequest list \<times> writeRequest option \<times> writeRequest list" where
  "drainFrom batch [] = (batch, None, [])"
| "drainFrom batch (request # rest) =
     (if isControl request then (batch, Some request, rest) else drainFrom (batch @ [request]) rest)"

definition drainWrites :: "writeRequest \<Rightarrow> writeRequest list \<Rightarrow>
    writeRequest list \<times> writeRequest option \<times> writeRequest list" where
  "drainWrites first waiting = drainFrom [first] waiting"

end
