(* ===== verification/Cache_Recovery.thy ===== *)
theory Cache_Recovery
  imports Cache_Wal
begin

unbundle bit_operations_syntax

text \<open>
  \<open>src/cache/recovery.go\<close> and \<open>loadSnapshot\<close> of \<open>snapshot.go\<close>: reading a snapshot and the
  segments of the log back into a store. An error closes the file and is returned with the
  offset at which it was met; the store that was being filled is dropped by every caller
  then, so an error carries no store. A file is read through \<open>Stat\<close> and the bytes it has at
  that moment; each read may fail. The log message about a trimmed tail is left out.
\<close>

section \<open>What a snapshot says about the log\<close>

record snapshotState =
  loaded :: bool
  replaySequences :: "u64 list option"
  lowest :: u64
  highest :: u64

definition noSnapshot :: snapshotState where
  "noSnapshot = \<lparr>loaded = False, replaySequences = None, lowest = 0, highest = 0\<rparr>"

text \<open>\<open>newSnapshotState\<close>; \<open>sequences[0]\<close> exists because a shard count is never zero.\<close>

definition newSnapshotState :: "u64 list \<Rightarrow> bool \<Rightarrow> snapshotState" where
  "newSnapshotState sequences perShardReplay =
     \<lparr>loaded = True,
      replaySequences = (if perShardReplay then Some sequences else None),
      lowest = fold (\<lambda>q m. if q < m then q else m) (tl sequences) (hd sequences),
      highest = fold (\<lambda>q m. if m < q then q else m) (tl sequences) (hd sequences)\<rparr>"

section \<open>Loading a snapshot\<close>

definition fileBytes :: "handle \<Rightarrow> world \<Rightarrow> bytes" where
  "fileBytes f w = content (inodes w (hino f))"

text \<open>The sequences of the header: eight bytes per shard.\<close>

definition readSequences :: "nat \<Rightarrow> bytes \<Rightarrow> u64 list" where
  "readSequences shardCount sequenceBytes = map (\<lambda>i. Uint64 (drop (i * 8) sequenceBytes)) [0..<shardCount]"

text \<open>Lines 332 to 351: the checks of one entry, and its effect on the store.\<close>

definition loadEntry :: "u64 list \<Rightarrow> store \<Rightarrow> bytes \<Rightarrow> corruption + store" where
  "loadEntry sequences store payload =
     (if Checksum (drop (snapshotKeyLengthOffset - snapshotLengthSize) payload) \<noteq>
         Uint32 (slice (snapshotCRCOffset - snapshotLengthSize) (snapshotKeyLengthOffset - snapshotLengthSize) payload)
      then Inl CRCMismatch
      else
        let keyLength = unat (Uint16 (slice (snapshotKeyLengthOffset - snapshotLengthSize)
              (snapshotDeadlineOffset - snapshotLengthSize) payload));
            keyOffset = snapshotKeyOffset - snapshotLengthSize
        in if length payload - keyOffset < keyLength then Inl (KeyLengthExceeds keyLength)
           else
             let deadline = Uint64 (slice (snapshotDeadlineOffset - snapshotLengthSize)
                   (snapshotSequenceOffset - snapshotLengthSize) payload);
                 sequence = Uint64 (slice (snapshotSequenceOffset - snapshotLengthSize)
                   (snapshotKeyOffset - snapshotLengthSize) payload);
                 key = slice keyOffset (keyOffset + keyLength) payload;
                 snapshotShard = unat (hashKey key AND of_nat (length sequences - 1));
                 configuredShard = shardIndex store key
             in if sequences ! snapshotShard < sequence
                then Inl (EntrySequenceExceeds sequence (sequences ! snapshotShard))
                else if recoveryShard store = None \<or> recoveryShard store = Some configuredShard
                then Inr (applyRecoveredSet store key (drop (keyOffset + keyLength) payload) deadline sequence)
                else Inr store)"

text \<open>The loop over the entries, from \<open>offset\<close> to the end of the file.\<close>

function loadEntries :: "ctx \<Rightarrow> handle \<Rightarrow> bytes \<Rightarrow> u64 list \<Rightarrow> nat \<Rightarrow> store \<Rightarrow> world \<Rightarrow>
    (nat \<times> corruption + store) \<times> world" where
  "loadEntries c f data sequences offset store w =
     (if length data \<le> offset then (Inr store, w)
      else
        case ctxErr c w of
          (True, w1) \<Rightarrow> (Inl (offset, ContextCause), w1)
        | (False, w1) \<Rightarrow>
            if length data - offset < snapshotLengthSize then (Inl (offset, UnexpectedEOF), w1)
            else
              case fileCall f w1 of
                (Some e, w2) \<Rightarrow> (Inl (offset, OsCause e), w2)
              | (None, w2) \<Rightarrow>
                  let len = unat (Uint32 (slice offset (offset + snapshotLengthSize) data));
                      finish = offset + snapshotLengthSize + len
                  in if len < snapshotRecordFixedSize - snapshotLengthSize \<or> length data < finish
                     then (Inl (offset, UnexpectedEOF), w2)
                     else
                       case fileCall f w2 of
                         (Some e, w3) \<Rightarrow> (Inl (offset, OsCause e), w3)
                       | (None, w3) \<Rightarrow>
                           (case loadEntry sequences store (slice (offset + snapshotLengthSize) finish data) of
                              Inl cause \<Rightarrow> (Inl (offset, cause), w3)
                            | Inr st \<Rightarrow> loadEntries c f data sequences finish st w3))"
  by pat_completeness auto
termination
  by (relation "measure (\<lambda>(c, f, data, sequences, offset, store, w). length data - offset)")
    (auto simp: layout)

declare loadEntries.simps [simp del]

text \<open>The header checks, then the entries; the result is the state and the filled store.\<close>

definition loadFrom :: "ctx \<Rightarrow> handle \<Rightarrow> store \<Rightarrow> world \<Rightarrow>
    (nat \<times> corruption + snapshotState \<times> store) \<times> world" where
  "loadFrom c f store w =
     (case fileCall f w of
        (Some e, w1) \<Rightarrow> (Inl (0, OsCause e), w1)
      | (None, w1) \<Rightarrow>
          let data = fileBytes f w1
          in if length data < snapshotFixedHeaderSize then (Inl (0, UnexpectedEOF), w1)
             else
               case fileCall f w1 of
                 (Some e, w2) \<Rightarrow> (Inl (0, OsCause e), w2)
               | (None, w2) \<Rightarrow>
                   let fixed = take snapshotFixedHeaderSize data;
                       version = Uint16 (slice 4 6 fixed);
                       shardCount = Uint32 (slice 8 12 fixed)
                   in if take 4 fixed \<noteq> snapshotMagic then (Inl (0, UnknownMagic (take 4 fixed)), w2)
                      else if version \<noteq> formatVersion then (Inl (4, UnsupportedVersion version), w2)
                      else if Uint16 (slice 6 8 fixed) \<noteq> 0 then (Inl (6, UnsupportedFlags), w2)
                      else if shardCount = 0 \<or> shardCount AND (shardCount - 1) \<noteq> 0
                      then (Inl (8, InvalidShardCount shardCount), w2)
                      else
                        let mismatchedShards = (shardCount \<noteq> of_nat (length (shards store)));
                            headerSize = snapshotFixedHeaderSize + unat shardCount * 8
                        in if length data < headerSize then (Inl (snapshotFixedHeaderSize, UnexpectedEOF), w2)
                           else
                             case fileCall f w2 of
                               (Some e, w3) \<Rightarrow> (Inl (snapshotFixedHeaderSize, OsCause e), w3)
                             | (None, w3) \<Rightarrow>
                                 let sequences = readSequences (unat shardCount)
                                       (slice snapshotFixedHeaderSize headerSize data)
                                 in case loadEntries c f data sequences headerSize store w3 of
                                      (Inl err, w4) \<Rightarrow> (Inl err, w4)
                                    | (Inr st, w4) \<Rightarrow>
                                        (Inr (newSnapshotState sequences (\<not> mismatchedShards), st), w4))"

definition loadSnapshot :: "ctx \<Rightarrow> store \<Rightarrow> world \<Rightarrow> (snapshotState \<times> store) res \<times> world" where
  "loadSnapshot c store w =
     (case listSnapshots w of
        (Inl err, w1) \<Rightarrow> (Inl err, w1)
      | (Inr snaps, w1) \<Rightarrow>
          if snaps = [] then (Inr (noSnapshot, store), w1)
          else
            let path = fst (last snaps)
            in case openFile path w1 of
                 (Inl e, w2) \<Rightarrow> (Inl (ErrOs ''open snapshot'' e), w2)
               | (Inr f, w2) \<Rightarrow>
                   (case loadFrom c f store w2 of
                      (r, w3) \<Rightarrow>
                        (case r of
                           Inl (offset, cause) \<Rightarrow> Inl (ErrRecover path offset cause)
                         | Inr result \<Rightarrow> Inr result, snd (closeFile f w3))))"

section \<open>Replaying a segment\<close>

text \<open>The largest value of Go's \<open>int\<close> on a 64-bit platform.\<close>

definition maxInt :: nat where
  "maxInt = 2 ^ 63 - 1"

text \<open>What lines 334 to 382 do with one record whose checksum holds.\<close>

datatype record_step = StopReplay | BadRecord corruption | Replayed u64 store

text \<open>Lines 353 to 361: whether the record is newer than the snapshot of its shard.\<close>

definition shouldApply :: "store \<Rightarrow> snapshotState \<Rightarrow> key \<Rightarrow> u64 \<Rightarrow> bool" where
  "shouldApply store snapshot key recordSequence \<longleftrightarrow>
     (recoveryShard store = None \<or> recoveryShard store = Some (shardIndex store key)) \<and>
     (loaded snapshot \<longrightarrow>
        (case replaySequences snapshot of
           Some sequences \<Rightarrow> sequences ! shardIndex store key < recordSequence
         | None \<Rightarrow> lowest snapshot < recordSequence))"

definition replayRecord :: "u64 \<Rightarrow> snapshotState \<Rightarrow> u64 \<Rightarrow> bool \<Rightarrow> u64 \<Rightarrow> store \<Rightarrow> bytes \<Rightarrow> record_step" where
  "replayRecord firstSequence snapshot through firstRecord sequence store payload =
     (let op = payload ! (recordOpOffset - segmentLengthSize);
          keyLength = unat (Uint16 (slice (recordKeyLengthOffset - segmentLengthSize)
            (recordDeadlineOffset - segmentLengthSize) payload));
          deadline = Uint64 (slice (recordDeadlineOffset - segmentLengthSize)
            (recordSequenceOffset - segmentLengthSize) payload);
          recordSequence = Uint64 (slice (recordSequenceOffset - segmentLengthSize)
            (recordKeyOffset - segmentLengthSize) payload);
          keyOffset = recordKeyOffset - segmentLengthSize
      in if through < recordSequence then StopReplay
         else if length payload - keyOffset < keyLength then BadRecord (KeyLengthExceeds keyLength)
         else if sequence = maxSequence \<or> recordSequence \<noteq> sequence + 1
         then BadRecord (SequenceGap recordSequence sequence)
         else if firstRecord \<and> recordSequence \<noteq> firstSequence
         then BadRecord (SegmentStart firstSequence recordSequence)
         else
           let key = slice keyOffset (keyOffset + keyLength) payload;
               val = drop (keyOffset + keyLength) payload;
               apply = shouldApply store snapshot key recordSequence
           in if op = opSet then
                Replayed recordSequence
                  (if apply then applyRecoveredSet store key val deadline recordSequence else store)
              else if op = opDelete then
                (if deadline \<noteq> 0 then BadRecord DeleteHasDeadline
                 else if val \<noteq> [] then BadRecord DeleteHasValue
                 else Replayed recordSequence (if apply then applyDelete store key recordSequence else store))
              else BadRecord (UnknownOperation op))"

text \<open>A torn tail: the last segment is cut back to the last good record, any other is refused.\<close>

definition tornTail :: "bool \<Rightarrow> handle \<Rightarrow> nat \<Rightarrow> corruption \<Rightarrow> u64 \<Rightarrow> store \<Rightarrow> world \<Rightarrow>
    (nat \<times> corruption + nat \<times> u64 \<times> store) \<times> world" where
  "tornTail final f offset cause sequence store w =
     (if final then
        (case truncateFile f offset w of
           (Some e, w1) \<Rightarrow> (Inl (offset, OsCause e), w1)
         | (None, w1) \<Rightarrow> (Inr (offset, sequence, store), w1))
      else (Inl (offset, cause), w))"

function recoverRecords :: "ctx \<Rightarrow> handle \<Rightarrow> u64 \<Rightarrow> bool \<Rightarrow> snapshotState \<Rightarrow> u64 \<Rightarrow> bytes \<Rightarrow>
    nat \<Rightarrow> u64 \<Rightarrow> bool \<Rightarrow> store \<Rightarrow> world \<Rightarrow> (nat \<times> corruption + nat \<times> u64 \<times> store) \<times> world" where
  "recoverRecords c f firstSequence final snapshot through data offset sequence firstRecord store w =
     (if length data \<le> offset then (Inr (offset, sequence, store), w)
      else
        case ctxErr c w of
          (True, w1) \<Rightarrow> (Inl (offset, ContextCause), w1)
        | (False, w1) \<Rightarrow>
            if length data - offset < segmentLengthSize
            then tornTail final f offset UnexpectedEOF sequence store w1
            else
              case fileCall f w1 of
                (Some e, w2) \<Rightarrow> (Inl (offset, OsCause e), w2)
              | (None, w2) \<Rightarrow>
                  let len = unat (Uint32 (slice offset (offset + segmentLengthSize) data));
                      finish = offset + segmentLengthSize + len
                  in if len < recordFixedSize - segmentLengthSize \<or> length data < finish
                     then tornTail final f offset UnexpectedEOF sequence store w2
                     else if maxInt < len then (Inl (offset, PlatformLimit len), w2)
                     else
                       case fileCall f w2 of
                         (Some e, w3) \<Rightarrow> (Inl (offset, OsCause e), w3)
                       | (None, w3) \<Rightarrow>
                           let payload = slice (offset + segmentLengthSize) finish data;
                               expectedCRC = Uint32 (slice (recordCRCOffset - segmentLengthSize)
                                 (recordOpOffset - segmentLengthSize) payload)
                           in if Checksum (drop (recordOpOffset - segmentLengthSize) payload) \<noteq> expectedCRC
                              then tornTail (final \<and> finish = length data) f offset CRCMismatch sequence store w3
                              else
                                case replayRecord firstSequence snapshot through firstRecord sequence store payload of
                                  StopReplay \<Rightarrow> (Inr (offset, sequence, store), w3)
                                | BadRecord cause \<Rightarrow> (Inl (offset, cause), w3)
                                | Replayed recordSequence st \<Rightarrow>
                                    recoverRecords c f firstSequence final snapshot through data finish
                                      recordSequence False st w3)"
  by pat_completeness auto
termination
  by (relation "measure (\<lambda>(c, f, q, final, snapshot, through, data, offset, sequence, b, store, w).
        length data - offset)") (auto simp: layout)

declare recoverRecords.simps [simp del]

definition replayFile :: "ctx \<Rightarrow> handle \<Rightarrow> u64 \<Rightarrow> bool \<Rightarrow> u64 \<Rightarrow> snapshotState \<Rightarrow> u64 \<Rightarrow> store \<Rightarrow> world \<Rightarrow>
    (nat \<times> corruption + nat \<times> u64 \<times> store) \<times> world" where
  "replayFile c f firstSequence final previousSequence snapshot through store w =
     (case fileCall f w of
        (Some e, w1) \<Rightarrow> (Inl (0, OsCause e), w1)
      | (None, w1) \<Rightarrow>
          let data = fileBytes f w1
          in if length data < segmentHeaderSize then (Inl (0, UnexpectedEOF), w1)
             else
               case fileCall f w1 of
                 (Some e, w2) \<Rightarrow> (Inl (0, OsCause e), w2)
               | (None, w2) \<Rightarrow>
                   let header = take segmentHeaderSize data; version = Uint16 (slice 4 6 header)
                   in if take 4 header \<noteq> segmentMagic then (Inl (0, UnknownMagic (take 4 header)), w2)
                      else if version \<noteq> formatVersion then (Inl (4, UnsupportedVersion version), w2)
                      else if Uint16 (slice 6 8 header) \<noteq> 0 then (Inl (6, UnsupportedFlags), w2)
                      else
                        case recoverRecords c f firstSequence final snapshot through data segmentHeaderSize
                               previousSequence True store w2 of
                          (Inl err, w3) \<Rightarrow> (Inl err, w3)
                        | (Inr (offset, sequence, st), w3) \<Rightarrow>
                            (case fileCall f w3 of
                               (Some e, w4) \<Rightarrow> (Inl (offset, OsCause e), w4)
                             | (None, w4) \<Rightarrow> (Inr (offset, sequence, st), w4)))"

definition recoverSegment :: "ctx \<Rightarrow> store \<Rightarrow> seqfile \<Rightarrow> bool \<Rightarrow> u64 \<Rightarrow> snapshotState \<Rightarrow> u64 \<Rightarrow> world \<Rightarrow>
    (handle \<times> nat \<times> u64 \<times> store) res \<times> world" where
  "recoverSegment c store segment final previousSequence snapshot through w =
     (case openFile (fst segment) w of
        (Inl e, w1) \<Rightarrow> (Inl (ErrOs ''open segment'' e), w1)
      | (Inr f, w1) \<Rightarrow>
          (case replayFile c f (snd segment) final previousSequence snapshot through store w1 of
             (Inl (offset, cause), w2) \<Rightarrow>
               (Inl (ErrRecover (fst segment) offset cause), snd (closeFile f w2))
           | (Inr (offset, sequence, st), w2) \<Rightarrow> (Inr (f, offset, sequence, st), w2)))"

section \<open>Replaying the log\<close>

text \<open>The last index whose segment starts at or before \<open>firstRequired\<close>; 0 when there is none.\<close>

definition startIndex :: "u64 \<Rightarrow> seqfile list \<Rightarrow> nat" where
  "startIndex firstRequired segments =
     fold (\<lambda>i start. if snd (segments ! i) \<le> firstRequired then i else start) [0..<length segments] 0"

definition firstRequired :: "snapshotState \<Rightarrow> u64" where
  "firstRequired snapshot = (if lowest snapshot \<noteq> maxSequence then lowest snapshot + 1 else lowest snapshot)"

text \<open>The loop of \<open>recoverLog\<close>; the file of the last segment stays open.\<close>

fun recoverSegments :: "ctx \<Rightarrow> store \<Rightarrow> snapshotState \<Rightarrow> u64 \<Rightarrow> seqfile list \<Rightarrow> world \<Rightarrow>
    (handle \<times> nat \<times> u64 \<times> store) res \<times> world" where
  "recoverSegments c store snapshot lastSequence [] w = (Inl (ErrContext ''no segment''), w)"
| "recoverSegments c store snapshot lastSequence (segment # rest) w =
     (case ctxErr c w of
        (True, w1) \<Rightarrow> (Inl (ErrContext (fst segment)), w1)
      | (False, w1) \<Rightarrow>
          (case recoverSegment c store segment (rest = []) lastSequence snapshot maxSequence w1 of
             (Inl err, w2) \<Rightarrow> (Inl err, w2)
           | (Inr (f, offset, sequence, st), w2) \<Rightarrow>
               if rest = [] then (Inr (f, offset, sequence, st), w2)
               else
                 case closeFile f w2 of
                   (Some e, w3) \<Rightarrow> (Inl (ErrOs ''close recovered segment'' e), w3)
                 | (None, w3) \<Rightarrow> recoverSegments c st snapshot sequence rest w3))"

definition setLogSequence :: "u64 \<Rightarrow> store \<Rightarrow> store" where
  "setLogSequence sequence store = store\<lparr>logSequence := sequence\<rparr>"

text \<open>The branch of \<open>recoverLog\<close> for a directory without segments.\<close>

definition recoverEmpty :: "snapshotState \<Rightarrow> store \<Rightarrow> world \<Rightarrow> (logState \<times> store) res \<times> world" where
  "recoverEmpty snapshot store w =
     (if loaded snapshot \<and> lowest snapshot \<noteq> highest snapshot
      then (Inl (ErrNoRetainedWAL (lowest snapshot) (highest snapshot)), w)
      else if loaded snapshot \<and> highest snapshot = maxSequence
      then (Inl (ErrSequenceSpaceExhausted (highest snapshot)), w)
      else
        let nextSequence = (if loaded snapshot then highest snapshot + 1 else 1)
        in case createSegment nextSequence w of
             (Inl err, w1) \<Rightarrow> (Inl err, w1)
           | (Inr f, w1) \<Rightarrow>
               (Inr (\<lparr>lfile = f, loffset = segmentHeaderSize, logSeq = nextSequence - 1, bytesSinceSnapshot = 0\<rparr>,
                     setLogSequence (nextSequence - 1) store), w1))"

definition recoverLog :: "ctx \<Rightarrow> store \<Rightarrow> world \<Rightarrow> (logState \<times> store) res \<times> world" where
  "recoverLog c store w =
     (case loadSnapshot c store w of
        (Inl err, w1) \<Rightarrow> (Inl err, w1)
      | (Inr (snapshot, store1), w1) \<Rightarrow>
          (case listSegments w1 of
             (Inl err, w2) \<Rightarrow> (Inl err, w2)
           | (Inr segments, w2) \<Rightarrow>
               if segments = [] then recoverEmpty snapshot store1 w2
               else if loaded snapshot \<and> firstRequired snapshot < snd (hd segments)
               then (Inl (ErrGapAfterSnapshot (fst (hd segments)) (lowest snapshot)), w2)
               else if \<not> loaded snapshot \<and> 1 < snd (hd segments)
               then (Inl (ErrOldestRetained (fst (hd segments)) (snd (hd segments))), w2)
               else
                 let start = (if loaded snapshot then startIndex (firstRequired snapshot) segments else 0);
                     previousSequence = (if loaded snapshot then snd (segments ! start) - 1 else 0)
                 in case recoverSegments c store1 snapshot previousSequence (drop start segments) w2 of
                      (Inl err, w3) \<Rightarrow> (Inl err, w3)
                    | (Inr (f, offset, lastSequence, st), w3) \<Rightarrow>
                        if loaded snapshot \<and> lastSequence < highest snapshot
                        then (Inl (ErrGapAfterWAL lastSequence (highest snapshot)), snd (closeFile f w3))
                        else (Inr (\<lparr>lfile = f, loffset = offset, logSeq = lastSequence, bytesSinceSnapshot = 0\<rparr>,
                                   setLogSequence lastSequence st), w3)))"

section \<open>The durable image for compaction\<close>

fun compactSegments :: "ctx \<Rightarrow> store \<Rightarrow> snapshotState \<Rightarrow> u64 \<Rightarrow> u64 \<Rightarrow> seqfile list \<Rightarrow> world \<Rightarrow>
    (u64 \<times> store) res \<times> world" where
  "compactSegments c store snapshot through lastSequence [] w = (Inr (lastSequence, store), w)"
| "compactSegments c store snapshot through lastSequence (segment # rest) w =
     (if through < snd segment then (Inr (lastSequence, store), w)
      else
        case ctxErr c w of
          (True, w1) \<Rightarrow> (Inl (ErrContext (fst segment)), w1)
        | (False, w1) \<Rightarrow>
            (case recoverSegment c store segment False lastSequence snapshot through w1 of
               (Inl err, w2) \<Rightarrow> (Inl err, w2)
             | (Inr (f, offset, sequence, st), w2) \<Rightarrow>
                 (case closeFile f w2 of
                    (Some e, w3) \<Rightarrow> (Inl (ErrOs ''close compacted segment'' e), w3)
                  | (None, w3) \<Rightarrow> compactSegments c st snapshot through sequence rest w3)))"

definition recoverDurableImage :: "ctx \<Rightarrow> store \<Rightarrow> u64 \<Rightarrow> world \<Rightarrow> store res \<times> world" where
  "recoverDurableImage c store through w =
     (case loadSnapshot c store w of
        (Inl err, w1) \<Rightarrow> (Inl err, w1)
      | (Inr (snapshot, store1), w1) \<Rightarrow>
          if loaded snapshot \<and> through < highest snapshot
          then (Inl (ErrSnapshotNewer (highest snapshot) through), w1)
          else
            case listSegments w1 of
              (Inl err, w2) \<Rightarrow> (Inl err, w2)
            | (Inr segments, w2) \<Rightarrow>
                if loaded snapshot \<and> highest snapshot = through \<and>
                   (segments = [] \<or> through < snd (hd segments))
                then (Inr (setLogSequence through store1), w2)
                else if loaded snapshot \<and> (segments = [] \<or> firstRequired snapshot < snd (hd segments))
                then (Inl (ErrCompactionGap (lowest snapshot) through), w2)
                else if \<not> loaded snapshot \<and> (segments = [] \<or> 1 < snd (hd segments))
                then (Inl (ErrCompactionGap 0 through), w2)
                else
                  let start = (if loaded snapshot then startIndex (firstRequired snapshot) segments else 0);
                      previousSequence = (if loaded snapshot then snd (segments ! start) - 1 else 0)
                  in case compactSegments c store1 snapshot through previousSequence (drop start segments) w2 of
                       (Inl err, w3) \<Rightarrow> (Inl err, w3)
                     | (Inr (lastSequence, st), w3) \<Rightarrow>
                         if lastSequence \<noteq> through then (Inl (ErrCompactionGap lastSequence through), w3)
                         else (Inr (setLogSequence through st), w3))"

end
