(* ===== verification/Cache_Replay.thy ===== *)
theory Cache_Replay
  imports Cache_Recovery Cache_Image
begin

text \<open>
  What recovery reads back from the bytes of a segment. The bytes of a list of records are
  replayed to exactly those records, in order and filtered by the snapshot; a segment cut
  inside a record is replayed up to the cut and, when it is the last segment, trimmed to it.
  The runs here meet no failing call (\<open>calm\<close>).
\<close>

section \<open>Records as bytes\<close>

definition rec_request :: "logrec \<Rightarrow> writeRequest" where
  "rec_request r =
     (case r of
        LSet k v d q \<Rightarrow> \<lparr>rkind = requestSet, rkey = k, rvalue = v, rdeadline = d, rid = 0\<rparr>
      | LDel k q \<Rightarrow> \<lparr>rkind = requestDelete, rkey = k, rvalue = [], rdeadline = 0, rid = 0\<rparr>)"

definition encodeRec :: "logrec \<Rightarrow> bytes" where
  "encodeRec r = appendRecord [] (lseq r) (rec_request r)"

abbreviation encodeRecs :: "logrec list \<Rightarrow> bytes" where
  "encodeRecs rs \<equiv> concat (map encodeRec rs)"

text \<open>The sizes the length fields can hold; \<open>validateRecordSize\<close> admits no others.\<close>

definition good_rec :: "logrec \<Rightarrow> bool" where
  "good_rec r \<longleftrightarrow> length (lkey r) \<le> 65535 \<and> recordSizeFor (rec_request r) < 2 ^ 32 + segmentLengthSize"

text \<open>Records whose sequences follow \<open>q\<close> one by one.\<close>

fun chain :: "u64 \<Rightarrow> logrec list \<Rightarrow> bool" where
  "chain q [] = True"
| "chain q (r # rs) \<longleftrightarrow> q \<noteq> maxSequence \<and> lseq r = q + 1 \<and> good_rec r \<and> chain (lseq r) rs"

definition last_seq :: "u64 \<Rightarrow> logrec list \<Rightarrow> u64" where
  "last_seq q rs = (if rs = [] then q else lseq (last rs))"

lemma last_seq_simps [simp]:
  "last_seq q [] = q" "last_seq q (r # rs) = last_seq (lseq r) rs"
  "last_seq q (rs @ ss) = last_seq (last_seq q rs) ss"
  by (auto simp: last_seq_def)

lemma chain_append [simp]: "chain q (rs @ ss) \<longleftrightarrow> chain q rs \<and> chain (last_seq q rs) ss"
  by (induction rs arbitrary: q) auto

lemma chain_unat: "chain q rs \<Longrightarrow> unat (last_seq q rs) = unat q + length rs"
proof (induction rs arbitrary: q)
  case (Cons r rs)
  then have "unat (lseq r) = Suc (unat q)" and "unat (last_seq (lseq r) rs) = unat (lseq r) + length rs"
    using word_succ_neq_zero [of q] by (auto simp: maxSequence_def)
  then show ?case by simp
qed simp

lemma chain_bounds: "chain q rs \<Longrightarrow> r \<in> set rs \<Longrightarrow> q < lseq r \<and> lseq r \<le> last_seq q rs"
proof (induction rs arbitrary: q)
  case (Cons x xs)
  have q: "unat (lseq x) = Suc (unat q)"
    using Cons.prems word_succ_neq_zero [of q] by (simp add: maxSequence_def)
  have l: "unat (last_seq (lseq x) xs) = unat (lseq x) + length xs"
    using Cons.prems(1) by (intro chain_unat) auto
  show ?case
  proof (cases "r = x")
    case True
    then show ?thesis using q l by (simp add: word_less_nat_alt word_le_nat_alt)
  next
    case False
    then have "lseq x < lseq r \<and> lseq r \<le> last_seq (lseq x) xs"
      using Cons.IH [of "lseq x"] Cons.prems by auto
    then show ?thesis using q by (auto simp: word_less_nat_alt)
  qed
qed simp

lemma chain_good: "chain q rs \<Longrightarrow> r \<in> set rs \<Longrightarrow> good_rec r"
  by (induction rs arbitrary: q) auto

section \<open>Decoding one record\<close>

definition apply_store :: "logrec \<Rightarrow> store \<Rightarrow> store" where
  "apply_store r s = (case r of LSet k v d q \<Rightarrow> applyRecoveredSet s k v d q | LDel k q \<Rightarrow> applyDelete s k q)"

definition replay_one :: "snapshotState \<Rightarrow> logrec \<Rightarrow> store \<Rightarrow> store" where
  "replay_one snapshot r s = (if shouldApply s snapshot (lkey r) (lseq r) then apply_store r s else s)"

abbreviation payloadOf :: "logrec \<Rightarrow> bytes" where
  "payloadOf r \<equiv> recordPayload (lseq r) (rec_request r)"

lemma rec_request_simps [simp]:
  "rkey (rec_request r) = lkey r"
  "rkind (rec_request (LSet k v d q)) = requestSet" "rvalue (rec_request (LSet k v d q)) = v"
  "rdeadline (rec_request (LSet k v d q)) = d"
  "rkind (rec_request (LDel k q)) = requestDelete" "rvalue (rec_request (LDel k q)) = []"
  "rdeadline (rec_request (LDel k q)) = 0"
  by (simp_all add: rec_request_def split: logrec.splits)

lemma replayRecord_payload:
  assumes "good_rec r" and "lseq r \<le> through" and "sequence \<noteq> maxSequence" and "lseq r = sequence + 1"
    and "first \<Longrightarrow> lseq r = firstSequence"
  shows "replayRecord firstSequence snapshot through first sequence s (payloadOf r)
    = Replayed (lseq r) (replay_one snapshot r s)"
proof -
  note f = recordPayload_fields [where q = "lseq r" and req = "rec_request r"]
    and v = recordPayload_value [where q = "lseq r" and req = "rec_request r"]
  have len: "unat (of_nat (length (lkey r)) :: u16) = length (lkey r)"
    using assms(1) by (intro unat_of_nat_small) (simp add: good_rec_def)
  have v': "drop (23 + length (lkey r)) (payloadOf r) = rvalue (rec_request r)"
    and k': "slice 23 (23 + length (lkey r)) (payloadOf r) = lkey r"
    using v f(7) by simp_all
  have op: "opDelete \<noteq> opSet" by (simp add: layout)
  have gap: "\<not> (sequence = maxSequence \<or> lseq r \<noteq> sequence + 1)" "\<not> (first \<and> lseq r \<noteq> firstSequence)"
    "\<not> through < lseq r"
    using assms by auto
  have kl: "\<not> length (payloadOf r) - 23 < length (lkey r)"
    by (simp add: length_recordPayload)
  have q: "Uint64 (slice 15 23 (payloadOf r)) = lseq r" "Uint64 (slice 7 15 (payloadOf r)) = rdeadline (rec_request r)"
    "unat (Uint16 (slice 5 7 (payloadOf r))) = length (lkey r)"
    using f len by simp_all
  show ?thesis
  proof (cases r)
    case (LSet k v d sq)
    then show ?thesis
      using f(3) v' k' gap kl q
      by (simp del: Uint_Put add: replayRecord_def layout Let_def replay_one_def apply_store_def)
  next
    case (LDel k sq)
    then show ?thesis
      using f(3) v' k' gap kl q
      by (simp del: Uint_Put add: replayRecord_def layout Let_def replay_one_def apply_store_def)
  qed
qed

lemma encodeRec_payload: "encodeRec r = PutUint32 (of_nat (length (payloadOf r))) @ payloadOf r"
  by (simp add: encodeRec_def appendRecord_payload)

lemma length_encodeRec: "length (encodeRec r) = 4 + length (payloadOf r)"
  by (simp add: encodeRec_payload)

lemma length_payloadOf:
  assumes "good_rec r"
  shows "unat (of_nat (length (payloadOf r)) :: u32) = length (payloadOf r)"
    "23 \<le> length (payloadOf r)" "length (payloadOf r) < 2 ^ 32"
proof -
  show bound: "23 \<le> length (payloadOf r)" "length (payloadOf r) < 2 ^ 32"
    using assms by (simp_all add: good_rec_def length_recordPayload recordSizeFor_def layout)
  then show "unat (of_nat (length (payloadOf r)) :: u32) = length (payloadOf r)"
    by (intro unat_of_nat_small) simp
qed

section \<open>Runs without failures\<close>

definition calm :: "world \<Rightarrow> bool" where
  "calm w \<longleftrightarrow> faults w = [] \<and> cancels w = []"

definition is_open :: "handle \<Rightarrow> world \<Rightarrow> bool" where
  "is_open f w \<longleftrightarrow> hid f \<notin> set (closedHandles w)"

lemma calm_calls [simp]:
  "calm w \<Longrightarrow> sysCall w = (None, w)"
  "calm w \<Longrightarrow> ctxErr c w = (False, w)"
  "calm w \<Longrightarrow> is_open f w \<Longrightarrow> fileCall f w = (None, w)"
  by (auto simp: calm_def sysCall_def nextFault_def ctxErr_def fileCall_def is_open_def split: ctx.splits)

section \<open>Replaying the bytes of a segment\<close>

lemma recoverRecords_step:
  assumes calm: "calm w" "is_open f w" and data: "data = pre @ encodeRec r @ post"
    and r: "good_rec r" "lseq r \<le> through" "sequence \<noteq> maxSequence" "lseq r = sequence + 1"
      "first \<Longrightarrow> lseq r = firstSequence"
  shows "recoverRecords c f firstSequence final snapshot through data (length pre) sequence first s w =
    recoverRecords c f firstSequence final snapshot through data (length (pre @ encodeRec r)) (lseq r) False
      (replay_one snapshot r s) w"
proof -
  let ?p = "payloadOf r" and ?L = "PutUint32 (of_nat (length (payloadOf r)))"
  note len = length_payloadOf [OF r(1)]
  have data': "data = pre @ ?L @ ?p @ post" using data by (simp add: encodeRec_payload)
  have sl: "slice (length pre) (length pre + 4) data = ?L"
    unfolding data' by simp
  have sp: "slice (length pre + 4) (length pre + 4 + length ?p) data = ?p"
    unfolding data' using slice_append_at [of "length pre + 4" "pre @ ?L" "length pre + 4 + length ?p" ?p post] by simp
  have lens: "length data = length pre + 4 + length ?p + length post"
    by (simp add: data')
  have crc: "Checksum (drop 4 ?p) = Uint32 (slice 0 4 ?p)"
    by (simp add: recordPayload_fields)
  have mi: "\<not> maxInt < length ?p" using len(3) by (simp add: maxInt_def)
  show ?thesis
    by (subst recoverRecords.simps)
      (use calm sl sp lens crc len mi replayRecord_payload [OF r] in
        \<open>simp add: layout Let_def length_encodeRec add.assoc\<close>)
qed

lemma recoverRecords_chain:
  assumes "calm w" "is_open f w" and "data = pre @ encodeRecs rs @ post"
    and "chain sequence rs" "last_seq sequence rs \<le> through"
    and "first \<Longrightarrow> rs \<noteq> [] \<Longrightarrow> lseq (hd rs) = firstSequence"
  shows "recoverRecords c f firstSequence final snapshot through data (length pre) sequence first s w =
    recoverRecords c f firstSequence final snapshot through data (length (pre @ encodeRecs rs))
      (last_seq sequence rs) (first \<and> rs = []) (fold (replay_one snapshot) rs s) w"
  using assms(3-)
proof (induction rs arbitrary: pre sequence first s)
  case Nil
  then show ?case by simp
next
  case (Cons r rs)
  have le: "lseq r \<le> through"
    using chain_bounds [OF Cons.prems(2), of r] Cons.prems(3) order_trans by auto
  have "recoverRecords c f firstSequence final snapshot through data (length pre) sequence first s w =
    recoverRecords c f firstSequence final snapshot through data (length (pre @ encodeRec r)) (lseq r) False
      (replay_one snapshot r s) w"
    by (rule recoverRecords_step [OF assms(1,2), where post = "encodeRecs rs @ post"])
      (use Cons.prems le in auto)
  also have "\<dots> = recoverRecords c f firstSequence final snapshot through data
      (length ((pre @ encodeRec r) @ encodeRecs rs)) (last_seq (lseq r) rs) (False \<and> rs = [])
      (fold (replay_one snapshot) rs (replay_one snapshot r s)) w"
    by (rule Cons.IH) (use Cons.prems in auto)
  finally show ?case by simp
qed

text \<open>A torn tail: a proper beginning of the bytes of one record.\<close>

definition torn :: "bytes \<Rightarrow> bool" where
  "torn t \<longleftrightarrow> (\<exists>r. good_rec r \<and> length t < length (encodeRec r) \<and> t = take (length t) (encodeRec r))"

lemma recoverRecords_torn:
  assumes calm: "calm w" "is_open f w" and t: "torn t" "t \<noteq> []"
  shows "recoverRecords c f firstSequence final snapshot through (pre @ t) (length pre) sequence first s w =
    tornTail final f (length pre) UnexpectedEOF sequence s w"
proof -
  from t obtain r where r: "good_rec r" "length t < length (encodeRec r)" "t = take (length t) (encodeRec r)"
    by (auto simp: torn_def)
  note len = length_payloadOf [OF r(1)]
  show ?thesis
  proof (cases "length t < 4")
    case True
    then show ?thesis
      using calm t(2) by (subst recoverRecords.simps) (simp add: layout)
  next
    case False
    have "slice (length pre) (length pre + 4) (pre @ t) = take 4 (encodeRec r)"
      using False by (simp add: slice_def) (metis r(3) min_def not_less take_take)
    then have sl: "slice (length pre) (length pre + 4) (pre @ t) = PutUint32 (of_nat (length (payloadOf r)))"
      by (simp add: encodeRec_payload)
    have "length t < 4 + length (payloadOf r)" using r(2) by (simp add: length_encodeRec)
    then show ?thesis
      using calm False t(2) sl len
      by (subst recoverRecords.simps) (simp add: layout Let_def)
  qed
qed

lemma recoverRecords_end:
  "recoverRecords c f firstSequence final snapshot through data (length data) sequence first s w =
     (Inr (length data, sequence, s), w)"
  by (subst recoverRecords.simps) simp

section \<open>Whatever is accepted was written\<close>

text \<open>
  The converse: from any bytes, and whatever calls fail, a replay that succeeds has read
  exactly the encoding of a chain of records and applied those.
\<close>

lemma drop_slice: "lo \<le> hi \<Longrightarrow> drop lo xs = slice lo hi xs @ drop hi xs"
  by (metis append_take_drop_id drop_drop le_add_diff_inverse2 slice_def)

lemma payload_split:
  assumes "23 + kl \<le> length p"
  shows "p = slice 0 4 p @ [p ! 4] @ slice 5 7 p @ slice 7 15 p @ slice 15 23 p @ slice 23 (23 + kl) p @ drop (23 + kl) p"
proof -
  have "p = slice 0 4 p @ drop 4 p" using drop_slice [of 0 4 p] by simp
  also have "drop 4 p = [p ! 4] @ drop 5 p" using Cons_nth_drop_Suc [of 4 p] assms by (simp add: eval_nat_numeral)
  also have "drop 5 p = slice 5 7 p @ drop 7 p" by (rule drop_slice) simp
  also have "drop 7 p = slice 7 15 p @ drop 15 p" by (rule drop_slice) simp
  also have "drop 15 p = slice 15 23 p @ drop 23 p" by (rule drop_slice) simp
  also have "drop 23 p = slice 23 (23 + kl) p @ drop (23 + kl) p" by (rule drop_slice) simp
  finally show ?thesis by simp
qed

text \<open>The record a payload stands for.\<close>

definition decodePayload :: "bytes \<Rightarrow> logrec" where
  "decodePayload p =
     (let kl = unat (Uint16 (slice 5 7 p)); q = Uint64 (slice 15 23 p); k = slice 23 (23 + kl) p
      in if p ! 4 = opSet then LSet k (drop (23 + kl) p) (Uint64 (slice 7 15 p)) q else LDel k q)"

lemma decodePayload_correct:
  assumes crc: "Checksum (drop 4 p) = Uint32 (slice 0 4 p)" and kl: "23 + unat (Uint16 (slice 5 7 p)) \<le> length p"
    and op: "p ! 4 = opSet \<or> p ! 4 = opDelete \<and> Uint64 (slice 7 15 p) = 0 \<and> drop (23 + unat (Uint16 (slice 5 7 p))) p = []"
    and len: "length p < 2 ^ 32"
  shows "payloadOf (decodePayload p) = p" "good_rec (decodePayload p)"
proof -
  let ?kl = "unat (Uint16 (slice 5 7 p))"
  define r where "r = decodePayload p"
  note split = payload_split [OF kl]
  have lens: "length (slice 0 4 p) = 4" "length (slice 5 7 p) = 2" "length (slice 7 15 p) = 8"
    "length (slice 15 23 p) = 8" "length (slice 23 (23 + ?kl) p) = ?kl"
    using kl by (simp_all add: length_slice)
  have f: "lkey r = slice 23 (23 + ?kl) p" "lseq r = Uint64 (slice 15 23 p)"
    "rvalue (rec_request r) = drop (23 + ?kl) p" "rdeadline (rec_request r) = Uint64 (slice 7 15 p)"
    "(if rkind (rec_request r) = requestSet then opSet else opDelete) = p ! 4"
    using op by (auto simp: r_def decodePayload_def Let_def layout)
  have "(of_nat (length (lkey r)) :: u16) = Uint16 (slice 5 7 p)"
    using lens(5) f(1) by simp
  then have body: "recordBody (lseq r) (rec_request r) = [p ! 4] @ slice 5 7 p @ slice 7 15 p @ slice 15 23 p @
      slice 23 (23 + ?kl) p @ drop (23 + ?kl) p"
    using f lens by (simp add: recordBody_def)
  have "drop 4 p = recordBody (lseq r) (rec_request r)"
    using split lens(1) unfolding body by (metis append_eq_conv_conj)
  then have "recordPayload (lseq r) (rec_request r) = slice 0 4 p @ drop 4 p"
    using crc lens(1) by (simp add: recordPayload_def)
  then show p: "payloadOf (decodePayload p) = p"
    using drop_slice [of 0 4 p] by (simp add: r_def)
  have "?kl < 2 ^ 16" using unsigned_less [of "Uint16 (slice 5 7 p)"] by simp
  then have "length (lkey r) \<le> 65535" using f(1) lens(5) by simp
  moreover have "recordSizeFor (rec_request r) = 4 + length p"
    using length_recordPayload [of "lseq r" "rec_request r"] p by (simp add: r_def recordSizeFor_def layout)
  ultimately show "good_rec (decodePayload p)"
    using len by (simp add: good_rec_def r_def layout)
qed

lemma replayRecord_Replayed:
  assumes r: "replayRecord firstSequence snapshot through first sequence s p = Replayed q' s'"
    and crc: "Checksum (drop 4 p) = Uint32 (slice 0 4 p)" and len: "23 \<le> length p" "length p < 2 ^ 32"
  shows "payloadOf (decodePayload p) = p" "chain sequence [decodePayload p]" "q' = lseq (decodePayload p)"
    "q' \<le> through" "first \<Longrightarrow> q' = firstSequence" "s' = replay_one snapshot (decodePayload p) s"
proof -
  let ?kl = "unat (Uint16 (slice 5 7 p))" and ?r = "decodePayload p"
  have kl: "23 + ?kl \<le> length p" and q: "q' = Uint64 (slice 15 23 p)" "sequence \<noteq> maxSequence" "q' = sequence + 1"
    and op: "p ! 4 = opSet \<or> p ! 4 = opDelete \<and> Uint64 (slice 7 15 p) = 0 \<and> drop (23 + ?kl) p = []"
    and th: "q' \<le> through" "first \<Longrightarrow> q' = firstSequence"
    using r len by (auto simp: replayRecord_def layout Let_def split: if_splits)
  note d = decodePayload_correct [OF crc kl op len(2)]
  show "payloadOf ?r = p" by (rule d(1))
  show q': "q' = lseq ?r" using q(1) by (simp add: decodePayload_def Let_def)
  show "q' \<le> through" "first \<Longrightarrow> q' = firstSequence" using th by auto
  show "chain sequence [?r]" using q d(2) q' by simp
  have "replayRecord firstSequence snapshot through first sequence s (payloadOf ?r) = Replayed (lseq ?r) (replay_one snapshot ?r s)"
    by (rule replayRecord_payload) (use d q q' th in auto)
  then show "s' = replay_one snapshot ?r s" using r d(1) by simp
qed

text \<open>One turn of the loop: it stops where it is, or it has replayed one record and goes on.\<close>

lemma tornTail_Inr:
  "tornTail final f off cause q s w = (Inr (off', q', s'), w') \<Longrightarrow> off' = off \<and> q' = q \<and> s' = s"
  by (auto simp: tornTail_def split: if_splits prod.splits option.splits)

lemma recoverRecords_turn:
  assumes r: "recoverRecords c f fs final snapshot through data off q first s w = (Inr (off', q', s'), w')"
    and off: "off \<le> length data"
  shows "off' = off \<and> q' = q \<and> s' = s \<or>
    (\<exists>x w1. off + length (encodeRec x) \<le> length data \<and> slice off (off + length (encodeRec x)) data = encodeRec x \<and>
       chain q [x] \<and> lseq x \<le> through \<and> (first \<longrightarrow> lseq x = fs) \<and>
       recoverRecords c f fs final snapshot through data (off + length (encodeRec x)) (lseq x) False
         (replay_one snapshot x s) w1 = (Inr (off', q', s'), w'))"
proof -
  let ?len = "unat (Uint32 (slice off (off + 4) data))"
  let ?p = "slice (off + 4) (off + 4 + ?len) data"
  have "off' = off \<and> q' = q \<and> s' = s \<or>
      (23 \<le> ?len \<and> off + 4 + ?len \<le> length data \<and> Checksum (drop 4 ?p) = Uint32 (slice 0 4 ?p) \<and>
       (\<exists>qr st w1. replayRecord fs snapshot through first q s ?p = Replayed qr st \<and>
          recoverRecords c f fs final snapshot through data (off + 4 + ?len) qr False st w1 = (Inr (off', q', s'), w')))"
    using r off
    by (subst (asm) recoverRecords.simps)
      (auto simp: layout Let_def not_less split: if_splits prod.splits option.splits bool.splits record_step.splits
        dest!: tornTail_Inr)
  then show ?thesis
  proof (elim disjE)
    assume st: "23 \<le> ?len \<and> off + 4 + ?len \<le> length data \<and> Checksum (drop 4 ?p) = Uint32 (slice 0 4 ?p) \<and>
       (\<exists>qr st w1. replayRecord fs snapshot through first q s ?p = Replayed qr st \<and>
          recoverRecords c f fs final snapshot through data (off + 4 + ?len) qr False st w1 = (Inr (off', q', s'), w'))"
    then obtain qr st w1 where rr: "replayRecord fs snapshot through first q s ?p = Replayed qr st"
      and go: "recoverRecords c f fs final snapshot through data (off + 4 + ?len) qr False st w1 = (Inr (off', q', s'), w')"
      by blast
    have lp: "length ?p = ?len" "?len < 2 ^ 32"
      using st unsigned_less [of "Uint32 (slice off (off + 4) data)"] by (auto simp: length_slice)
    have lp': "23 \<le> length ?p" "length ?p < 2 ^ 32" using lp st by simp_all
    note d = replayRecord_Replayed [OF rr conjunct1 [OF conjunct2 [OF conjunct2 [OF st]]] lp']
    let ?x = "decodePayload ?p"
    have lx: "length (encodeRec ?x) = 4 + ?len" using d(1) lp by (simp add: length_encodeRec)
    have "off + 4 \<le> length data" using st by linarith
    then have "length (slice off (off + 4) data) = 4" by (simp add: length_slice)
    moreover have "(of_nat (length ?p) :: u32) = Uint32 (slice off (off + 4) data)" using lp by simp
    ultimately have "encodeRec ?x = slice off (off + 4) data @ ?p" using d(1) by (simp add: encodeRec_payload)
    moreover have "slice off (off + (4 + ?len)) data = slice off (off + 4) data @ ?p"
      by (simp add: slice_def take_add add.commute)
    ultimately have "slice off (off + length (encodeRec ?x)) data = encodeRec ?x"
      using lx by simp
    then have "\<exists>x w1. off + length (encodeRec x) \<le> length data \<and> slice off (off + length (encodeRec x)) data = encodeRec x \<and>
       chain q [x] \<and> lseq x \<le> through \<and> (first \<longrightarrow> lseq x = fs) \<and>
       recoverRecords c f fs final snapshot through data (off + length (encodeRec x)) (lseq x) False
         (replay_one snapshot x s) w1 = (Inr (off', q', s'), w')"
      using d(2-) go lx st by (intro exI [of _ ?x] exI [of _ w1]) (simp add: add.assoc)
    then show ?thesis by blast
  qed simp
qed

lemma recoverRecords_sound:
  assumes "recoverRecords c f fs final snapshot through data off q first s w = (Inr (off', q', s'), w')"
    and "off \<le> length data"
  shows "\<exists>rs. chain q rs \<and> off' = off + length (encodeRecs rs) \<and> off' \<le> length data \<and>
    slice off off' data = encodeRecs rs \<and> q' = last_seq q rs \<and> (\<forall>r\<in>set rs. lseq r \<le> through) \<and>
    (first \<and> rs \<noteq> [] \<longrightarrow> lseq (hd rs) = fs) \<and> s' = fold (replay_one snapshot) rs s"
  using assms
proof (induction "length data - off" arbitrary: off q first s w rule: less_induct)
  case less
  from recoverRecords_turn [OF less.prems] show ?case
  proof (elim disjE exE conjE)
    assume "off' = off" "q' = q" "s' = s"
    then show ?thesis using less.prems(2) by (intro exI [of _ "[]"]) (simp add: slice_def)
  next
    fix x w1
    assume x: "off + length (encodeRec x) \<le> length data" "slice off (off + length (encodeRec x)) data = encodeRec x"
      "chain q [x]" "lseq x \<le> through" "first \<longrightarrow> lseq x = fs"
      and go: "recoverRecords c f fs final snapshot through data (off + length (encodeRec x)) (lseq x) False
         (replay_one snapshot x s) w1 = (Inr (off', q', s'), w')"
    have lt: "length data - (off + length (encodeRec x)) < length data - off"
      using x(1) length_encodeRec [of x] by simp
    obtain rs where rs: "chain (lseq x) rs" "off' = off + length (encodeRec x) + length (encodeRecs rs)"
      "off' \<le> length data" "slice (off + length (encodeRec x)) off' data = encodeRecs rs" "q' = last_seq (lseq x) rs"
      "\<forall>r\<in>set rs. lseq r \<le> through" "s' = fold (replay_one snapshot) rs (replay_one snapshot x s)"
      using less.hyps [OF lt go x(1)] by blast
    have "slice off off' data = slice off (off + length (encodeRec x)) data @ slice (off + length (encodeRec x)) off' data"
      using rs(2) by (simp add: slice_def take_add add.commute)
    then show ?thesis
      using x rs by (intro exI [of _ "x # rs"]) simp
  qed
qed

section \<open>The store after a replay\<close>

lemma applyRecoveredSet_frame:
  assumes "wf_store s"
  shows "shardMask (applyRecoveredSet s k v d q) = shardMask s"
    "recoveryShard (applyRecoveredSet s k v d q) = recoveryShard s"
    "length (shards (applyRecoveredSet s k v d q)) = length (shards s)"
proof -
  obtain x s' sh' where r: "setEntryLocked s (shardFor s k) k v d q = (x, s', sh')" by (metis prod_cases3)
  note st = setEntryLocked_correct(1) [OF wf_store_shard(1) [OF assms] r]
  show "shardMask (applyRecoveredSet s k v d q) = shardMask s"
    "recoveryShard (applyRecoveredSet s k v d q) = recoveryShard s"
    "length (shards (applyRecoveredSet s k v d q)) = length (shards s)"
    using st by (simp_all add: applyRecoveredSet_def r shard_step_def)
qed

lemma removeEntryLocked_frame [simp]:
  "removeEntryLocked s sh x kind = (s', sh') \<Longrightarrow> shardMask s' = shardMask s \<and> recoveryShard s' = recoveryShard s \<and>
     shards s' = shards s \<and> evictionGeneration s' = evictionGeneration s + (if kind = removalEviction then 1 else 0)"
  by (auto simp: removeEntryLocked_def countRemoval_def Let_def split: removalKind.splits)

lemma applyDelete_frame:
  "shardMask (applyDelete s k q) = shardMask s" "recoveryShard (applyDelete s k q) = recoveryShard s"
  "length (shards (applyDelete s k q)) = length (shards s)"
  by (auto simp: applyDelete_def Let_def split: option.splits prod.splits)

lemma apply_store_correct:
  assumes "wf_store s"
  shows "wf_store (apply_store r s)" "contents (apply_store r s) = apply_rec r (contents s)"
    "shardMask (apply_store r s) = shardMask s" "recoveryShard (apply_store r s) = recoveryShard s"
    "length (shards (apply_store r s)) = length (shards s)"
  using assms mem.apply_one [of s r]
  by (cases r; simp add: apply_store_def applyRecoveredSet_frame applyDelete_frame)+

lemma shouldApply_cong:
  "shardMask s = shardMask s' \<Longrightarrow> recoveryShard s = recoveryShard s' \<Longrightarrow> shouldApply s = shouldApply s'"
  by (intro ext) (simp only: shouldApply_def shardIndex_cong [of s s'])

lemma fold_replay_one:
  assumes "wf_store s" and "s' = fold (replay_one snapshot) rs s"
  shows "wf_store s' \<and> contents s' = replay (filter (\<lambda>r. shouldApply s snapshot (lkey r) (lseq r)) rs) (contents s) \<and>
    shardMask s' = shardMask s \<and> recoveryShard s' = recoveryShard s \<and> length (shards s') = length (shards s)"
  using assms(1) unfolding assms(2)
proof (induction rs arbitrary: s)
  case Nil
  then show ?case by simp
next
  case (Cons r rs)
  let ?s = "replay_one snapshot r s"
  have one: "wf_store ?s" "shardMask ?s = shardMask s" "recoveryShard ?s = recoveryShard s"
    "length (shards ?s) = length (shards s)"
    "contents ?s = (if shouldApply s snapshot (lkey r) (lseq r) then apply_rec r (contents s) else contents s)"
    using Cons.prems apply_store_correct by (auto simp: replay_one_def)
  have "shouldApply ?s = shouldApply s" by (rule shouldApply_cong) (use one in auto)
  then show ?case using Cons.IH [OF one(1)] one by simp
qed

section \<open>Cutting a segment\<close>

text \<open>A prefix of the bytes of some records is the bytes of the first few and a torn rest.\<close>

lemma torn_prefix: "good_rec r \<Longrightarrow> n < length (encodeRec r) \<Longrightarrow> torn (take n (encodeRec r))"
  unfolding torn_def by (rule exI [of _ r]) simp

lemma cut_records:
  assumes "\<forall>r\<in>set rs. good_rec r"
  shows "\<exists>j t. j \<le> length rs \<and> take n (encodeRecs rs) = encodeRecs (take j rs) @ t \<and> (t = [] \<or> torn t) \<and>
    length (encodeRecs (take j rs)) + length t = min n (length (encodeRecs rs)) \<and>
    (j < length rs \<longrightarrow> n < length (encodeRecs (take (Suc j) rs)))"
  using assms
proof (induction rs arbitrary: n)
  case Nil
  then show ?case by simp
next
  case (Cons r rs)
  show ?case
  proof (cases "n < length (encodeRec r)")
    case True
    then show ?thesis
      using torn_prefix [of r n] Cons.prems by (intro exI [of _ 0] exI [of _ "take n (encodeRec r)"]) simp
  next
    case False
    obtain j t where "j \<le> length rs" "take (n - length (encodeRec r)) (encodeRecs rs) = encodeRecs (take j rs) @ t"
      "t = [] \<or> torn t"
      "length (encodeRecs (take j rs)) + length t = min (n - length (encodeRec r)) (length (encodeRecs rs))"
      "j < length rs \<longrightarrow> n - length (encodeRec r) < length (encodeRecs (take (Suc j) rs))"
      using Cons.IH [of "n - length (encodeRec r)"] Cons.prems by auto
    with False show ?thesis
      by (intro exI [of _ "Suc j"] exI [of _ t]) auto
  qed
qed

end
