(* ===== verification/Cache_Disk.thy ===== *)
theory Cache_Disk
  imports Cache_Replay "HOL-Library.Multiset"
begin

text \<open>
  The log on disk as a list of segment images, and what listing and replaying a directory
  that holds it returns. \<open>disk_log w base S t\<close> says that the segments of the directory are
  exactly \<open>S\<close>, that their records follow \<open>base\<close> one by one, and that the last segment may end
  in a torn record \<open>t\<close>.
\<close>

section \<open>Listing\<close>

definition listed :: "string \<Rightarrow> string \<times> node \<Rightarrow> bool" where
  "listed suf e \<longleftrightarrow> snd e \<noteq> NDir \<and> HasSuffix (fst e) suf"

lemma collectSequences_ok:
  assumes "\<forall>e\<in>set es. listed suf e \<longrightarrow> parse (fst e) = Inr (sq (fst e)) \<and> seen (sq (fst e)) = None"
    and "distinct (map (sq \<circ> fst) (filter (listed suf) es))"
  shows "collectSequences suf parse seen es = Inr (map (\<lambda>e. (fst e, sq (fst e))) (filter (listed suf) es))"
  using assms
proof (induction es arbitrary: seen)
  case Nil
  then show ?case by simp
next
  case (Cons e es)
  obtain name n where e: "e = (name, n)" by fastforce
  show ?case
  proof (cases "listed suf e")
    case False
    then have "collectSequences suf parse seen (e # es) = collectSequences suf parse seen es"
      by (auto simp: e listed_def)
    then show ?thesis using Cons False by simp
  next
    case True
    have new: "sq (fst x) \<noteq> sq name" if "x \<in> set es" "listed suf x" for x
    proof -
      have "sq name \<notin> (\<lambda>x. sq (fst x)) ` {x \<in> set es. listed suf x}"
        using Cons.prems(2) True by (simp add: e comp_def)
      then show ?thesis using that by (metis (mono_tags, lifting) imageI mem_Collect_eq)
    qed
    have "collectSequences suf parse (seen(sq name \<mapsto> name)) es =
        Inr (map (\<lambda>e. (fst e, sq (fst e))) (filter (listed suf) es))"
      by (rule Cons.IH) (use Cons.prems True new in auto)
    moreover have "n \<noteq> NDir" "HasSuffix name suf" using True by (simp_all add: e listed_def)
    ultimately show ?thesis
      using True Cons.prems(1) by (simp add: e)
  qed
qed

lemma sort_key_unique:
  assumes "distinct (map f xs)" "set xs = set ys" "sorted_wrt (<) (map f ys)"
  shows "sort_key f xs = ys"
proof -
  have d: "distinct xs" "distinct ys" "distinct (map f ys)"
    using assms by (auto simp: distinct_map strict_sorted_iff)
  have m: "mset ys = mset xs"
    using d assms(2) by (metis set_eq_iff_mset_eq_distinct)
  have "filter (\<lambda>x. f k = f x) ys = filter (\<lambda>x. f k = f x) xs" if "k \<in> set ys" for k
  proof -
    have single: "filter (\<lambda>x. f k = f x) zs = [k]" if "distinct (map f zs)" "k \<in> set zs" for zs
      using that by (induction zs) (auto simp: filter_empty_conv, metis image_eqI)
    show ?thesis
      using single [of xs] single [of ys] assms(1,2) d(3) that by simp
  qed
  then show ?thesis
    using properties_for_sort_key [OF m] assms(3) strict_sorted_imp_sorted by blast
qed

section \<open>Segment images\<close>

record segimg =
  sname :: string
  sfirst :: u64
  sino :: nat
  srecs :: "logrec list"

abbreviation seqfile_of :: "segimg \<Rightarrow> seqfile" where
  "seqfile_of s \<equiv> (sname s, sfirst s)"

abbreviation all_recs :: "segimg list \<Rightarrow> logrec list" where
  "all_recs S \<equiv> concat (map srecs S)"

text \<open>
  Segments follow one another from \<open>base\<close>; only the last may be empty, as the writer rolls
  a segment only when it holds a record.
\<close>

fun seg_chain :: "u64 \<Rightarrow> segimg list \<Rightarrow> bool" where
  "seg_chain q [] = True"
| "seg_chain q (s # S) \<longleftrightarrow> q \<noteq> maxSequence \<and> sfirst s = q + 1 \<and> chain q (srecs s) \<and>
     (srecs s \<noteq> [] \<or> S = []) \<and> seg_chain (last_seq q (srecs s)) S"

definition seg_bytes :: "logrec list \<Rightarrow> bytes" where
  "seg_bytes rs = segmentHeader @ encodeRecs rs"

definition segs_in_dir :: "world \<Rightarrow> segimg list \<Rightarrow> bool" where
  "segs_in_dir w S \<longleftrightarrow> distinct (map fst (dir w)) \<and>
     set (filter (listed ''.seg'') (dir w)) = (\<lambda>s. (sname s, NFile (sino s))) ` set S \<and>
     (\<forall>s\<in>set S. parseSegmentFilename (sname s) = Inr (sfirst s) \<and> sino s < nextInode w) \<and>
     distinct (map sname S) \<and> distinct (map sino S)"

text \<open>
  A segment that was rolled is on stable storage with all its bytes, and every segment at
  least with its header.
\<close>

definition flushed :: "world \<Rightarrow> segimg list \<Rightarrow> bool" where
  "flushed w S \<longleftrightarrow> (\<forall>s\<in>set S. segmentHeaderSize \<le> synced (inodes w (sino s))) \<and>
     (\<forall>s\<in>set (butlast S). length (content (inodes w (sino s))) \<le> synced (inodes w (sino s)))"

definition disk_log :: "world \<Rightarrow> u64 \<Rightarrow> segimg list \<Rightarrow> bytes \<Rightarrow> bool" where
  "disk_log w base S t \<longleftrightarrow> S \<noteq> [] \<and> segs_in_dir w S \<and> seg_chain base S \<and>
     (\<forall>s\<in>set (butlast S). content (inodes w (sino s)) = seg_bytes (srecs s)) \<and>
     content (inodes w (sino (last S))) = seg_bytes (srecs (last S)) @ t \<and> (t = [] \<or> torn t) \<and>
     flushed w S"

lemma seg_chain_chain: "seg_chain q S \<Longrightarrow> chain q (all_recs S)"
  by (induction S arbitrary: q) auto

lemma seg_chain_first: "seg_chain q S \<Longrightarrow> s \<in> set S \<Longrightarrow> q < sfirst s"
proof (induction S arbitrary: q)
  case (Cons x xs)
  have "unat (sfirst x) = Suc (unat q)"
    using Cons.prems(1) word_succ_neq_zero [of q] by (simp add: maxSequence_def)
  then have x: "q < sfirst x" by (simp add: word_less_nat_alt)
  have l: "unat (last_seq q (srecs x)) = unat q + length (srecs x)"
    using Cons.prems(1) by (intro chain_unat) simp
  show ?case
  proof (cases "s = x")
    case False
    then have "last_seq q (srecs x) < sfirst s" using Cons by simp
    then show ?thesis using l by (simp add: word_less_nat_alt)
  qed (use x in simp)
qed simp

lemma seg_chain_sorted: "seg_chain q S \<Longrightarrow> sorted_wrt (<) (map sfirst S)"
proof (induction S arbitrary: q)
  case (Cons x xs)
  have x: "unat (sfirst x) = Suc (unat q)"
    using Cons.prems(1) word_succ_neq_zero [of q] by (simp add: maxSequence_def)
  have l: "unat (last_seq q (srecs x)) = unat q + length (srecs x)"
    using Cons.prems(1) by (intro chain_unat) simp
  have "sfirst x < sfirst s" if "s \<in> set xs" for s
  proof -
    from that have ne: "srecs x \<noteq> []" using Cons.prems by auto
    have "last_seq q (srecs x) < sfirst s"
      using seg_chain_first [of "last_seq q (srecs x)" xs s] Cons.prems that by simp
    then show ?thesis using x l ne by (cases "srecs x") (auto simp: word_less_nat_alt)
  qed
  then show ?case using Cons by auto
qed simp

lemma listSegments_disk:
  assumes "calm w" "segs_in_dir w S" "seg_chain base S"
  shows "listSegments w = (Inr (map seqfile_of S), w)"
proof -
  let ?sq = "\<lambda>n. projr (parseSegmentFilename n)"
  let ?es = "sort_key fst (dir w)"
  have sorted: "sorted_wrt (<) (map sfirst S)" by (rule seg_chain_sorted [OF assms(3)])
  have inS: "(sname s, NFile (sino s)) \<in> set (filter (listed ''.seg'') ?es)" if "s \<in> set S" for s
    using assms(2) that by (auto simp: segs_in_dir_def)
  have es: "set (filter (listed ''.seg'') ?es) = (\<lambda>s. (sname s, NFile (sino s))) ` set S"
    using assms(2) by (simp add: segs_in_dir_def)
  have par: "parseSegmentFilename (sname s) = Inr (sfirst s)" if "s \<in> set S" for s
    using assms(2) that by (simp add: segs_in_dir_def)
  have inj: "inj_on (?sq \<circ> fst) (set (filter (listed ''.seg'') ?es))"
  proof (rule inj_onI)
    fix x y
    assume x: "x \<in> set (filter (listed ''.seg'') ?es)" and y: "y \<in> set (filter (listed ''.seg'') ?es)"
      and eq: "(?sq \<circ> fst) x = (?sq \<circ> fst) y"
    obtain a b where ab: "a \<in> set S" "b \<in> set S" "x = (sname a, NFile (sino a))" "y = (sname b, NFile (sino b))"
      using x y unfolding es by blast
    then have "sfirst a = sfirst b" using eq par by simp
    moreover have "inj_on sfirst (set S)"
      using sorted by (simp add: strict_sorted_iff distinct_map)
    ultimately have "a = b" using ab(1,2) by (auto dest: inj_onD)
    then show "x = y" using ab by simp
  qed
  have "distinct (map fst ?es)"
    using assms(2) by (simp add: segs_in_dir_def distinct_map)
  then have "distinct (filter (listed ''.seg'') ?es)"
    by (simp add: distinct_map)
  then have dist: "distinct (map (?sq \<circ> fst) (filter (listed ''.seg'') ?es))"
    using inj by (simp only: distinct_map simp_thms)
  have ok: "\<forall>e\<in>set ?es. listed ''.seg'' e \<longrightarrow>
      parseSegmentFilename (fst e) = Inr (?sq (fst e)) \<and> Map.empty (?sq (fst e)) = None"
  proof (intro ballI impI)
    fix e assume "e \<in> set ?es" "listed ''.seg'' e"
    then have "e \<in> (\<lambda>s. (sname s, NFile (sino s))) ` set S" using es by auto
    then show "parseSegmentFilename (fst e) = Inr (?sq (fst e)) \<and> Map.empty (?sq (fst e)) = None"
      using par by auto
  qed
  define fs where "fs = map (\<lambda>e. (fst e, ?sq (fst e))) (filter (listed ''.seg'') ?es)"
  have "collectSequences ''.seg'' parseSegmentFilename Map.empty ?es = Inr fs"
    unfolding fs_def by (rule collectSequences_ok [OF ok dist])
  moreover have "sort_key snd fs = map seqfile_of S"
  proof (rule sort_key_unique)
    show "distinct (map snd fs)" using dist by (simp add: fs_def comp_def)
    have "set fs = (\<lambda>e. (fst e, ?sq (fst e))) ` set (filter (listed ''.seg'') ?es)"
      by (simp add: fs_def)
    then show "set fs = set (map seqfile_of S)"
      unfolding es using par by (auto simp: image_image)
    show "sorted_wrt (<) (map snd (map seqfile_of S))" using sorted by (simp add: comp_def)
  qed
  ultimately show ?thesis
    using assms(1) by (simp add: listSegments_def readDir_def)
qed

section \<open>Handles\<close>

definition handles_ok :: "world \<Rightarrow> bool" where
  "handles_ok w \<longleftrightarrow> (\<forall>h\<in>set (closedHandles w). h < nextHandle w)"

text \<open>Two worlds with the same files.\<close>

definition same_disk :: "world \<Rightarrow> world \<Rightarrow> bool" where
  "same_disk w w' \<longleftrightarrow> dir w' = dir w \<and> inodes w' = inodes w \<and> nextInode w' = nextInode w"

lemma openFile_calm:
  assumes "calm w" "handles_ok w" "map_of (dir w) name = Some (NFile i)"
  obtains f w' where "openFile name w = (Inr f, w')" "hino f = i" "is_open f w'" "calm w'" "handles_ok w'"
    "same_disk w w'" "hid f < nextHandle w'"
proof -
  have "nextHandle w \<notin> set (closedHandles w)" using assms(2) by (auto simp: handles_ok_def)
  then show ?thesis
    using that [of "\<lparr>hname = name, hino = i, hid = nextHandle w\<rparr>" "w\<lparr>nextHandle := Suc (nextHandle w)\<rparr>"] assms
    by (auto simp: openFile_def openHandle_def is_open_def calm_def handles_ok_def same_disk_def less_SucI)
qed

lemma closeFile_calm:
  assumes "calm w" "is_open f w"
  shows "closeFile f w = (None, w\<lparr>closedHandles := hid f # closedHandles w\<rparr>)"
  using assms by (simp add: closeFile_def)

lemma closeFile_world:
  "calm w \<Longrightarrow> calm (snd (closeFile f w))"
  "handles_ok w \<Longrightarrow> hid f < nextHandle w \<Longrightarrow> handles_ok (snd (closeFile f w))"
  "same_disk w (snd (closeFile f w))"
  by (auto simp: closeFile_def fileCall_def sysCall_def nextFault_def calm_def handles_ok_def same_disk_def
      split: prod.splits list.splits fault.splits if_splits)

section \<open>Replaying the segments of a disk\<close>

lemma header_checks:
  "take 4 segmentHeader = segmentMagic" "slice 4 6 segmentHeader = PutUint16 formatVersion"
  "slice 6 8 segmentHeader = [0, 0]" "length segmentHeader = 8"
  by (simp_all add: segmentHeader_layout segmentMagic_def slice_def)

lemma Uint16_zeros: "Uint16 [0, 0] = 0"
  by (simp add: Uint16_def)

definition trim :: "handle \<Rightarrow> nat \<Rightarrow> world \<Rightarrow> world" where
  "trim f n w = snd (truncateFile f n w)"

lemma replayFile_disk:
  assumes calm: "calm w" "is_open f w" and bytes: "fileBytes f w = seg_bytes rs @ t" and t: "t = [] \<or> torn t \<and> final"
    and rs: "chain q rs" "rs \<noteq> [] \<Longrightarrow> lseq (hd rs) = firstSequence" "last_seq q rs \<le> through"
  shows "replayFile c f firstSequence final q snapshot through s w =
    (Inr (length (seg_bytes rs), last_seq q rs, fold (replay_one snapshot) rs s),
     if t = [] then w else trim f (length (seg_bytes rs)) w)"
proof -
  define data where "data = seg_bytes rs @ t"
  have hd8: "take 8 data = segmentHeader" by (simp add: data_def seg_bytes_def header_checks)
  have len: "\<not> length data < 8" by (simp add: data_def seg_bytes_def header_checks)
  have "recoverRecords c f firstSequence final snapshot through data (length segmentHeader) q True s w =
    recoverRecords c f firstSequence final snapshot through data (length (segmentHeader @ encodeRecs rs))
      (last_seq q rs) (True \<and> rs = []) (fold (replay_one snapshot) rs s) w"
    by (rule recoverRecords_chain [OF calm, where post = t]) (use rs in \<open>simp_all add: data_def seg_bytes_def\<close>)
  then have run: "recoverRecords c f firstSequence final snapshot through data 8 q True s w =
    recoverRecords c f firstSequence final snapshot through data (length (seg_bytes rs))
      (last_seq q rs) (rs = []) (fold (replay_one snapshot) rs s) w"
    by (simp add: header_checks seg_bytes_def)
  have res: "recoverRecords c f firstSequence final snapshot through data 8 q True s w =
    (Inr (length (seg_bytes rs), last_seq q rs, fold (replay_one snapshot) rs s),
     if t = [] then w else trim f (length (seg_bytes rs)) w)"
  proof (cases "t = []")
    case True
    then show ?thesis using run recoverRecords_end [where data = data] by (simp add: data_def)
  next
    case False
    then show ?thesis
      using run recoverRecords_torn [OF calm, of t] t calm
      by (simp add: data_def tornTail_def trim_def truncateFile_def Let_def)
  qed
  have calm': "calm (if t = [] then w else trim f n w)" "is_open f (if t = [] then w else trim f n w)" for n
    using calm by (auto simp: trim_def truncateFile_def putFile_def calm_def is_open_def fileCall_def
        sysCall_def nextFault_def Let_def)
  show ?thesis
    using calm calm' [of "length (seg_bytes rs)"]
    unfolding replayFile_def
    by (simp add: bytes [folded data_def] Let_def len hd8 header_checks Uint16_zeros res segmentHeaderSize_def)
qed

lemma trim_world:
  assumes "calm w" "is_open f w" "fileBytes f w = pre @ t" "t = [] \<or> n = length pre"
  defines "w' \<equiv> (if t = [] then w else trim f n w)"
  shows "calm w'" "is_open f w'" "handles_ok w' = handles_ok w" "nextHandle w' = nextHandle w" "dir w' = dir w"
    "nextInode w' = nextInode w" "content (inodes w' (hino f)) = pre"
    "i \<noteq> hino f \<Longrightarrow> inodes w' i = inodes w i" "t = [] \<Longrightarrow> inodes w' = inodes w"
    "min (length pre) (synced (inodes w (hino f))) \<le> synced (inodes w' (hino f))"
  using assms by (auto simp: trim_def truncateFile_def putFile_def calm_def is_open_def fileCall_def
      sysCall_def nextFault_def Let_def handles_ok_def fileBytes_def)

text \<open>What a replayed log leaves behind: the files as they were, the last one trimmed and open.\<close>

definition replayed_disk :: "segimg list \<Rightarrow> world \<Rightarrow> handle \<Rightarrow> world \<Rightarrow> bool" where
  "replayed_disk S w f w' \<longleftrightarrow> hino f = sino (last S) \<and> is_open f w' \<and> calm w' \<and> handles_ok w' \<and>
     hid f < nextHandle w' \<and> dir w' = dir w \<and> nextInode w' = nextInode w \<and>
     content (inodes w' (sino (last S))) = seg_bytes (srecs (last S)) \<and>
     min segmentHeaderSize (synced (inodes w (sino (last S)))) \<le> synced (inodes w' (sino (last S))) \<and>
     (\<forall>i. i \<noteq> sino (last S) \<longrightarrow> content (inodes w' i) = content (inodes w i) \<and>
        synced (inodes w i) \<le> synced (inodes w' i))"

lemma recoverSegment_through:
  assumes w: "calm w" "handles_ok w" and dir: "map_of (dir w) (sname s) = Some (NFile (sino s))"
    and bytes: "content (inodes w (sino s)) = seg_bytes (srecs s) @ t" and t: "t = [] \<or> torn t \<and> final"
    and s: "chain q (srecs s)" "sfirst s = q + 1" and max: "last_seq q (srecs s) \<le> through"
  shows "\<exists>f w'. recoverSegment c st (seqfile_of s) final q snapshot through w =
      (Inr (f, length (seg_bytes (srecs s)), last_seq q (srecs s), fold (replay_one snapshot) (srecs s) st), w') \<and>
    replayed_disk [s] w f w' \<and> (t = [] \<longrightarrow> inodes w' = inodes w)"
proof -
  obtain f w1 where o: "openFile (sname s) w = (Inr f, w1)" "hino f = sino s" "is_open f w1" "calm w1"
    "handles_ok w1" "same_disk w w1" "hid f < nextHandle w1"
    using openFile_calm [OF w dir] by blast
  have fb: "fileBytes f w1 = seg_bytes (srecs s) @ t"
    using o(2,6) bytes by (simp add: fileBytes_def same_disk_def)
  have hd: "srecs s \<noteq> [] \<Longrightarrow> lseq (hd (srecs s)) = sfirst s"
    using s by (cases "srecs s") auto
  note r = replayFile_disk [OF o(4,3) fb t s(1) hd max, where c = c and snapshot = snapshot and s = st]
  note tw = trim_world [OF o(4,3) fb, of "length (seg_bytes (srecs s))"]
  have "min 8 n \<le> min (length (seg_bytes (srecs s))) n" for n
    by (simp add: seg_bytes_def header_checks)
  then show ?thesis
    using o r tw order_trans [OF _ tw(10)]
    by (auto simp: recoverSegment_def replayed_disk_def same_disk_def segmentHeaderSize_def)
qed

lemma recoverSegment_disk:
  assumes "calm w" "handles_ok w" "map_of (dir w) (sname s) = Some (NFile (sino s))"
    and "content (inodes w (sino s)) = seg_bytes (srecs s) @ t" "t = [] \<or> torn t \<and> final"
    and "chain q (srecs s)" "sfirst s = q + 1"
  shows "\<exists>f w'. recoverSegment c st (seqfile_of s) final q snapshot maxSequence w =
      (Inr (f, length (seg_bytes (srecs s)), last_seq q (srecs s), fold (replay_one snapshot) (srecs s) st), w') \<and>
    replayed_disk [s] w f w' \<and> (t = [] \<longrightarrow> inodes w' = inodes w)"
  by (rule recoverSegment_through [OF assms]) (simp add: maxSequence_def)

lemma recoverSegments_disk:
  assumes "S \<noteq> []" "calm w" "handles_ok w" "seg_chain q S" "distinct (map sino S)"
    and "\<forall>s\<in>set S. map_of (dir w) (sname s) = Some (NFile (sino s))"
    and "\<forall>s\<in>set (butlast S). content (inodes w (sino s)) = seg_bytes (srecs s)"
    and "content (inodes w (sino (last S))) = seg_bytes (srecs (last S)) @ t" "t = [] \<or> torn t"
  shows "\<exists>f w'. recoverSegments c st snapshot q (map seqfile_of S) w =
      (Inr (f, length (seg_bytes (srecs (last S))), last_seq q (all_recs S),
            fold (replay_one snapshot) (all_recs S) st), w') \<and>
    replayed_disk S w f w'"
  using assms
proof (induction S arbitrary: q st w)
  case Nil
  then show ?case by simp
next
  case (Cons s S)
  show ?case
  proof (cases "S = []")
    case True
    obtain f w' where "recoverSegment c st (seqfile_of s) True q snapshot maxSequence w =
      (Inr (f, length (seg_bytes (srecs s)), last_seq q (srecs s), fold (replay_one snapshot) (srecs s) st), w')"
      "replayed_disk [s] w f w'"
      using recoverSegment_disk [of w s t True q c st snapshot] Cons.prems True by auto
    then show ?thesis
      using True Cons.prems by simp
  next
    case False
    have b: "content (inodes w (sino s)) = seg_bytes (srecs s) @ []"
      using Cons.prems False by simp
    obtain f w1 where r: "recoverSegment c st (seqfile_of s) False q snapshot maxSequence w =
      (Inr (f, length (seg_bytes (srecs s)), last_seq q (srecs s), fold (replay_one snapshot) (srecs s) st), w1)"
      and d1: "replayed_disk [s] w f w1" and same: "inodes w1 = inodes w"
      using recoverSegment_disk [OF Cons.prems(2,3) _ b, of False q c st snapshot] Cons.prems by auto
    define w2 where "w2 = w1\<lparr>closedHandles := hid f # closedHandles w1\<rparr>"
    have cl: "closeFile f w1 = (None, w2)"
      using d1 closeFile_calm [of w1 f] by (simp add: replayed_disk_def w2_def)
    have w2: "calm w2" "handles_ok w2" "dir w2 = dir w" "nextInode w2 = nextInode w"
      using d1 by (auto simp: w2_def replayed_disk_def calm_def handles_ok_def)
    have ino: "inodes w2 = inodes w"
      using same by (simp add: w2_def)
    have "\<exists>f' w'. recoverSegments c (fold (replay_one snapshot) (srecs s) st) snapshot (last_seq q (srecs s))
        (map seqfile_of S) w2 = (Inr (f', length (seg_bytes (srecs (last S))), last_seq (last_seq q (srecs s)) (all_recs S),
            fold (replay_one snapshot) (all_recs S) (fold (replay_one snapshot) (srecs s) st)), w') \<and>
        replayed_disk S w2 f' w'"
      by (rule Cons.IH [OF False w2(1,2)]) (use Cons.prems False ino w2(3) in auto)
    then obtain f' w' where r': "recoverSegments c (fold (replay_one snapshot) (srecs s) st) snapshot (last_seq q (srecs s))
        (map seqfile_of S) w2 = (Inr (f', length (seg_bytes (srecs (last S))), last_seq (last_seq q (srecs s)) (all_recs S),
            fold (replay_one snapshot) (all_recs S) (fold (replay_one snapshot) (srecs s) st)), w')"
      and d': "replayed_disk S w2 f' w'" by blast
    show ?thesis
      using r cl r' d' False Cons.prems(2) w2 ino by (auto simp: replayed_disk_def)
  qed
qed

end
