(* ===== verification/Cache_Recovery_Props.thy ===== *)
theory Cache_Recovery_Props
  imports Cache_Disk
begin

text \<open>
  Recovery of a directory that holds a log: what \<open>recoverSegment\<close> and \<open>recoverLog\<close> return,
  which tails they trim, and what they refuse.
\<close>

section \<open>The state of an open log\<close>

text \<open>
  The log the writer works on: the last segment is open, its bytes are exactly its records,
  and the offset and the sequence of the log are those of its end.
\<close>

definition log_ok :: "world \<Rightarrow> logState \<Rightarrow> u64 \<Rightarrow> segimg list \<Rightarrow> bool" where
  "log_ok w log base S \<longleftrightarrow> disk_log w base S [] \<and> handles_ok w \<and> is_open (lfile log) w \<and>
     hid (lfile log) < nextHandle w \<and> hino (lfile log) = sino (last S) \<and>
     loffset log = length (seg_bytes (srecs (last S))) \<and> logSeq log = last_seq base (all_recs S)"

definition no_snapshots :: "world \<Rightarrow> bool" where
  "no_snapshots w \<longleftrightarrow> filter (listed ''.snap'') (dir w) = []"

section \<open>Recovery without a snapshot\<close>

lemma listSnapshots_none:
  assumes "calm w" "no_snapshots w"
  shows "listSnapshots w = (Inr [], w)"
proof -
  let ?es = "sort_key fst (dir w)"
  have none: "filter (listed ''.snap'') ?es = []"
    using assms(2) by (simp add: no_snapshots_def filter_empty_conv)
  have "collectSequences ''.snap'' parseSnapshotFilename Map.empty ?es = Inr []"
    using collectSequences_ok [of ?es "''.snap''" parseSnapshotFilename "\<lambda>_. 0" Map.empty] none
    by (simp add: filter_empty_conv)
  then show ?thesis
    using assms(1) by (simp add: listSnapshots_def readDir_def)
qed

lemma loadSnapshot_none: "calm w \<Longrightarrow> no_snapshots w \<Longrightarrow> loadSnapshot c st w = (Inr (noSnapshot, st), w)"
  by (simp add: loadSnapshot_def listSnapshots_none)

lemma shouldApply_noSnapshot: "recoveryShard st = None \<Longrightarrow> shouldApply st noSnapshot k q"
  by (simp add: shouldApply_def noSnapshot_def)

lemma segs_in_dir_lookup:
  assumes "segs_in_dir w S" "s \<in> set S"
  shows "map_of (dir w) (sname s) = Some (NFile (sino s))"
proof -
  have "(sname s, NFile (sino s)) \<in> set (filter (listed ''.seg'') (dir w))"
    using assms by (auto simp: segs_in_dir_def)
  then show ?thesis using assms(1) by (auto simp: segs_in_dir_def)
qed

lemma flushed_replayed:
  assumes "flushed w S" "S \<noteq> []" "distinct (map sino S)" "replayed_disk S w f w'"
  shows "flushed w' S"
proof -
  have ne: "sino s \<noteq> sino (last S)" if "s \<in> set (butlast S)" for s
    using distinct_map_middle [of sino "butlast S" "last S" "[]" s] assms(2,3) that by simp
  have "segmentHeaderSize \<le> synced (inodes w' (sino s))" if "s \<in> set S" for s
    using assms that by (cases "sino s = sino (last S)") (force simp: flushed_def replayed_disk_def)+
  moreover have "length (content (inodes w' (sino s))) \<le> synced (inodes w' (sino s))" if "s \<in> set (butlast S)" for s
    using assms(1,4) ne [OF that] that by (fastforce simp: flushed_def replayed_disk_def)
  ultimately show ?thesis by (simp add: flushed_def)
qed

lemma replayed_log_ok:
  assumes d: "disk_log w base S t" and rd: "replayed_disk S w f w'"
  shows "log_ok w' \<lparr>lfile = f, loffset = length (seg_bytes (srecs (last S))),
      logSeq = last_seq base (all_recs S), bytesSinceSnapshot = n\<rparr> base S"
proof -
  from d have S: "S \<noteq> []" "segs_in_dir w S" "seg_chain base S" "distinct (map sino S)"
    and bl: "\<forall>s\<in>set (butlast S). content (inodes w (sino s)) = seg_bytes (srecs s)"
    by (auto simp: disk_log_def segs_in_dir_def)
  have "content (inodes w' (sino s)) = seg_bytes (srecs s)" if s: "s \<in> set (butlast S)" for s
  proof -
    have "sino s \<noteq> sino (last S)"
      using distinct_map_middle [of sino "butlast S" "last S" "[]" s] S(1,4) s by simp
    then show ?thesis using rd bl s by (simp add: replayed_disk_def)
  qed
  moreover have "flushed w' S" by (rule flushed_replayed [OF _ S(1,4) rd]) (use d in \<open>simp add: disk_log_def\<close>)
  ultimately have "disk_log w' base S []"
    using S rd by (auto simp: disk_log_def replayed_disk_def segs_in_dir_def)
  then show ?thesis using rd by (auto simp: log_ok_def replayed_disk_def)
qed

lemma recoverLog_disk:
  assumes w: "calm w" "handles_ok w" "no_snapshots w" and d: "disk_log w 0 S t"
    and st: "wf_store st" "recoveryShard st = None"
  shows "\<exists>log st' w'. recoverLog c st w = (Inr (log, st'), w') \<and> log_ok w' log 0 S \<and> calm w' \<and>
    wf_store st' \<and> contents st' = replay (all_recs S) (contents st) \<and>
    logSequence st' = last_seq 0 (all_recs S) \<and> no_snapshots w'"
proof -
  from d have S: "S \<noteq> []" "segs_in_dir w S" "seg_chain 0 S" "distinct (map sino S)"
    and bl: "\<forall>s\<in>set (butlast S). content (inodes w (sino s)) = seg_bytes (srecs s)"
    and last: "content (inodes w (sino (last S))) = seg_bytes (srecs (last S)) @ t" "t = [] \<or> torn t"
    by (auto simp: disk_log_def segs_in_dir_def)
  have look: "\<forall>s\<in>set S. map_of (dir w) (sname s) = Some (NFile (sino s))"
    using segs_in_dir_lookup [OF S(2)] by blast
  have first: "sfirst (hd S) = 1" using S(1,3) by (cases S) auto
  have ls: "listSegments w = (Inr (map seqfile_of S), w)"
    by (rule listSegments_disk [OF w(1) S(2,3)])
  obtain f w' where r: "recoverSegments c st noSnapshot 0 (map seqfile_of S) w =
      (Inr (f, length (seg_bytes (srecs (last S))), last_seq 0 (all_recs S),
            fold (replay_one noSnapshot) (all_recs S) st), w')" and rd: "replayed_disk S w f w'"
    using recoverSegments_disk [OF S(1) w(1,2) S(3,4) look bl last, of c st noSnapshot] by blast
  define st' where "st' = setLogSequence (last_seq 0 (all_recs S)) (fold (replay_one noSnapshot) (all_recs S) st)"
  define log where "log = \<lparr>lfile = f, loffset = length (seg_bytes (srecs (last S))),
      logSeq = last_seq 0 (all_recs S), bytesSinceSnapshot = 0\<rparr>"
  have res: "recoverLog c st w = (Inr (log, st'), w')"
    using loadSnapshot_none [OF w(1,3), of c st] ls r S(1) first
    by (simp add: recoverLog_def noSnapshot_def log_def st'_def hd_map Let_def)
  have flt: "filter (\<lambda>r. shouldApply st noSnapshot (lkey r) (lseq r)) (all_recs S) = all_recs S"
    by (simp add: shouldApply_noSnapshot [OF st(2)])
  have st': "wf_store st'" "contents st' = replay (all_recs S) (contents st)"
    using fold_replay_one [OF st(1) refl, of noSnapshot "all_recs S"] flt
    by (auto simp: st'_def setLogSequence_def)
  have "log_ok w' log 0 S" unfolding log_def by (rule replayed_log_ok [OF d rd])
  then show ?thesis
    using res st' rd w(3) by (auto simp: st'_def setLogSequence_def replayed_disk_def no_snapshots_def)
qed

end
