(* ===== verification/Cache_Wal_Props.thy ===== *)
theory Cache_Wal_Props
  imports Cache_Recovery_Props
begin

text \<open>
  The writer against the log on disk. For every outcome of the system calls, a batch answers
  each request once; the requests it answers without an error are exactly the records it has
  added to the log, in order and with consecutive sequences, and an error leaves the log with
  at most some records of the failed write and a torn end.
\<close>

section \<open>What the calls do to the disk\<close>

text \<open>The files and their bytes are as before; only handles and the synced length may change.\<close>

definition keeps :: "world \<Rightarrow> world \<Rightarrow> bool" where
  "keeps w w' \<longleftrightarrow> dir w' = dir w \<and> nextInode w' = nextInode w \<and>
     (\<forall>i. content (inodes w' i) = content (inodes w i) \<and> synced (inodes w i) \<le> synced (inodes w' i)) \<and>
     nextHandle w' = nextHandle w \<and> clock w' = clock w \<and> tick w' = tick w"

lemma keeps_refl [simp]: "keeps w w"
  by (simp add: keeps_def)

lemma keeps_trans: "keeps w w' \<Longrightarrow> keeps w' w'' \<Longrightarrow> keeps w w''"
  unfolding keeps_def by (metis order_trans)

lemma sysCall_keeps: "sysCall w = (r, w') \<Longrightarrow> keeps w w' \<and> closedHandles w' = closedHandles w"
  by (auto simp: sysCall_def nextFault_def keeps_def split: list.splits fault.splits)

lemma syncDirectory_keeps: "syncDirectory w = (r, w') \<Longrightarrow> keeps w w' \<and> closedHandles w' = closedHandles w"
  using sysCall_keeps keeps_trans
  by (auto simp: syncDirectory_def split: prod.splits option.splits) (metis keeps_trans sysCall_keeps)+

lemma fileCall_keeps: "fileCall f w = (r, w') \<Longrightarrow> keeps w w' \<and> closedHandles w' = closedHandles w"
  using sysCall_keeps by (auto simp: fileCall_def split: if_splits)

lemma syncFile_keeps: "syncFile f w = (r, w') \<Longrightarrow> keeps w w' \<and> closedHandles w' = closedHandles w"
  using fileCall_keeps [of f w]
  by (auto simp: syncFile_def keeps_def putFile_def Let_def max.coboundedI1 split: prod.splits option.splits)

lemma syncFile_stable:
  "syncFile f w = (None, w') \<Longrightarrow> length (content (inodes w' (hino f))) \<le> synced (inodes w' (hino f))"
  by (auto simp: syncFile_def putFile_def Let_def split: prod.splits option.splits)

lemma closeFile_keeps: "closeFile f w = (r, w') \<Longrightarrow> keeps w w' \<and> closedHandles w' = hid f # closedHandles w"
  using fileCall_keeps [of f w] by (auto simp: closeFile_def keeps_def split: prod.splits)

lemma writeFile_effect:
  assumes "writeFile f payload w = ((n, e), w')"
  shows "n \<le> length payload \<and> (e = None \<longrightarrow> n = length payload) \<and> dir w' = dir w \<and> nextInode w' = nextInode w \<and>
    nextHandle w' = nextHandle w \<and> closedHandles w' = closedHandles w \<and> clock w' = clock w \<and> tick w' = tick w \<and>
    content (inodes w' (hino f)) = content (inodes w (hino f)) @ take n payload \<and>
    (\<forall>i. i \<noteq> hino f \<longrightarrow> content (inodes w' i) = content (inodes w i)) \<and>
    (\<forall>i. synced (inodes w' i) = synced (inodes w i))"
  using assms
  by (auto simp: writeFile_def nextFault_def putFile_def Let_def split: if_splits list.splits fault.splits)

lemma handles_ok_close:
  "handles_ok w \<Longrightarrow> closedHandles w' = hid f # closedHandles w \<Longrightarrow> nextHandle w' = nextHandle w \<Longrightarrow>
     hid f < nextHandle w \<Longrightarrow> handles_ok w'"
  by (simp add: handles_ok_def)

section \<open>The segments of a directory\<close>

lemma segs_in_dir_map:
  assumes "distinct (map fst d)"
  shows "set (filter (listed suf) d) = (\<lambda>s. (sname s, NFile (sino s))) ` set S \<longleftrightarrow>
    (\<forall>n nd. map_of d n = Some nd \<and> listed suf (n, nd) \<longleftrightarrow> (\<exists>s\<in>set S. n = sname s \<and> nd = NFile (sino s)))"
  using assms by (auto simp: set_eq_iff image_iff)

lemma flushed_mono:
  assumes "flushed w S" "\<forall>s\<in>set S. content (inodes w' (sino s)) = content (inodes w (sino s)) \<and>
      synced (inodes w (sino s)) \<le> synced (inodes w' (sino s))"
  shows "flushed w' S"
  using assms in_set_butlastD [of _ S] order_trans unfolding flushed_def by metis

lemma disk_log_keeps: "keeps w w' \<Longrightarrow> disk_log w base S t \<Longrightarrow> disk_log w' base S t"
  using flushed_mono [of w S w'] by (simp add: keeps_def disk_log_def segs_in_dir_def)

lemma last_decimal: "decimal n \<noteq> [] \<and> last (decimal n) \<noteq> CHR ''g''"
proof -
  obtain d where d: "d < 10" "last (decimal n) = digit d" "decimal n \<noteq> []"
    using that [of n] that [of "n mod 10"] by (cases "n < 10") (simp_all add: decimal.simps [of n])
  have "of_char (digit d) \<noteq> (of_char CHR ''g'' :: nat)" using d(1) by simp
  then show ?thesis using d by metis
qed

lemma not_listed_temp: "\<not> HasSuffix (tempName ''.segment-'' w) ''.seg''"
proof
  assume h: "HasSuffix (tempName ''.segment-'' w) ''.seg''"
  let ?n = "tempName ''.segment-'' w"
  have "\<exists>xs. ?n = xs @ ''.seg''" using h by (metis HasSuffix_def append_take_drop_id)
  then have "last ?n = CHR ''g''" by auto
  moreover have "last ?n \<noteq> CHR ''g''"
    using last_decimal by (auto simp: tempName_def split: option.splits)
  ultimately show False by simp
qed

section \<open>Creating a segment\<close>

text \<open>A new file that no segment of the log uses.\<close>

lemma createTemp_effect:
  assumes "createTemp ''.segment-'' w = (Inr f, w')" "segs_in_dir w S" "handles_ok w"
  shows "hino f = nextInode w" "hid f < nextHandle w'" "is_open f w'" "handles_ok w'"
    "\<not> HasSuffix (hname f) ''.seg''"
    "segs_in_dir w' S" "map_of (dir w') (hname f) = Some (NFile (hino f))" "nextInode w' = Suc (nextInode w)"
    "content (inodes w' (hino f)) = []" "i \<noteq> hino f \<Longrightarrow> content (inodes w' i) = content (inodes w i)"
    "i \<noteq> hino f \<Longrightarrow> synced (inodes w i) \<le> synced (inodes w' i)"
proof -
  obtain w1 where sc: "sysCall w = (None, w1)"
    using assms(1) by (auto simp: createTemp_def split: prod.splits option.splits)
  note k = sysCall_keeps [OF sc]
  define n where "n = tempName ''.segment-'' w1"
  have f: "f = \<lparr>hname = n, hino = nextInode w1, hid = nextHandle w1\<rparr>"
    and w': "dir w' = AList.update n (NFile (nextInode w1)) (dir w1)" "nextInode w' = Suc (nextInode w1)"
      "inodes w' = (inodes w1)(nextInode w1 := \<lparr>content = [], synced = 0\<rparr>)"
      "nextHandle w' = Suc (nextHandle w1)" "closedHandles w' = closedHandles w1"
    using assms(1) sc by (auto simp: createTemp_def openHandle_def Let_def n_def)
  show "hino f = nextInode w" "nextInode w' = Suc (nextInode w)" "hid f < nextHandle w'"
    "content (inodes w' (hino f)) = []" "i \<noteq> hino f \<Longrightarrow> content (inodes w' i) = content (inodes w i)"
    "i \<noteq> hino f \<Longrightarrow> synced (inodes w i) \<le> synced (inodes w' i)"
    using k by (simp_all add: f w' keeps_def)
  show "handles_ok w'" "is_open f w'"
    using k assms(3) by (auto simp: handles_ok_def is_open_def f w' keeps_def less_SucI)
  show nl: "\<not> HasSuffix (hname f) ''.seg''" by (simp add: f n_def not_listed_temp)
  show "map_of (dir w') (hname f) = Some (NFile (hino f))"
    by (simp add: w' f AList.update_conv')
  have d: "distinct (map fst (dir w1))" using assms(2) k by (simp add: segs_in_dir_def keeps_def)
  then have d': "distinct (map fst (dir w'))" by (simp add: w' AList.distinct_update)
  have "\<forall>m nd. map_of (dir w') m = Some nd \<and> listed ''.seg'' (m, nd) \<longleftrightarrow>
      map_of (dir w1) m = Some nd \<and> listed ''.seg'' (m, nd)"
    using nl by (auto simp: w' AList.update_conv' f listed_def)
  then show "segs_in_dir w' S"
    using assms(2) k d d' segs_in_dir_map [OF d, of "''.seg''" S] segs_in_dir_map [OF d', of "''.seg''" S]
    by (simp add: segs_in_dir_def keeps_def w') (metis less_SucI)
qed

lemma removeFile_effect:
  assumes "removeFile n w = (r, w')" "\<not> HasSuffix n ''.seg''" "segs_in_dir w S"
  shows "segs_in_dir w' S" "\<forall>i. content (inodes w' i) = content (inodes w i) \<and> synced (inodes w i) \<le> synced (inodes w' i)"
    "closedHandles w' = closedHandles w" "nextHandle w' = nextHandle w"
proof -
  obtain x w1 where sc: "sysCall w = (x, w1)" by fastforce
  note k = sysCall_keeps [OF sc]
  have w': "w' = (if x = None then w1\<lparr>dir := AList.delete n (dir w1)\<rparr> else w1)"
    using assms(1) sc
    by (auto simp: removeFile_def AList.delete_idem map_of_eq_None_iff split: option.splits if_splits)
  show "\<forall>i. content (inodes w' i) = content (inodes w i) \<and> synced (inodes w i) \<le> synced (inodes w' i)" "closedHandles w' = closedHandles w"
    "nextHandle w' = nextHandle w"
    using k by (auto simp: w' keeps_def)
  have d: "distinct (map fst (dir w))" using assms(3) by (simp add: segs_in_dir_def)
  then have d': "distinct (map fst (dir w'))" using k by (auto simp: w' keeps_def AList.distinct_delete)
  have "\<forall>m nd. map_of (dir w') m = Some nd \<and> listed ''.seg'' (m, nd) \<longleftrightarrow>
      map_of (dir w) m = Some nd \<and> listed ''.seg'' (m, nd)"
    using assms(2) k by (auto simp: w' keeps_def AList.delete_conv' listed_def split: if_splits)
  then show "segs_in_dir w' S"
    using assms(3) k segs_in_dir_map [OF d, of "''.seg''" S] segs_in_dir_map [OF d', of "''.seg''" S] d'
    by (auto simp: segs_in_dir_def keeps_def w')
qed

text \<open>Giving up before the rename leaves the log as it was.\<close>

lemma discardTemp_effect:
  assumes "discardTemp f w = w'" "\<not> HasSuffix (hname f) ''.seg''" "segs_in_dir w S" "handles_ok w" "hid f < nextHandle w"
  shows "segs_in_dir w' S" "handles_ok w'" "\<forall>i. content (inodes w' i) = content (inodes w i) \<and> synced (inodes w i) \<le> synced (inodes w' i)"
proof -
  obtain x w1 where c: "closeFile f w = (x, w1)" by fastforce
  obtain y w2 where r: "removeFile (hname f) w1 = (y, w2)" by fastforce
  have w': "w' = w2" using assms(1) c r by (simp add: discardTemp_def)
  note k = closeFile_keeps [OF c]
  have "segs_in_dir w1 S" using k assms(3) by (simp add: segs_in_dir_def keeps_def)
  note e = removeFile_effect [OF r assms(2) this]
  show "segs_in_dir w' S" "\<forall>i. content (inodes w' i) = content (inodes w i) \<and> synced (inodes w i) \<le> synced (inodes w' i)"
    using e(1,2) k order_trans by (auto simp: w' keeps_def) blast
  show "handles_ok w'" using e(3,4) k assms(4,5) by (simp add: w' handles_ok_def keeps_def)
qed

lemma parse_segmentName: "q \<noteq> 0 \<Longrightarrow> parseSegmentFilename (segmentName q) = Inr q"
  by (rule seg.parse_name)

lemma HasSuffix_segmentName: "HasSuffix (segmentName q) ''.seg''"
  by (simp add: segmentName_def)

lemma renameFile_effect:
  assumes r: "renameFile tmp (segmentName q) w = (None, w')" and tmp: "\<not> HasSuffix tmp ''.seg''"
    "map_of (dir w) tmp = Some (NFile i)"
    and S: "segs_in_dir w S" "q \<noteq> 0" "q \<notin> sfirst ` set S" "i \<notin> sino ` set S" "i < nextInode w"
  shows "segs_in_dir w' (S @ [\<lparr>sname = segmentName q, sfirst = q, sino = i, srecs = []\<rparr>])"
    "\<forall>i. content (inodes w' i) = content (inodes w i) \<and> synced (inodes w i) \<le> synced (inodes w' i)" "closedHandles w' = closedHandles w" "nextHandle w' = nextHandle w"
proof -
  let ?s = "\<lparr>sname = segmentName q, sfirst = q, sino = i, srecs = []\<rparr>"
  obtain w1 where sc: "sysCall w = (None, w1)"
    using r by (auto simp: renameFile_def split: prod.splits option.splits)
  note k = sysCall_keeps [OF sc]
  have dir1: "dir w1 = dir w" using k by (simp add: keeps_def)
  have nd: "map_of (dir w) (segmentName q) \<noteq> Some NDir"
    and w': "w' = w1\<lparr>dir := AList.update (segmentName q) (NFile i) (AList.delete tmp (dir w1))\<rparr>"
    using r sc tmp(2) dir1 by (auto simp: renameFile_def split: if_splits)
  show "\<forall>i. content (inodes w' i) = content (inodes w i) \<and> synced (inodes w i) \<le> synced (inodes w' i)" "closedHandles w' = closedHandles w"
    "nextHandle w' = nextHandle w"
    using k by (auto simp: w' keeps_def)
  have d: "distinct (map fst (dir w))" using S(1) by (simp add: segs_in_dir_def)
  then have d': "distinct (map fst (dir w'))"
    by (simp add: w' dir1 AList.distinct_update AList.distinct_delete)
  note m = segs_in_dir_map [OF d, of "''.seg''" S, THEN iffD1, rule_format]
  have inS: "(map_of (dir w) n = Some nd \<and> listed ''.seg'' (n, nd)) = (\<exists>s\<in>set S. n = sname s \<and> nd = NFile (sino s))" for n nd
    using m S(1) by (simp add: segs_in_dir_def)
  have names: "sname s \<noteq> segmentName q" if "s \<in> set S" for s
  proof
    assume "sname s = segmentName q"
    then have "sfirst s = q" using that S(1,2) parse_segmentName by (auto simp: segs_in_dir_def)
    then show False using that S(3) by auto
  qed
  have fresh: "map_of (dir w) (segmentName q) = None"
  proof (cases "map_of (dir w) (segmentName q)")
    case (Some nd)
    then have "listed ''.seg'' (segmentName q, nd)"
      using nd by (auto simp: listed_def HasSuffix_segmentName)
    then obtain s where "s \<in> set S" "segmentName q = sname s"
      using inS [of "segmentName q" nd] Some by blast
    then show ?thesis using names [of s] by simp
  qed simp
  have tmpq: "tmp \<noteq> segmentName q" using tmp(1) HasSuffix_segmentName by auto
  have "(map_of (dir w') n = Some nd \<and> listed ''.seg'' (n, nd)) =
      (\<exists>s\<in>set (S @ [?s]). n = sname s \<and> nd = NFile (sino s))" for n nd
  proof (cases "n = segmentName q")
    case True
    have "\<not> (\<exists>s\<in>set S. segmentName q = sname s)" using names by metis
    then show ?thesis
      using True by (auto simp: w' AList.update_conv' listed_def HasSuffix_segmentName)
  next
    case False
    then have "map_of (dir w') n = (if n = tmp then None else map_of (dir w) n)"
      by (simp add: w' dir1 AList.update_conv' AList.delete_conv')
    then show ?thesis
      using False inS [of n nd] tmp(1) by (auto simp: listed_def)
  qed
  then have all: "set (filter (listed ''.seg'') (dir w')) = (\<lambda>s. (sname s, NFile (sino s))) ` set (S @ [?s])"
    using segs_in_dir_map [OF d', of "''.seg''" "S @ [?s]"] by blast
  show "segs_in_dir w' (S @ [?s])"
  proof -
    have "segmentName q \<notin> sname ` set S" using names by (metis imageE)
    then show ?thesis
      unfolding segs_in_dir_def
      using all d' S k parse_segmentName by (simp add: segs_in_dir_def w' keeps_def)
  qed
qed

lemma seg_chain_last:
  "seg_chain q S \<Longrightarrow> srecs (last S) \<noteq> [] \<Longrightarrow> S \<noteq> [] \<Longrightarrow>
     seg_chain q (S @ T) = seg_chain (last_seq q (all_recs S)) T"
  by (induction S arbitrary: q) (auto split: if_splits)

lemma seg_chain_first_le: "seg_chain q S \<Longrightarrow> s \<in> set S \<Longrightarrow> srecs (last S) \<noteq> [] \<Longrightarrow> sfirst s \<le> last_seq q (all_recs S)"
proof (induction S arbitrary: q)
  case (Cons x xs)
  have x: "unat (sfirst x) = Suc (unat q)"
    using Cons.prems(1) word_succ_neq_zero [of q] by (simp add: maxSequence_def)
  have l: "unat (last_seq q (all_recs (x # xs))) = unat q + length (all_recs (x # xs))"
    by (rule chain_unat [OF seg_chain_chain [OF Cons.prems(1)]])
  have ne: "srecs x \<noteq> []" using Cons.prems by (cases xs) auto
  show ?case
  proof (cases "s = x")
    case True
    then show ?thesis using x l ne by (cases "srecs x") (simp_all add: word_le_nat_alt)
  next
    case False
    then have "sfirst s \<le> last_seq (last_seq q (srecs x)) (all_recs xs)"
      using Cons.prems by (intro Cons.IH) (auto split: if_splits)
    then show ?thesis by simp
  qed
qed simp

text \<open>
  \<open>createSegment\<close> at the end of a log: it fails and the log is as before, or it fails after the
  rename and the log has a new empty segment, or it returns that segment, open.
\<close>

definition new_seg :: "u64 \<Rightarrow> nat \<Rightarrow> segimg" where
  "new_seg q i = \<lparr>sname = segmentName q, sfirst = q, sino = i, srecs = []\<rparr>"

text \<open>The bytes of the first \<open>n\<close> files are as before, and at least as many of them are stable.\<close>

definition older :: "nat \<Rightarrow> world \<Rightarrow> world \<Rightarrow> bool" where
  "older n w w' \<longleftrightarrow> (\<forall>i < n. content (inodes w' i) = content (inodes w i) \<and>
     synced (inodes w i) \<le> synced (inodes w' i))"

lemma older_trans [trans]: "older n u v \<Longrightarrow> older n v w \<Longrightarrow> older n u w"
  unfolding older_def by (metis order_trans)

lemma older_keeps: "keeps w w' \<Longrightarrow> older n w w'"
  by (simp add: older_def keeps_def)

lemma new_seg_simps [simp]:
  "sname (new_seg q i) = segmentName q" "sfirst (new_seg q i) = q" "sino (new_seg q i) = i" "srecs (new_seg q i) = []"
  by (simp_all add: new_seg_def)

lemma createSegment_effect:
  assumes c: "createSegment q w = (r, w')" and S: "segs_in_dir w S" "handles_ok w" "q \<noteq> 0" "q \<notin> sfirst ` set S"
  shows "handles_ok w' \<and> older (nextInode w) w w' \<and>
    (case r of
       Inl e \<Rightarrow> segs_in_dir w' S \<or>
         segs_in_dir w' (S @ [new_seg q (nextInode w)]) \<and> content (inodes w' (nextInode w)) = segmentHeader \<and>
         segmentHeaderSize \<le> synced (inodes w' (nextInode w))
     | Inr f \<Rightarrow> segs_in_dir w' (S @ [new_seg q (nextInode w)]) \<and> content (inodes w' (nextInode w)) = segmentHeader \<and>
         segmentHeaderSize \<le> synced (inodes w' (nextInode w)) \<and>
         hino f = nextInode w \<and> is_open f w' \<and> hid f < nextHandle w')"
proof -
  obtain ct w1 where ct: "createTemp ''.segment-'' w = (ct, w1)" by fastforce
  show ?thesis
  proof (cases ct)
    case (Inl e)
    then have "keeps w w1 \<and> closedHandles w1 = closedHandles w"
      using ct sysCall_keeps [of w]
      by (auto simp: createTemp_def Let_def split: prod.splits option.splits)
    then show ?thesis
      using c ct Inl S by (auto simp: createSegment_def keeps_def segs_in_dir_def handles_ok_def older_def)
  next
    case (Inr f)
    note t = createTemp_effect [OF ct [unfolded Inr] S(1,2)]
    obtain x2 w2 where c2: "fileCall f w1 = (x2, w2)" by fastforce
    obtain n3 x3 w3 where c3: "writeFile f segmentHeader w2 = ((n3, x3), w3)" by (metis prod.exhaust)
    obtain x4 w4 where c4: "syncFile f w3 = (x4, w4)" by fastforce
    obtain x5 w5 where c5: "renameFile (hname f) (segmentName q) w4 = (x5, w5)" by fastforce
    obtain x6 w6 where c6: "syncDirectory w5 = (x6, w6)" by fastforce
    note k2 = fileCall_keeps [OF c2] and k3 = writeFile_effect [OF c3] and k4 = syncFile_keeps [OF c4]
      and k6 = syncDirectory_keeps [OF c6]
    let ?N = "nextInode w"
    have o1: "older ?N w w1" using t(1,10,11) by (simp add: older_def)
    have o2: "older ?N w w2" using o1 older_keeps [of w1 w2] k2 older_trans by blast
    have "older ?N w2 w3" using k3 t(1) by (simp add: older_def)
    then have o3: "older ?N w w3" using o2 older_trans by blast
    have o4: "older ?N w w4" using o3 older_keeps [of w3 w4] k4 older_trans by blast
    have d2: "segs_in_dir w2 S" "handles_ok w2" "hid f < nextHandle w2" using t k2 by (auto simp: keeps_def segs_in_dir_def handles_ok_def)
    have d3: "segs_in_dir w3 S" "handles_ok w3" "hid f < nextHandle w3" using d2 k3 by (auto simp: segs_in_dir_def handles_ok_def)
    have d4: "segs_in_dir w4 S" "handles_ok w4" "hid f < nextHandle w4" using d3 k4 by (auto simp: keeps_def segs_in_dir_def handles_ok_def)
    show ?thesis
    proof (cases "x2 = None \<and> x3 = None \<and> x4 = None \<and> x5 = None")
      case False
      have r5: "x5 \<noteq> None \<Longrightarrow> segs_in_dir w5 S \<and> handles_ok w5 \<and> hid f < nextHandle w5 \<and> older ?N w4 w5"
        using c5 sysCall_keeps [of w4] d4
        by (auto simp: renameFile_def keeps_def segs_in_dir_def handles_ok_def older_def split: prod.splits option.splits if_splits)
      have "\<exists>e v. r = Inl e \<and> w' = discardTemp f v \<and> segs_in_dir v S \<and> handles_ok v \<and> hid f < nextHandle v \<and> older ?N w v"
        using c ct Inr c2 c3 c4 c5 False d2 d3 d4 o2 o3 o4 r5 older_trans [OF o4]
        by (auto simp: createSegment_def split: option.splits)
      then obtain e v where v: "r = Inl e" "w' = discardTemp f v" "segs_in_dir v S" "handles_ok v" "hid f < nextHandle v" "older ?N w v"
        by blast
      note e = discardTemp_effect [OF refl t(5) v(3-5)]
      have "older ?N v w'" using e(3) v(2) by (simp add: older_def)
      then show ?thesis using e v older_trans by auto
    next
      case True
      have "map_of (dir w4) (hname f) = Some (NFile (hino f))"
        using t(7) k2 k3 k4 by (simp add: keeps_def)
      moreover have "hino f \<notin> sino ` set S" "hino f < nextInode w4"
        using S(1) t(1,8) k2 k3 k4 by (auto simp: segs_in_dir_def keeps_def)
      ultimately have r5: "segs_in_dir w5 (S @ [new_seg q (hino f)])"
        "\<forall>i. content (inodes w5 i) = content (inodes w4 i) \<and> synced (inodes w4 i) \<le> synced (inodes w5 i)"
        "closedHandles w5 = closedHandles w4" "nextHandle w5 = nextHandle w4"
        using renameFile_effect [of "hname f" q w4 w5 "hino f" S] c5 True t(5) d4(1) S(3,4)
        by (simp_all add: new_seg_def)
      have d6: "segs_in_dir w6 (S @ [new_seg q ?N])" "handles_ok w6" "hid f < nextHandle w6" "is_open f w6"
        using r5 k6 d4 t(1,3) k2 k3 k4 by (auto simp: keeps_def segs_in_dir_def handles_ok_def is_open_def)
      have hdr: "content (inodes w6 ?N) = segmentHeader"
        using r5(2) k6 k4 k2 k3 t(1,9) True by (simp add: keeps_def)
      have "segmentHeaderSize \<le> synced (inodes w4 ?N)"
        using syncFile_stable [OF c4 [unfolded conjunct1 [OF conjunct2 [OF conjunct2 [OF True]]]]] hdr r5(2) k6 t(1)
        by (simp add: keeps_def header_checks segmentHeaderSize_def)
      also have "\<dots> \<le> synced (inodes w5 ?N)" using r5(2) by blast
      also have "\<dots> \<le> synced (inodes w6 ?N)" using k6 by (simp add: keeps_def)
      finally have sy: "segmentHeaderSize \<le> synced (inodes w6 ?N)" .
      have "older ?N w4 w5" using r5(2) by (simp add: older_def)
      then have o6: "older ?N w w6" using o4 older_keeps [of w5 w6] k6 older_trans by blast
      show ?thesis
      proof (cases x6)
        case None
        then show ?thesis
          using c ct Inr c2 c3 c4 c5 c6 True d6 hdr o6 sy t(1) by (auto simp: createSegment_def)
      next
        case (Some e)
        obtain y w7 where c7: "closeFile f w6 = (y, w7)" by fastforce
        note k7 = closeFile_keeps [OF c7]
        have "r = Inl (ErrOs ''commit segment installation'' e)" "w' = w7"
          using c ct Inr c2 c3 c4 c5 c6 c7 True Some by (auto simp: createSegment_def)
        moreover have "older ?N w w7" using older_trans [OF o6 older_keeps] k7 by blast
        moreover have "segmentHeaderSize \<le> synced (inodes w7 ?N)"
          using sy k7 order_trans by (auto simp: keeps_def)
        ultimately show ?thesis
          using d6 hdr k7 by (auto simp: keeps_def segs_in_dir_def handles_ok_def)
      qed
    qed
  qed
qed

section \<open>Requests as records\<close>

text \<open>The requests that \<open>Set\<close>, \<open>SetTTL\<close> and \<open>Delete\<close> submit after validation.\<close>

definition good_request :: "writeRequest \<Rightarrow> bool" where
  "good_request r \<longleftrightarrow>
     (rkind r = requestSet \<or> rkind r = requestDelete \<and> rvalue r = [] \<and> rdeadline r = 0) \<and>
     validateRecordSize (rkey r) (length (rvalue r)) = None"

definition request_rec :: "u64 \<Rightarrow> writeRequest \<Rightarrow> logrec" where
  "request_rec q r =
     (if rkind r = requestSet then LSet (rkey r) (rvalue r) (rdeadline r) q else LDel (rkey r) q)"

fun recs_of :: "u64 \<Rightarrow> writeRequest list \<Rightarrow> logrec list" where
  "recs_of q [] = []"
| "recs_of q (r # rs) = request_rec (q + 1) r # recs_of (q + 1) rs"

lemma request_rec_simps [simp]: "lseq (request_rec q r) = q" "lkey (request_rec q r) = rkey r"
  by (simp_all add: request_rec_def)

lemma length_recs_of [simp]: "length (recs_of q rs) = length rs"
  by (induction rs arbitrary: q) auto

lemma last_seq_recs_of: "last_seq q (recs_of q rs) = q + of_nat (length rs)"
  by (induction rs arbitrary: q) (auto simp: algebra_simps)

lemma recs_of_append: "recs_of q (rs @ ss) = recs_of q rs @ recs_of (q + of_nat (length rs)) ss"
  by (induction rs arbitrary: q) (auto simp: algebra_simps)

lemma appendRecord_rec:
  assumes "good_request r"
  shows "appendRecord dst q r = dst @ encodeRec (request_rec q r)" "good_rec (request_rec q r)"
proof -
  let ?r = "rec_request (request_rec q r)"
  have eq: "recordBody q r = recordBody q ?r" "recordSizeFor r = recordSizeFor ?r"
    using assms by (auto simp: recordBody_def request_rec_def good_request_def recordSizeFor_def)
  then have "recordPayload q r = recordPayload q ?r" by (simp add: recordPayload_def)
  then show "appendRecord dst q r = dst @ encodeRec (request_rec q r)"
    by (simp add: appendRecord_payload encodeRec_def)
  show "good_rec (request_rec q r)"
    using assms by (auto simp: good_rec_def good_request_def validateRecordSize_def recordSizeFor_def layout
        request_rec_def split: if_splits)
qed

lemma encodeBatch_recs:
  assumes "\<forall>r\<in>set rs. good_request r"
  shows "encodeBatch payload q n rs = payload @ encodeRecs (recs_of (q + of_nat n) rs)"
  using assms
  by (induction rs arbitrary: payload n) (simp_all add: appendRecord_rec algebra_simps)

lemma chain_recs_of:
  assumes "\<forall>r\<in>set rs. good_request r" "length rs \<le> unat (maxSequence - q)"
  shows "chain q (recs_of q rs)"
  using assms
proof (induction rs arbitrary: q)
  case (Cons r rs)
  have q: "q \<noteq> maxSequence" using Cons.prems(2) by auto
  have eq: "maxSequence - q = (maxSequence - (q + 1)) + 1" by simp
  have "maxSequence - (q + 1) \<noteq> - 1"
  proof
    assume "maxSequence - (q + 1) = - 1"
    then have "maxSequence - q = 0" by (subst eq) simp
    then show False using q by simp
  qed
  then have "unat (maxSequence - q) = Suc (unat (maxSequence - (q + 1)))"
    by (subst eq) (rule word_succ_neq_zero)
  then show ?case
    using Cons q appendRecord_rec(2) by simp
qed simp

section \<open>Choosing a chunk\<close>

lemma selectChunk_bounds:
  assumes "n \<le> unat (maxSequence - logSeq log)"
  shows "n \<le> selectChunk segmentSize log rs n size' \<and> selectChunk segmentSize log rs n size' \<le> n + length rs \<and>
    selectChunk segmentSize log rs n size' \<le> unat (maxSequence - logSeq log)"
  using assms
proof (induction rs arbitrary: n size')
  case (Cons r rs)
  show ?case
  proof (cases "maxSequence - logSeq log \<le> of_nat n")
    case False
    have "unat (maxSequence - logSeq log) < 2 ^ LENGTH(64)" by (rule unsigned_less)
    then have "n < 2 ^ LENGTH(64)" using Cons.prems by linarith
    then have "unat (of_nat n :: u64) = n" by simp
    then have "Suc n \<le> unat (maxSequence - logSeq log)" using False by (simp add: word_le_nat_alt)
    then show ?thesis using Cons.IH [of "Suc n" "size' + recordSizeFor r"] Cons.prems by auto
  qed (use Cons.prems in simp)
qed simp

lemma selectChunk_pos:
  assumes "logSeq log \<noteq> maxSequence" "rs \<noteq> []"
  shows "0 < selectChunk segmentSize log rs 0 0"
proof -
  obtain r rest where rs: "rs = r # rest" using assms(2) by (cases rs) auto
  have ne: "\<not> maxSequence - logSeq log \<le> 0"
    using assms(1) by (metis eq_iff_diff_eq_0 word_le_0_iff)
  then have "0 < unat (maxSequence - logSeq log)" by (simp add: word_le_nat_alt)
  then have "Suc 0 \<le> selectChunk segmentSize log rest (Suc 0) (recordSizeFor r)"
    using selectChunk_bounds [of "Suc 0" log segmentSize rest "recordSizeFor r"] by simp
  then show ?thesis using ne by (simp add: rs)
qed

section \<open>Induction over the loop of a batch\<close>

text \<open>
  What holds of every way the loop of \<open>writeBatch\<close> can end holds of every batch that returns;
  nothing is assumed of the log or the store.
\<close>

lemma writeLoop_induct:
  assumes run: "writeLoop segmentSize st log rs w = Some out"
    and nil: "\<And>st log w. P st log [] w (st, log, [], w)"
    and spent: "\<And>st log rs w. P st log rs w (failBatch st log ErrWALSequenceExhausted rs w)"
    and roll: "\<And>st log rs w e st1 log1 w1. rollIfFull segmentSize (hd rs) st log w = (Some e, st1, log1, w1) \<Longrightarrow>
      P st log rs w (failBatch st1 log1 e rs w1)"
    and wr: "\<And>st log rs w st1 log1 w1 payload n e w2 err. rollIfFull segmentSize (hd rs) st log w = (None, st1, log1, w1) \<Longrightarrow>
      writeFile (lfile log1) payload w1 = ((n, e), w2) \<Longrightarrow> P st log rs w (failBatch st1 log1 err rs w2)"
    and chunk: "\<And>st log rs w st1 log1 w1 payload n e w2 log2 k st3 log3 ans3 w3 st4 log4 ans4 w4.
      rollIfFull segmentSize (hd rs) st log w = (None, st1, log1, w1) \<Longrightarrow>
      writeFile (lfile log1) payload w1 = ((n, e), w2) \<Longrightarrow> lfile log2 = lfile log1 \<Longrightarrow>
      applyBatch st1 log2 (take k rs) w2 = Some (st3, log3, ans3, w3) \<Longrightarrow>
      P (addBytesWritten n st3) log3 (drop k rs) w3 (st4, log4, ans4, w4) \<Longrightarrow>
      P st log rs w (st4, log4, ans3 @ ans4, w4)"
  shows "P st log rs w out"
proof -
  let ?Q = "\<lambda>size' st log rs w out. size' = segmentSize \<longrightarrow> P st log rs w out"
  have "?Q segmentSize st log rs w out"
  proof (rule writeLoop.raw_induct [where P = ?Q, OF _ run], rule impI, goal_cases)
    case (1 loop size' st log rs w out)
    note IH = 1(1) and body = 1(2) and sz = 1(3)
    obtain res st1 log1 w1 where rl: "rollIfFull segmentSize (hd rs) st log w = (res, st1, log1, w1)"
      by (metis prod_cases4)
    let ?k = "selectChunk segmentSize log1 rs 0 0"
    let ?payload = "encodeBatch [] (logSeq log1) 0 (take ?k rs)"
    obtain n e w2 where wf: "writeFile (lfile log1) ?payload w1 = ((n, e), w2)" by (metis prod.exhaust)
    consider "rs = []" | "rs \<noteq> []" "logSeq log = maxSequence"
      | x where "rs \<noteq> []" "logSeq log \<noteq> maxSequence" "res = Some x"
      | x where "rs \<noteq> []" "logSeq log \<noteq> maxSequence" "res = None" "writeError n e ?payload = Some x"
      | "rs \<noteq> []" "logSeq log \<noteq> maxSequence" "res = None" "writeError n e ?payload = None"
      by fastforce
    then show ?case
    proof cases
      case 5
      then obtain st3 log3 ans3 w3 st4 log4 ans4 w4 where
        "applyBatch st1 (log1\<lparr>loffset := loffset log1 + n, bytesSinceSnapshot := bytesSinceSnapshot log1 + n\<rparr>)
          (take ?k rs) w2 = Some (st3, log3, ans3, w3)"
        "loop segmentSize (addBytesWritten n st3) log3 (drop ?k rs) w3 = Some (st4, log4, ans4, w4)"
        "out = (st4, log4, ans3 @ ans4, w4)"
        using body wf rl sz by (auto simp: Let_def split: bind_splits)
      then show ?thesis using chunk [OF rl [unfolded 5(3)] wf, rotated 1] IH by simp
    qed (use body wf rl sz nil spent roll wr [OF _ wf] in \<open>auto simp: Let_def\<close>)
  qed
  then show ?thesis by simp
qed

end
