(* ===== verification/Cache_Batch.thy ===== *)
theory Cache_Batch
  imports Cache_Wal_Props
begin

text \<open>
  \<open>writeBatch\<close> as a whole: it always returns, answers every request exactly once, and keeps
  the store, the log on disk and the answers in step, whatever calls fail.
\<close>

section \<open>Applying a chunk\<close>

text \<open>What the clock leaves alone.\<close>

definition same_files :: "world \<Rightarrow> world \<Rightarrow> bool" where
  "same_files w w' \<longleftrightarrow> dir w' = dir w \<and> inodes w' = inodes w \<and> nextInode w' = nextInode w \<and>
     nextHandle w' = nextHandle w \<and> closedHandles w' = closedHandles w"

lemma same_files_refl [simp]: "same_files w w"
  by (simp add: same_files_def)

lemma same_files_trans: "same_files u v \<Longrightarrow> same_files v w \<Longrightarrow> same_files u w"
  by (simp add: same_files_def)

lemma now_same: "now w = (t, w') \<Longrightarrow> same_files w w'"
  by (auto simp: now_def same_files_def)

lemma log_ok_same: "same_files w w' \<Longrightarrow> log_ok w log base S \<Longrightarrow> log_ok w' log base S"
  unfolding same_files_def log_ok_def disk_log_def segs_in_dir_def handles_ok_def is_open_def flushed_def
  by presburger

lemma apply_rec_mono: "m' \<subseteq>\<^sub>m m \<Longrightarrow> apply_rec r m' \<subseteq>\<^sub>m apply_rec r m"
  by (cases r) (auto simp: map_le_def dom_def split: if_splits)

lemma replay_mono: "m' \<subseteq>\<^sub>m m \<Longrightarrow> replay rs m' \<subseteq>\<^sub>m replay rs m"
  by (induction rs arbitrary: m m') (auto simp: apply_rec_mono)

lemma addRecord_simps [simp]:
  "shards (addRecord st) = shards st" "contents (addRecord st) = contents st" "wf_store (addRecord st) = wf_store st"
  "lastError (stats (addRecord st)) = lastError (stats st)" "logSequence (addRecord st) = logSequence st"
  "evictionGeneration (addRecord st) = evictionGeneration st"
  by (auto simp: addRecord_def)

lemma applyDelete_lastError: "lastError (stats (applyDelete st k q)) = lastError (stats st)"
  by (auto simp: applyDelete_def removeEntryLocked_def countRemoval_def Let_def split: option.splits prod.splits)

lemma applyRequest_correct:
  assumes "wf_store st" "good_request r"
  shows "\<exists>st' w'. applyRequest st r q w = Some (st', w') \<and> wf_store st' \<and> logSequence st' = q \<and> same_files w w' \<and>
    contents st' \<subseteq>\<^sub>m apply_rec (request_rec q r) (contents st) \<and> lastError (stats st') = lastError (stats st)"
proof (cases "rkind r = requestSet")
  case True
  obtain t w' where t: "now w = (t, w')" by fastforce
  obtain st' n where "applySet st (rkey r) (rvalue r) (rdeadline r) q t = Some st'" "wf_store st'" "logSequence st' = q"
    "thinned t n ((contents st)(rkey r \<mapsto> mk_item (rkey r) (rvalue r) (rdeadline r) q)) (contents st')"
    "lastError (stats st') = lastError (stats st)"
    using applySet_correct [OF assms(1), of "rkey r" "rvalue r" "rdeadline r" q t] by blast
  then show ?thesis
    using True t now_same [OF t] by (auto simp: applyRequest_def thinned_def request_rec_def)
next
  case False
  then show ?thesis
    using applyDelete_correct [OF assms(1), of "rkey r" q] applyDelete_lastError
    by (auto simp: applyRequest_def request_rec_def)
qed

lemma applyBatch_correct:
  assumes "wf_store st" "\<forall>r\<in>set rs. good_request r"
  shows "\<exists>st' w'. applyBatch st log rs w =
      Some (st', log\<lparr>logSeq := logSeq log + of_nat (length rs)\<rparr>, map (\<lambda>r. (rid r, None)) rs, w') \<and>
    wf_store st' \<and> same_files w w' \<and> contents st' \<subseteq>\<^sub>m replay (recs_of (logSeq log) rs) (contents st) \<and>
    lastError (stats st') = lastError (stats st) \<and>
    (rs \<noteq> [] \<longrightarrow> logSequence st' = logSeq log + of_nat (length rs))"
  using assms
proof (induction rs arbitrary: st log w)
  case Nil
  then show ?case by simp
next
  case (Cons r rs)
  obtain st1 w1 where one: "applyRequest st r (logSeq log + 1) w = Some (st1, w1)" "wf_store st1" "same_files w w1"
    "contents st1 \<subseteq>\<^sub>m apply_rec (request_rec (logSeq log + 1) r) (contents st)"
    "lastError (stats st1) = lastError (stats st)" "logSequence st1 = logSeq log + 1"
    using applyRequest_correct [of st r "logSeq log + 1" w] Cons.prems by auto
  let ?log = "log\<lparr>logSeq := logSeq log + 1\<rparr>"
  have IH: "\<exists>st' w'. applyBatch (addRecord st1) ?log rs w1 =
      Some (st', ?log\<lparr>logSeq := logSeq ?log + of_nat (length rs)\<rparr>, map (\<lambda>r. (rid r, None)) rs, w') \<and>
    wf_store st' \<and> same_files w1 w' \<and> contents st' \<subseteq>\<^sub>m replay (recs_of (logSeq ?log) rs) (contents (addRecord st1)) \<and>
    lastError (stats st') = lastError (stats (addRecord st1)) \<and>
    (rs \<noteq> [] \<longrightarrow> logSequence st' = logSeq ?log + of_nat (length rs))"
    by (rule Cons.IH) (use Cons.prems one(2) in auto)
  then obtain st' w' where more: "applyBatch (addRecord st1) ?log rs w1 =
      Some (st', log\<lparr>logSeq := logSeq log + 1 + of_nat (length rs)\<rparr>, map (\<lambda>r. (rid r, None)) rs, w')"
    "wf_store st'" "same_files w1 w'" "contents st' \<subseteq>\<^sub>m replay (recs_of (logSeq log + 1) rs) (contents st1)"
    "lastError (stats st') = lastError (stats st1)"
    "rs \<noteq> [] \<longrightarrow> logSequence st' = logSeq log + 1 + of_nat (length rs)"
    by auto
  have ls: "logSequence st' = logSeq log + 1 + of_nat (length rs)"
    using more one by (cases "rs = []") auto
  have "contents st' \<subseteq>\<^sub>m replay (recs_of (logSeq log) (r # rs)) (contents st)"
    using map_le_trans [OF more(4) replay_mono [OF one(4)]] by simp
  then show ?case
    using one more ls same_files_trans [OF one(3) more(3)] by (simp add: algebra_simps)
qed

section \<open>Appending to the last segment\<close>

definition extend :: "segimg list \<Rightarrow> logrec list \<Rightarrow> segimg list" where
  "extend S rs = butlast S @ [(last S)\<lparr>srecs := srecs (last S) @ rs\<rparr>]"

lemma all_recs_extend [simp]: "S \<noteq> [] \<Longrightarrow> all_recs (extend S rs) = all_recs S @ rs"
  by (cases S rule: rev_cases) (auto simp: extend_def)

lemma extend_simps [simp]: "extend S rs \<noteq> []" "butlast (extend S rs) = butlast S"
  "sino (last (extend S rs)) = sino (last S)" "srecs (last (extend S rs)) = srecs (last S) @ rs"
  by (simp_all add: extend_def)

lemma seg_chain_extend:
  "seg_chain q S \<Longrightarrow> S \<noteq> [] \<Longrightarrow> chain (last_seq q (all_recs S)) rs \<Longrightarrow> seg_chain q (extend S rs)"
  by (induction S arbitrary: q) (auto simp: extend_def)

lemma segs_in_dir_extend: "S \<noteq> [] \<Longrightarrow> segs_in_dir w (extend S rs) = segs_in_dir w S"
  by (cases S rule: rev_cases) (simp_all add: segs_in_dir_def extend_def)

lemma disk_log_extend:
  assumes d: "disk_log w base S []" and rs: "chain (last_seq base (all_recs S)) rs" and t: "t = [] \<or> torn t"
    and w': "dir w' = dir w" "nextInode w' = nextInode w"
      "content (inodes w' (sino (last S))) = content (inodes w (sino (last S))) @ encodeRecs rs @ t"
      "\<forall>i. i \<noteq> sino (last S) \<longrightarrow> content (inodes w' i) = content (inodes w i)"
      "\<forall>i. synced (inodes w' i) = synced (inodes w i)"
  shows "disk_log w' base (extend S rs) t"
proof -
  from d have S: "S \<noteq> []" "segs_in_dir w S" "seg_chain base S" "distinct (map sino S)"
    by (auto simp: disk_log_def segs_in_dir_def)
  have "segs_in_dir w' (extend S rs)"
    using S(2) w' unfolding segs_in_dir_extend [OF S(1)] by (simp add: segs_in_dir_def)
  moreover have bl: "content (inodes w' (sino s)) = content (inodes w (sino s))" if s: "s \<in> set (butlast S)" for s
    using w'(4) distinct_map_middle [of sino "butlast S" "last S" "[]" s] S(1,4) s by simp
  moreover have "flushed w' (extend S rs)"
  proof -
    have "sino ` set (extend S rs) = sino ` set S"
      using S(1) by (cases S rule: rev_cases) (auto simp: extend_def)
    then have "\<forall>s\<in>set (extend S rs). segmentHeaderSize \<le> synced (inodes w' (sino s))"
      using d w'(5) unfolding disk_log_def flushed_def by (metis (no_types, lifting) image_iff)
    moreover have "\<forall>s\<in>set (butlast S). length (content (inodes w' (sino s))) \<le> synced (inodes w' (sino s))"
      using d bl w'(5) unfolding disk_log_def flushed_def by metis
    ultimately show ?thesis by (simp add: flushed_def)
  qed
  moreover have "content (inodes w' (sino (last S))) = seg_bytes (srecs (last S) @ rs) @ t"
    using w'(3) d by (simp add: disk_log_def seg_bytes_def)
  ultimately show ?thesis
    using seg_chain_extend [OF S(3,1) rs] t d by (simp add: disk_log_def)
qed

text \<open>A write of the bytes of some records, complete or cut short.\<close>

lemma log_write:
  assumes ok: "log_ok w log base S" and rs: "chain (logSeq log) rs"
    and wr: "writeFile (lfile log) (encodeRecs rs) w = ((n, e), w')"
  shows "\<exists>j t. j \<le> length rs \<and> disk_log w' base (extend S (take j rs)) t \<and> handles_ok w'"
    "e = None \<Longrightarrow> n = length (encodeRecs rs) \<and>
       log_ok w' (log\<lparr>loffset := loffset log + n, bytesSinceSnapshot := b, logSeq := last_seq (logSeq log) rs\<rparr>) base (extend S rs)"
proof -
  note wf = writeFile_effect [OF wr]
  from ok have d: "disk_log w base S []" and f: "hino (lfile log) = sino (last S)"
    and q: "logSeq log = last_seq base (all_recs S)" and h: "handles_ok w" and ne: "S \<noteq> []"
    by (auto simp: log_ok_def disk_log_def)
  have good: "\<forall>r\<in>set rs. good_rec r" using chain_good [OF rs] by blast
  obtain j t where cut: "j \<le> length rs" "take n (encodeRecs rs) = encodeRecs (take j rs) @ t" "t = [] \<or> torn t"
    using cut_records [OF good, of n] by blast
  have ch: "chain (last_seq base (all_recs S)) (take j rs)"
    using rs q by (metis append_take_drop_id chain_append)
  have "disk_log w' base (extend S (take j rs)) t"
    by (rule disk_log_extend [OF d ch cut(3)]) (use wf f cut in auto)
  moreover have h': "handles_ok w'" using h wf by (simp add: handles_ok_def)
  ultimately show "\<exists>j t. j \<le> length rs \<and> disk_log w' base (extend S (take j rs)) t \<and> handles_ok w'"
    using cut(1) by blast
  assume e: "e = None"
  have "disk_log w' base (extend S rs) []"
    by (rule disk_log_extend [OF d]) (use wf f e rs q in auto)
  then have "log_ok w' (log\<lparr>loffset := loffset log + n, bytesSinceSnapshot := b, logSeq := last_seq (logSeq log) rs\<rparr>) base (extend S rs)"
    using ok wf e h' q ne by (auto simp: log_ok_def is_open_def seg_bytes_def)
  then show "n = length (encodeRecs rs) \<and> log_ok w' (log\<lparr>loffset := loffset log + n, bytesSinceSnapshot := b,
      logSeq := last_seq (logSeq log) rs\<rparr>) base (extend S rs)"
    using wf e by simp
qed

section \<open>Rolling\<close>

lemma addFsync_simps [simp]:
  "contents (addFsync st) = contents st" "wf_store (addFsync st) = wf_store st"
  "lastError (stats (addFsync st)) = lastError (stats st)" "logSequence (addFsync st) = logSequence st"
  "evictionGeneration (addFsync st) = evictionGeneration st"
  by (auto simp: addFsync_def)

lemma addBytesWritten_simps [simp]:
  "contents (addBytesWritten n st) = contents st" "wf_store (addBytesWritten n st) = wf_store st"
  "lastError (stats (addBytesWritten n st)) = lastError (stats st)" "logSequence (addBytesWritten n st) = logSequence st"
  "evictionGeneration (addBytesWritten n st) = evictionGeneration st"
  by (auto simp: addBytesWritten_def)

lemma disk_log_new_seg:
  assumes d: "disk_log w base S []" and ne: "srecs (last S) \<noteq> []" and q: "last_seq base (all_recs S) \<noteq> maxSequence"
    and new: "segs_in_dir w' (S @ [new_seg (last_seq base (all_recs S) + 1) i])"
      "content (inodes w' i) = segmentHeader" "segmentHeaderSize \<le> synced (inodes w' i)"
    and old: "\<forall>s\<in>set S. content (inodes w' (sino s)) = content (inodes w (sino s)) \<and>
      synced (inodes w (sino s)) \<le> synced (inodes w' (sino s))"
    and stable: "length (content (inodes w (sino (last S)))) \<le> synced (inodes w (sino (last S)))"
  shows "disk_log w' base (S @ [new_seg (last_seq base (all_recs S) + 1) i]) []"
proof -
  from d have S: "S \<noteq> []" "seg_chain base S" by (auto simp: disk_log_def)
  have "seg_chain base (S @ [new_seg (last_seq base (all_recs S) + 1) i])"
    using seg_chain_last [OF S(2) ne S(1)] q by simp
  moreover have "content (inodes w' (sino s)) = seg_bytes (srecs s)" if "s \<in> set S" for s
  proof (cases "s \<in> set (butlast S)")
    case True
    then show ?thesis using d old that by (simp add: disk_log_def)
  next
    case False
    then have "s = last S" using that S(1) by (cases S rule: rev_cases) auto
    then show ?thesis using d old that by (simp add: disk_log_def)
  qed
  moreover have "flushed w' (S @ [new_seg (last_seq base (all_recs S) + 1) i])"
  proof -
    have "length (content (inodes w (sino s))) \<le> synced (inodes w (sino s))" if "s \<in> set S" for s
      using that d stable S(1) by (cases S rule: rev_cases) (auto simp: disk_log_def flushed_def)
    moreover have "segmentHeaderSize \<le> synced (inodes w (sino s))" if "s \<in> set S" for s
      using that d by (simp add: disk_log_def flushed_def)
    ultimately have "\<forall>s\<in>set S. segmentHeaderSize \<le> synced (inodes w' (sino s)) \<and>
        length (content (inodes w' (sino s))) \<le> synced (inodes w' (sino s))"
      using old by (metis order_trans)
    then show ?thesis
      using new(3) by (simp add: flushed_def)
  qed
  ultimately show ?thesis
    using new by (simp add: disk_log_def seg_bytes_def)
qed

lemma rollSegment_effect:
  assumes ok: "log_ok w log base S" and ne: "srecs (last S) \<noteq> []" and q: "logSeq log \<noteq> maxSequence"
    and r: "rollSegment st log (logSeq log + 1) w = (res, st', log', w')"
  shows "handles_ok w' \<and> st' \<in> {st, addFsync st} \<and> logSeq log' = logSeq log \<and>
    bytesSinceSnapshot log' = bytesSinceSnapshot log \<and>
    (\<exists>S'. all_recs S' = all_recs S \<and>
       (case res of None \<Rightarrow> log_ok w' log' base S' | Some e \<Rightarrow> disk_log w' base S' [] \<and> log' = log))"
proof -
  from ok have d: "disk_log w base S []" and lq: "logSeq log = last_seq base (all_recs S)" and h: "handles_ok w"
    and hid: "hid (lfile log) < nextHandle w" and S: "segs_in_dir w S" "seg_chain base S" "S \<noteq> []"
    by (auto simp: log_ok_def disk_log_def)
  obtain x1 w1 where c1: "syncFile (lfile log) w = (x1, w1)" by fastforce
  obtain x2 w2 where c2: "closeFile (lfile log) w1 = (x2, w2)" by fastforce
  obtain x3 w3 where c3: "createSegment (logSeq log + 1) w2 = (x3, w3)" by fastforce
  note k1 = syncFile_keeps [OF c1] and k2 = closeFile_keeps [OF c2]
  have k: "keeps w w2" using k1 k2 keeps_trans by blast
  have h1: "handles_ok w1" using h k1 by (simp add: handles_ok_def keeps_def)
  have h2: "handles_ok w2" using h1 k1 k2 hid by (auto simp: handles_ok_def keeps_def)
  have S2: "segs_in_dir w2 S" using S(1) k by (simp add: segs_in_dir_def keeps_def)
  have q1: "unat (logSeq log + 1) = Suc (unat (logSeq log))"
    using q word_succ_neq_zero [of "logSeq log"] by (simp add: maxSequence_def)
  have q0: "logSeq log + 1 \<noteq> 0" using q1 by (metis unat_0 nat.distinct(1))
  have qn: "logSeq log + 1 \<notin> sfirst ` set S"
  proof
    assume "logSeq log + 1 \<in> sfirst ` set S"
    then obtain s where "s \<in> set S" "sfirst s = logSeq log + 1" by auto
    then have "logSeq log + 1 \<le> logSeq log"
      using seg_chain_first_le [OF S(2) _ ne] lq by metis
    then show False using q1 by (simp add: word_le_nat_alt)
  qed
  note e3 = createSegment_effect [OF c3 S2 h2 q0 qn]
  have old: "\<forall>s\<in>set S. content (inodes w3 (sino s)) = content (inodes w2 (sino s)) \<and>
      synced (inodes w2 (sino s)) \<le> synced (inodes w3 (sino s))"
    using e3 S2 by (auto simp: segs_in_dir_def older_def)
  have d2: "disk_log w2 base S []" by (rule disk_log_keeps [OF k d])
  have new: "disk_log w3 base (S @ [new_seg (logSeq log + 1) (nextInode w2)]) []"
    if "segs_in_dir w3 (S @ [new_seg (logSeq log + 1) (nextInode w2)])" "content (inodes w3 (nextInode w2)) = segmentHeader"
      "segmentHeaderSize \<le> synced (inodes w3 (nextInode w2))" "x1 = None"
  proof -
    have "length (content (inodes w1 (sino (last S)))) \<le> synced (inodes w1 (sino (last S)))"
      using syncFile_stable [of "lfile log" w w1] c1 that(4) ok by (simp add: log_ok_def)
    then have "length (content (inodes w2 (sino (last S)))) \<le> synced (inodes w2 (sino (last S)))"
      using k2 order_trans by (auto simp: keeps_def)
    then show ?thesis
      using disk_log_new_seg [OF d2 ne, of w3 "nextInode w2"] that(1-3) old q lq by simp
  qed
  show ?thesis
  proof (cases "x1 = None \<and> x2 = None")
    case False
    then have "\<exists>e v. res = Some e \<and> log' = log \<and> w' = v \<and> keeps w v \<and> handles_ok v \<and> st' \<in> {st, addFsync st}"
      using r c1 c2 k k1 h1 h2 by (auto simp: rollSegment_def split: option.splits)
    then show ?thesis using disk_log_keeps [OF _ d] by auto
  next
    case True
    show ?thesis
    proof (cases x3)
      case (Inl e)
      have eqs: "res = Some e" "log' = log" "w' = w3" "st' = addFsync st"
        using r c1 c2 c3 True Inl by (auto simp: rollSegment_def)
      have keep: "disk_log w3 base S []" if "segs_in_dir w3 S"
        using d2 that old in_set_butlastD [of _ S] flushed_mono [OF _ old] by (simp add: disk_log_def)
      have "disk_log w3 base S [] \<or> disk_log w3 base (S @ [new_seg (logSeq log + 1) (nextInode w2)]) []"
        using e3 Inl keep new True by auto
      then have "\<exists>S'. all_recs S' = all_recs S \<and> disk_log w3 base S' []"
        by (elim disjE) (force intro: exI [of _ S], force intro: exI [of _ "S @ [new_seg (logSeq log + 1) (nextInode w2)]"])
      then show ?thesis using eqs e3 by simp
    next
      case (Inr f)
      let ?S = "S @ [new_seg (logSeq log + 1) (nextInode w2)]"
      have eqs: "res = None" "log' = log\<lparr>lfile := f, loffset := segmentHeaderSize\<rparr>" "w' = w3" "st' = addFsync st"
        using r c1 c2 c3 True Inr by (auto simp: rollSegment_def)
      have "log_ok w3 log' base ?S"
        using e3 Inr new eqs(2) lq True by (simp add: log_ok_def seg_bytes_def header_checks segmentHeaderSize_def)
      then have "all_recs ?S = all_recs S \<and> log_ok w3 log' base ?S" by simp
      then show ?thesis using eqs e3 by (auto intro: exI [of _ ?S])
    qed
  qed
qed

lemma rollIfFull_effect:
  assumes ok: "log_ok w log base S" and q: "logSeq log \<noteq> maxSequence"
    and r: "rollIfFull segmentSize req st log w = (res, st', log', w')"
  shows "handles_ok w' \<and> st' \<in> {st, addFsync st} \<and> logSeq log' = logSeq log \<and>
    bytesSinceSnapshot log' = bytesSinceSnapshot log \<and>
    (\<exists>S'. all_recs S' = all_recs S \<and>
       (case res of None \<Rightarrow> log_ok w' log' base S' | Some e \<Rightarrow> disk_log w' base S' [] \<and> log' = log))"
proof (cases "segmentHeaderSize < loffset log \<and> segmentSize < loffset log + recordSizeFor req")
  case True
  then have "srecs (last S) \<noteq> []"
    using ok by (auto simp: log_ok_def seg_bytes_def header_checks segmentHeaderSize_def)
  then show ?thesis
    using rollSegment_effect [OF ok _ q] r True by (simp add: rollIfFull_def)
next
  case False
  then have "res = None" "st' = st" "log' = log" "w' = w" using r by (auto simp: rollIfFull_def)
  then show ?thesis using ok by (auto simp: log_ok_def)
qed

section \<open>The whole batch\<close>

text \<open>
  The outcome of a batch that started with the log at sequence \<open>q\<close>, the records \<open>R\<close> on disk and
  the contents \<open>m\<close>: the first \<open>n\<close> requests are answered without an error and are on disk, in
  order; the store holds no more than their records say. When some are refused, all of them are
  answered with the latched error, and at most the first \<open>j\<close> of them are on disk, with a torn end.
\<close>

definition acks :: "writeRequest list \<Rightarrow> answer list" where
  "acks rs = map (\<lambda>r. (rid r, None)) rs"

definition batch_outcome :: "u64 \<Rightarrow> logrec list \<Rightarrow> (key \<rightharpoonup> item) \<Rightarrow> u64 \<Rightarrow> writeRequest list \<Rightarrow>
    store \<times> logState \<times> answer list \<times> world \<Rightarrow> nat \<Rightarrow> nat \<Rightarrow> segimg list \<Rightarrow> bool" where
  "batch_outcome base R m q rs out n j S' \<longleftrightarrow>
     (case out of
        (st', log', ans, w') \<Rightarrow>
          n + j \<le> length rs \<and> wf_store st' \<and> handles_ok w' \<and>
          contents st' \<subseteq>\<^sub>m replay (recs_of q (take n rs)) m \<and>
          all_recs S' = R @ recs_of q (take (n + j) rs) \<and>
          (if n = length rs
           then ans = acks rs \<and> lastError (stats st') = None \<and> log_ok w' log' base S'
           else \<exists>e t. lastError (stats st') = Some e \<and> ans = acks (take n rs) @ respondAll (drop n rs) e \<and>
                  disk_log w' base S' t))"

lemma failBatch_outcome:
  assumes "wf_store st" "lastError (stats st) = None" "handles_ok w" "contents st \<subseteq>\<^sub>m m" "rs \<noteq> []" "j \<le> length rs"
    and "disk_log w base S' t" "all_recs S' = R @ recs_of q (take j rs)"
  shows "batch_outcome base R m q rs (failBatch st log err rs w) 0 j S'"
  using assms by (auto simp: batch_outcome_def failBatch_def latch_def acks_def)

lemma recs_of_take: "take j (recs_of q rs) = recs_of q (take j rs)"
  by (induction rs arbitrary: q j) (auto simp: take_Cons split: nat.splits)

lemma batch_outcome_append:
  assumes later: "batch_outcome base (R @ recs_of q (take k rs)) m' (q + of_nat k) (drop k rs) (st', log', ans, w') n j S'"
    and m': "m' \<subseteq>\<^sub>m replay (recs_of q (take k rs)) m" and k: "k \<le> length rs"
  shows "batch_outcome base R m q rs (st', log', acks (take k rs) @ ans, w') (k + n) j S'"
proof -
  have split: "take (k + i) rs = take k rs @ take i (drop k rs)" for i by (simp add: take_add)
  have recs: "recs_of q (take (k + i) rs) = recs_of q (take k rs) @ recs_of (q + of_nat k) (take i (drop k rs))" for i
    using k by (simp add: split recs_of_append)
  have "contents st' \<subseteq>\<^sub>m replay (recs_of (q + of_nat k) (take n (drop k rs))) (replay (recs_of q (take k rs)) m)"
    using later map_le_trans [OF _ replay_mono [OF m']] by (auto simp: batch_outcome_def)
  then have c: "contents st' \<subseteq>\<^sub>m replay (recs_of q (take (k + n) rs)) m" by (simp add: recs)
  have "k + n + j \<le> length rs" "all_recs S' = R @ recs_of q (take (k + n + j) rs)"
    using later k recs [of "n + j"] by (auto simp: batch_outcome_def add.assoc)
  moreover have "acks (take k rs) @ acks (drop k rs) = acks rs" "acks (take k rs) @ acks (take n (drop k rs)) = acks (take (k + n) rs)"
    unfolding acks_def map_append [symmetric] split by simp_all
  ultimately show ?thesis
    using later c k by (auto simp: batch_outcome_def add.commute add.left_commute split: if_splits)
qed

text \<open>One chunk: its write fails and so does the batch, or it is on disk and applied.\<close>

lemma chunk_step:
  assumes ok: "log_ok w log base S" and wf: "wf_store st" and le: "lastError (stats st) = None"
    and good: "\<forall>r\<in>set rs. good_request r" and ne: "rs \<noteq> []" and q: "logSeq log \<noteq> maxSequence"
    and k_def: "k = selectChunk segmentSize log rs 0 0"
    and payload_def: "payload = encodeBatch [] (logSeq log) 0 (take k rs)"
    and wr: "writeFile (lfile log) payload w = ((n, e), w')"
  shows "0 < k \<and> k \<le> length rs \<and>
    (case writeError n e payload of
       Some x \<Rightarrow> \<exists>j S'. batch_outcome base (all_recs S) (contents st) (logSeq log) rs (failBatch st log err rs w') 0 j S'
     | None \<Rightarrow> \<exists>st' log' w'' S'. applyBatch st
           (log\<lparr>loffset := loffset log + n, bytesSinceSnapshot := bytesSinceSnapshot log + n\<rparr>) (take k rs) w' =
           Some (st', log', acks (take k rs), w'') \<and>
         log_ok w'' log' base S' \<and> wf_store st' \<and> lastError (stats st') = None \<and>
         logSeq log' = logSeq log + of_nat k \<and> all_recs S' = all_recs S @ recs_of (logSeq log) (take k rs) \<and>
         contents st' \<subseteq>\<^sub>m replay (recs_of (logSeq log) (take k rs)) (contents st))"
proof -
  let ?rs = "take k rs" and ?R = "recs_of (logSeq log) (take k rs)"
  have kb: "0 < k" "k \<le> length rs" "k \<le> unat (maxSequence - logSeq log)"
    using selectChunk_pos [OF q ne, of segmentSize] selectChunk_bounds [of 0 log segmentSize rs 0] by (auto simp: k_def)
  have goodk: "\<forall>r\<in>set ?rs. good_request r" using good by (meson in_set_takeD)
  have pl: "payload = encodeRecs ?R" using encodeBatch_recs [OF goodk] by (simp add: payload_def)
  have ch: "chain (logSeq log) ?R" using chain_recs_of [OF goodk] kb by simp
  have S: "S \<noteq> []" using ok by (auto simp: log_ok_def disk_log_def)
  note lw = log_write [OF ok ch wr [unfolded pl]]
  note we = writeFile_effect [OF wr]
  show ?thesis
  proof (cases "writeError n e payload")
    case (Some x)
    obtain j t where j: "j \<le> length ?R" "disk_log w' base (extend S (take j ?R)) t" "handles_ok w'" using lw(1) by blast
    have jk: "j \<le> k" using j(1) by simp
    then have "take j ?R = recs_of (logSeq log) (take j rs)" by (simp add: recs_of_take min_def)
    then have "batch_outcome base (all_recs S) (contents st) (logSeq log) rs (failBatch st log err rs w') 0 j (extend S (take j ?R))"
      using failBatch_outcome [OF wf le j(3) map_le_refl ne _ j(2)] jk kb S by simp
    then show ?thesis using Some kb by auto
  next
    case None
    then have e: "e = None" by (auto simp: writeError_def split: option.splits)
    let ?log = "log\<lparr>loffset := loffset log + n, bytesSinceSnapshot := bytesSinceSnapshot log + n\<rparr>"
    obtain st' w'' where ab: "applyBatch st ?log ?rs w' =
        Some (st', ?log\<lparr>logSeq := logSeq ?log + of_nat (length ?rs)\<rparr>, map (\<lambda>r. (rid r, None)) ?rs, w'')"
      "wf_store st'" "same_files w' w''" "contents st' \<subseteq>\<^sub>m replay (recs_of (logSeq ?log) ?rs) (contents st)"
      "lastError (stats st') = lastError (stats st)"
      using applyBatch_correct [OF wf goodk, of ?log w'] by blast
    have "log_ok w' (?log\<lparr>logSeq := logSeq log + of_nat (length ?rs)\<rparr>) base (extend S ?R)"
      using conjunct2 [OF lw(2) [OF e, of "bytesSinceSnapshot log + n"]] last_seq_recs_of [of "logSeq log" ?rs]
      by simp
    then have "log_ok w'' (?log\<lparr>logSeq := logSeq log + of_nat (length ?rs)\<rparr>) base (extend S ?R)"
      by (rule log_ok_same [OF ab(3)])
    then show ?thesis
      using None ab kb le S by (fastforce simp: acks_def min_def)
  qed
qed

lemma writeLoop_correct:
  assumes "log_ok w log base S" "wf_store st" "lastError (stats st) = None" "\<forall>r\<in>set rs. good_request r"
  shows "\<exists>out n j S'. writeLoop segmentSize st log rs w = Some out \<and>
    batch_outcome base (all_recs S) (contents st) (logSeq log) rs out n j S'"
  using assms
proof (induction "length rs" arbitrary: rs st log w S rule: less_induct)
  case less
  note ok = less.prems(1) and wf = less.prems(2) and le = less.prems(3) and good = less.prems(4)
  have d: "disk_log w base S []" "handles_ok w" using ok by (auto simp: log_ok_def)
  show ?case
  proof (cases "rs = []")
    case True
    have "writeLoop segmentSize st log rs w = Some (st, log, [], w)"
      by (subst writeLoop.simps) (simp add: True)
    then show ?thesis
      using True ok wf le d(2) by (intro exI [of _ "(st, log, [], w)"] exI [of _ 0] exI [of _ S])
        (auto simp: batch_outcome_def acks_def)
  next
    case ne: False
    show ?thesis
    proof (cases "logSeq log = maxSequence")
      case True
      have "writeLoop segmentSize st log rs w = Some (failBatch st log ErrWALSequenceExhausted rs w)"
        by (subst writeLoop.simps) (simp add: True ne)
      then show ?thesis
        using failBatch_outcome [OF wf le d(2) map_le_refl ne _ d(1), of 0 "all_recs S"] by fastforce
    next
      case q: False
      obtain res st1 log1 w1 where roll: "rollIfFull segmentSize (hd rs) st log w = (res, st1, log1, w1)"
        by (metis prod_cases4)
      obtain S1 where r: "handles_ok w1" "st1 \<in> {st, addFsync st}" "logSeq log1 = logSeq log"
          "all_recs S1 = all_recs S"
        and r': "case res of None \<Rightarrow> log_ok w1 log1 base S1 | Some e \<Rightarrow> disk_log w1 base S1 [] \<and> log1 = log"
        using rollIfFull_effect [OF ok q roll] by blast
      have st1: "wf_store st1" "lastError (stats st1) = None" "contents st1 = contents st" using r(2) wf le by auto
      show ?thesis
      proof (cases res)
        case (Some e)
        have "writeLoop segmentSize st log rs w = Some (failBatch st1 log1 e rs w1)"
          by (subst writeLoop.simps) (simp add: q ne roll Some)
        moreover have "batch_outcome base (all_recs S) (contents st) (logSeq log) rs (failBatch st1 log1 e rs w1) 0 0 S1"
          by (rule failBatch_outcome [where t = "[]"]) (use st1 r r' Some ne in auto)
        ultimately show ?thesis by blast
      next
        case None
        then have ok1: "log_ok w1 log1 base S1" using r' by simp
        define k where "k = selectChunk segmentSize log1 rs 0 0"
        define payload where "payload = encodeBatch [] (logSeq log1) 0 (take k rs)"
        obtain written e w2 where wr: "writeFile (lfile log1) payload w1 = ((written, e), w2)" by (metis prod.exhaust)
        have q1: "logSeq log1 \<noteq> maxSequence" using q r(3) by simp
        note step = chunk_step [OF ok1 st1(1,2) good ne q1 k_def payload_def wr, unfolded r(3,4) st1(3)]
        have unf: "writeLoop segmentSize st log rs w = (case writeError written e payload of
            Some x \<Rightarrow> Some (failBatch st1 log1 (ErrWriteLog (hname (lfile log1)) (loffset log1) x) rs w2)
          | None \<Rightarrow> applyBatch st1 (log1\<lparr>loffset := loffset log1 + written,
                bytesSinceSnapshot := bytesSinceSnapshot log1 + written\<rparr>) (take k rs) w2 \<bind>
              (\<lambda>(st', log', answers, w3). writeLoop segmentSize (addBytesWritten written st') log' (drop k rs) w3 \<bind>
              (\<lambda>(st'', log'', answers', w4). Some (st'', log'', answers @ answers', w4))))"
          unfolding k_def payload_def
          by (subst writeLoop.simps) (simp add: ne q roll None wr [unfolded payload_def k_def] Let_def)
        show ?thesis
        proof (cases "writeError written e payload")
          case (Some x)
          then show ?thesis using step unf by fastforce
        next
          case none: None
          obtain st2 log2 w3 S2 where ab: "applyBatch st1 (log1\<lparr>loffset := loffset log1 + written,
                bytesSinceSnapshot := bytesSinceSnapshot log1 + written\<rparr>) (take k rs) w2 = Some (st2, log2, acks (take k rs), w3)"
            "log_ok w3 log2 base S2" "wf_store st2" "lastError (stats st2) = None"
            "logSeq log2 = logSeq log + of_nat k" "all_recs S2 = all_recs S @ recs_of (logSeq log) (take k rs)"
            "contents st2 \<subseteq>\<^sub>m replay (recs_of (logSeq log) (take k rs)) (contents st)"
            using step none by auto
          have "length (drop k rs) < length rs" using step ne by auto
          moreover have "\<forall>r\<in>set (drop k rs). good_request r" using good by (meson in_set_dropD)
          ultimately obtain out n j S' where "writeLoop segmentSize (addBytesWritten written st2) log2 (drop k rs) w3 = Some out"
            "batch_outcome base (all_recs S2) (contents st2) (logSeq log2) (drop k rs) out n j S'"
            using less.hyps [OF _ ab(2), of "drop k rs" "addBytesWritten written st2"] ab(3,4) by auto
          then obtain st3 log3 ans3 w4 where
            rec: "writeLoop segmentSize (addBytesWritten written st2) log2 (drop k rs) w3 = Some (st3, log3, ans3, w4)"
            and out: "batch_outcome base (all_recs S2) (contents st2) (logSeq log2) (drop k rs) (st3, log3, ans3, w4) n j S'"
            by (cases out) auto
          have "batch_outcome base (all_recs S) (contents st) (logSeq log) rs (st3, log3, acks (take k rs) @ ans3, w4) (k + n) j S'"
            by (rule batch_outcome_append [OF _ ab(7)]) (use out ab(5,6) step in auto)
          then show ?thesis using unf none ab(1) rec by fastforce
        qed
      qed
    qed
  qed
qed

end
