(* ===== verification/Cache_Durability.thy ===== *)
theory Cache_Durability
  imports Cache_Batch "HOL-Library.Sublist"
begin

text \<open>
  The writer and recovery together: what a store that is opened again finds after the process
  stopped at any point of a batch, and after a loss of power that drops bytes which were not
  yet synced.
\<close>

section \<open>Stopping and starting again\<close>

text \<open>A new process meets no faults left over from the old one.\<close>

definition restart :: "world \<Rightarrow> world" where
  "restart w = w\<lparr>faults := [], cancels := []\<rparr>"

lemma restart_simps [simp]:
  "calm (restart w)" "handles_ok (restart w) = handles_ok w" "disk_log (restart w) base S t = disk_log w base S t"
  "no_snapshots (restart w) = no_snapshots w"
  by (simp_all add: restart_def calm_def handles_ok_def disk_log_def segs_in_dir_def no_snapshots_def flushed_def)

text \<open>A loss of power keeps of every file at least the bytes that were synced.\<close>

definition power_loss :: "world \<Rightarrow> world \<Rightarrow> bool" where
  "power_loss w w' \<longleftrightarrow> dir w' = dir w \<and> nextInode w' = nextInode w \<and> closedHandles w' = closedHandles w \<and>
     nextHandle w' = nextHandle w \<and>
     (\<forall>i. synced (inodes w' i) = synced (inodes w i) \<and>
        (\<exists>n. synced (inodes w i) \<le> n \<and> content (inodes w' i) = take n (content (inodes w i))))"

lemma torn_take: "torn t \<Longrightarrow> torn (take n t)"
proof -
  assume "torn t"
  then obtain r where r: "good_rec r" "length t < length (encodeRec r)" "t = take (length t) (encodeRec r)"
    by (auto simp: torn_def)
  have "take n t = take (min n (length t)) (encodeRec r)"
    by (subst r(3)) simp
  then show ?thesis
    using torn_prefix [OF r(1), of "min n (length t)"] r(2) by simp
qed

lemma cut_tail:
  assumes "\<forall>r\<in>set rs. good_rec r" "t = [] \<or> torn t"
  shows "\<exists>j t'. j \<le> length rs \<and> take n (encodeRecs rs @ t) = encodeRecs (take j rs) @ t' \<and> (t' = [] \<or> torn t')"
proof (cases "n \<le> length (encodeRecs rs)")
  case True
  then show ?thesis using cut_records [OF assms(1), of n] by auto
next
  case False
  then show ?thesis
    using assms(2) torn_take by (intro exI [of _ "length rs"] exI [of _ "take (n - length (encodeRecs rs)) t"]) auto
qed

lemma seg_chain_cut:
  "seg_chain q (T @ [s]) \<Longrightarrow> seg_chain q (T @ [s\<lparr>srecs := take j (srecs s)\<rparr>])"
proof (induction T arbitrary: q)
  case Nil
  then have "chain q (take j (srecs s) @ drop j (srecs s))" by simp
  then show ?case using Nil by (simp del: append_take_drop_id)
next
  case (Cons x T)
  then show ?case by auto
qed

lemma power_loss_disk:
  assumes d: "disk_log w base S t" and p: "power_loss w w'"
  shows "\<exists>S' t'. disk_log w' base S' t' \<and> prefix (all_recs S') (all_recs S) \<and>
    (length (content (inodes w (sino (last S)))) \<le> synced (inodes w (sino (last S))) \<longrightarrow> S' = S \<and> t' = t)"
proof -
  from d have S: "S \<noteq> []" "segs_in_dir w S" "seg_chain base S" "flushed w S" "t = [] \<or> torn t"
    by (auto simp: disk_log_def)
  have whole: "content (inodes w' i) = content (inodes w i)"
    if "length (content (inodes w i)) \<le> synced (inodes w i)" for i
    using p that unfolding power_loss_def by (metis order_trans take_all)
  have bl: "\<forall>s\<in>set (butlast S). content (inodes w' (sino s)) = seg_bytes (srecs s)"
    using d whole S(4) by (simp add: disk_log_def flushed_def)
  have fl: "flushed w' S"
    using S(4) p whole by (simp add: flushed_def power_loss_def)
  have sd: "segs_in_dir w' S" using S(2) p by (simp add: segs_in_dir_def power_loss_def)
  show ?thesis
  proof (cases "length (content (inodes w (sino (last S)))) \<le> synced (inodes w (sino (last S)))")
    case True
    then have "disk_log w' base S t" using d bl fl sd whole by (simp add: disk_log_def)
    then show ?thesis by auto
  next
    case False
    let ?l = "last S" and ?T = "butlast S"
    obtain n where n: "synced (inodes w (sino ?l)) \<le> n" "content (inodes w' (sino ?l)) = take n (content (inodes w (sino ?l)))"
      using p by (auto simp: power_loss_def)
    have "8 \<le> n" using n(1) S(1,4) by (simp add: flushed_def segmentHeaderSize_def) (meson last_in_set le_trans)
    then have c: "content (inodes w' (sino ?l)) = segmentHeader @ take (n - 8) (encodeRecs (srecs ?l) @ t)"
      using d n(2) by (simp add: disk_log_def seg_bytes_def header_checks)
    have ch: "chain base (all_recs S)" by (rule seg_chain_chain [OF S(3)])
    have "\<forall>r\<in>set (srecs ?l). good_rec r"
      using chain_good [OF ch] S(1) by (auto intro: last_in_set)
    then obtain j t' where j: "take (n - 8) (encodeRecs (srecs ?l) @ t) = encodeRecs (take j (srecs ?l)) @ t'" "t' = [] \<or> torn t'"
      using cut_tail [OF _ S(5), of "srecs ?l" "n - 8"] by blast
    define S' where "S' = ?T @ [?l\<lparr>srecs := take j (srecs ?l)\<rparr>]"
    have eqS: "S = ?T @ [?l]" using S(1) by simp
    have "seg_chain base S'"
      using S(3) unfolding S'_def by (subst (asm) eqS) (rule seg_chain_cut)
    moreover have "segs_in_dir w' S'"
      using sd by (subst (asm) eqS) (simp add: S'_def segs_in_dir_def)
    moreover have "flushed w' S'"
      using fl by (subst (asm) eqS) (simp add: S'_def flushed_def)
    ultimately have "disk_log w' base S' t'"
      using bl c j by (simp add: disk_log_def S'_def seg_bytes_def)
    moreover have "prefix (all_recs S') (all_recs S)"
      by (subst eqS) (simp add: S'_def take_is_prefix)
    ultimately show ?thesis using False by blast
  qed
qed

section \<open>The writer leaves snapshots alone\<close>

text \<open>Every snapshot of \<open>w'\<close> is one of \<open>w\<close>.\<close>

definition snaps_le :: "world \<Rightarrow> world \<Rightarrow> bool" where
  "snaps_le w w' \<longleftrightarrow> (\<forall>e\<in>set (dir w'). listed ''.snap'' e \<longrightarrow> e \<in> set (dir w))"

lemma snaps_le_refl [simp]: "snaps_le w w"
  by (simp add: snaps_le_def)

lemma snaps_le_trans [trans]: "snaps_le u v \<Longrightarrow> snaps_le v w \<Longrightarrow> snaps_le u w"
  by (auto simp: snaps_le_def)

lemma snaps_le_none: "snaps_le w w' \<Longrightarrow> no_snapshots w \<Longrightarrow> no_snapshots w'"
  by (auto simp: snaps_le_def no_snapshots_def filter_empty_conv)

lemma snaps_le_dir: "dir w' = dir w \<Longrightarrow> snaps_le w w'"
  by (simp add: snaps_le_def)

lemma set_alist_update: "set (AList.update k v al) \<subseteq> insert (k, v) (set al)"
  by (induction al) auto

lemma set_alist_delete: "set (AList.delete k al) \<subseteq> set al"
  by (auto simp: AList.delete_eq)

lemma not_snap_suffix: "n \<noteq> [] \<Longrightarrow> last n \<noteq> CHR ''p'' \<Longrightarrow> \<not> HasSuffix n ''.snap''"
proof
  assume n: "n \<noteq> []" "last n \<noteq> CHR ''p''" and h: "HasSuffix n ''.snap''"
  have "\<exists>xs. n = xs @ ''.snap''" using h by (metis HasSuffix_def append_take_drop_id)
  then show False using n by auto
qed

lemma last_decimal_p: "last (decimal n) \<noteq> CHR ''p''"
proof -
  obtain d where d: "d < 10" "last (decimal n) = digit d"
    using that [of n] that [of "n mod 10"] by (cases "n < 10") (simp_all add: decimal.simps [of n])
  have "of_char (digit d) \<noteq> (of_char CHR ''p'' :: nat)" using d(1) by simp
  then show ?thesis using d by metis
qed

lemma temp_not_snap: "\<not> HasSuffix (tempName ''.segment-'' w) ''.snap''"
  by (rule not_snap_suffix)
    (use last_decimal_p last_decimal in \<open>auto simp: tempName_def split: option.splits\<close>)

lemma segmentName_not_snap: "\<not> HasSuffix (segmentName q) ''.snap''"
  by (rule not_snap_suffix) (simp_all add: segmentName_def)

lemma snaps_le_update: "dir w' = AList.update k v (dir w) \<Longrightarrow> \<not> HasSuffix k ''.snap'' \<Longrightarrow> snaps_le w w'"
  using set_alist_update [of k v "dir w"] by (auto simp: snaps_le_def listed_def)

lemma createSegment_snaps: "createSegment q w = (r, w') \<Longrightarrow> snaps_le w w'"
proof -
  have call: "sysCall u = (x, v) \<Longrightarrow> dir v = dir u" for u x v using sysCall_keeps by (auto simp: keeps_def)
  have dsync: "syncDirectory u = (x, v) \<Longrightarrow> dir v = dir u" for u x v using syncDirectory_keeps by (auto simp: keeps_def)
  have tmp: "createTemp ''.segment-'' u = (x, v) \<Longrightarrow> snaps_le u v" for u x v
    using set_alist_update temp_not_snap call
    by (fastforce simp: createTemp_def openHandle_def Let_def snaps_le_def listed_def split: prod.splits option.splits)
  have fcall: "fileCall f u = (x, v) \<Longrightarrow> dir v = dir u" for f u x v using fileCall_keeps by (auto simp: keeps_def)
  have wcall: "writeFile f p u = ((n, x), v) \<Longrightarrow> dir v = dir u" for f p u n x v using writeFile_effect by blast
  have sync: "syncFile f u = (x, v) \<Longrightarrow> dir v = dir u" for f u x v using syncFile_keeps by (auto simp: keeps_def)
  have close: "dir (snd (closeFile f u)) = dir u" for f u
    using closeFile_keeps [of f u "fst (closeFile f u)" "snd (closeFile f u)"] by (simp add: keeps_def)
  have ren: "renameFile a (segmentName q) u = (x, v) \<Longrightarrow> snaps_le u v" for a u x v
    using set_alist_update set_alist_delete segmentName_not_snap call
    by (fastforce simp: renameFile_def snaps_le_def listed_def split: prod.splits option.splits if_splits)
  have rem: "snaps_le u (snd (removeFile n u))" for n u
    using set_alist_delete call by (fastforce simp: removeFile_def snaps_le_def split: prod.splits option.splits)
  have disc: "snaps_le u (discardTemp f u)" for f u
    unfolding discardTemp_def using snaps_le_trans [OF snaps_le_dir rem] close by blast
  assume "createSegment q w = (r, w')"
  then show "snaps_le w w'"
    unfolding createSegment_def
    by (auto split: prod.splits sum.splits option.splits
        dest!: tmp fcall [THEN snaps_le_dir] wcall [THEN snaps_le_dir] sync [THEN snaps_le_dir] ren dsync [THEN snaps_le_dir]
        intro: snaps_le_trans disc)
      (meson snaps_le_trans disc close [THEN snaps_le_dir])+
qed

lemma rollIfFull_snaps: "rollIfFull segmentSize req st log w = (res, st', log', w') \<Longrightarrow> snaps_le w w'"
  using syncFile_keeps [of "lfile log" w] closeFile_keeps [of "lfile log"] createSegment_snaps
  by (auto simp: rollIfFull_def rollSegment_def keeps_def split: if_splits prod.splits option.splits sum.splits
      intro: snaps_le_dir) (metis snaps_le_dir snaps_le_trans)+

lemma applyBatch_snaps: "applyBatch st log rs w = Some (st', log', ans, w') \<Longrightarrow> dir w' = dir w"
proof (induction rs arbitrary: st log w ans)
  case (Cons r rs)
  then show ?case
    by (auto simp: applyRequest_def now_def split: if_splits bind_splits)
qed simp

lemma failBatch_world: "snd (snd (snd (failBatch st log e rs w))) = w"
  by (simp add: failBatch_def split: prod.splits)

lemma writeLoop_snaps: "writeLoop segmentSize st log rs w = Some out \<Longrightarrow> snaps_le w (snd (snd (snd out)))"
proof (rule writeLoop_induct [where P = "\<lambda>st log rs w out. snaps_le w (snd (snd (snd out)))"])
  fix st log rs w st1 log1 w1 payload n e w2 log2 k st3 log3 ans3 w3
    and st4 :: store and log4 :: logState and ans4 :: "answer list" and w4
  assume "rollIfFull segmentSize (hd rs) st log w = (None, st1, log1, w1)"
    "writeFile (lfile log1) payload w1 = ((n, e), w2)"
    "applyBatch st1 log2 (take k rs) w2 = Some (st3, log3, ans3, w3)"
    "snaps_le w3 (snd (snd (snd (st4, log4, ans4, w4))))"
  moreover have "dir w2 = dir w1" using calculation(2) writeFile_effect by blast
  ultimately show "snaps_le w (snd (snd (snd (st4, log4, ans3 @ ans4, w4))))"
    using rollIfFull_snaps applyBatch_snaps by (simp add: snaps_le_def)
next
  fix st log rs w st1 log1 w1 payload n e w2 err
  assume "rollIfFull segmentSize (hd rs) st log w = (None, st1, log1, w1)"
    "writeFile (lfile log1) payload w1 = ((n, e), w2)"
  moreover have "dir w2 = dir w1" using calculation(2) writeFile_effect by blast
  ultimately show "snaps_le w (snd (snd (snd (failBatch st1 log1 err rs w2))))"
    using rollIfFull_snaps by (fastforce simp: failBatch_world snaps_le_def)
qed (simp_all add: failBatch_world rollIfFull_snaps)

section \<open>A log to evaluate on\<close>

text \<open>A directory with one empty segment, and the log open on it.\<close>

definition sample_world :: world where
  "sample_world = \<lparr>dir = [(segmentName 1, NFile 0)],
     inodes = (\<lambda>i. \<lparr>content = segmentHeader, synced = 8\<rparr>), nextInode = 1, nextHandle = 1, closedHandles = [],
     faults = [], clock = (\<lambda>n. of_nat n), tick = 0, cancels = []\<rparr>"

definition sample_log :: logState where
  "sample_log = \<lparr>lfile = \<lparr>hname = segmentName 1, hino = 0, hid = 0\<rparr>, loffset = 8, logSeq = 0, bytesSinceSnapshot = 0\<rparr>"

lemma sample_log_ok: "log_ok sample_world sample_log 0 [new_seg 1 0]"
  by (simp add: log_ok_def disk_log_def segs_in_dir_def sample_world_def sample_log_def listed_def HasSuffix_segmentName
      parse_segmentName seg_bytes_def maxSequence_def flushed_def segmentHeaderSize_def handles_ok_def is_open_def header_checks)

lemma sample_no_snapshots: "no_snapshots sample_world"
  by (simp add: no_snapshots_def sample_world_def listed_def segmentName_not_snap)

definition sample_requests :: "writeRequest list" where
  "sample_requests =
     [\<lparr>rkind = requestSet, rkey = [1], rvalue = [7], rdeadline = 0, rid = 0\<rparr>,
      \<lparr>rkind = requestDelete, rkey = [2], rvalue = [], rdeadline = 0, rid = 1\<rparr>]"

lemma sample_requests_good: "\<forall>r\<in>set sample_requests. good_request r"
  by (simp add: sample_requests_def good_request_def validateRecordSize_def layout)

lemma sample_store_healthy: "wf_store (newStoreState 2 200)" "lastError (stats (newStoreState 2 200)) = None"
  by (simp_all add: wf_newStoreState) (simp add: newStoreState_def zero_counters_def)

lemma power_loss_recovery:
  assumes "log_ok w log 0 S" "no_snapshots w" "power_loss w v" "0 < shardCount" "shardCount < 2 ^ 63"
  shows "\<exists>log2 st2 w2 R. recoverLog Caller (newStoreState shardCount cap) (restart v) = (Inr (log2, st2), w2) \<and>
    prefix R (all_recs S) \<and> contents st2 = replay R Map.empty \<and> logSequence st2 = last_seq 0 R \<and>
    (loffset log \<le> synced (inodes w (hino (lfile log))) \<longrightarrow> R = all_recs S)"
proof -
  from assms(1) have d: "disk_log w 0 S []" and off: "loffset log = length (content (inodes w (hino (lfile log))))"
    "hino (lfile log) = sino (last S)" and h: "handles_ok w"
    by (auto simp: log_ok_def disk_log_def)
  obtain S' t' where p: "disk_log v 0 S' t'" "prefix (all_recs S') (all_recs S)"
    "length (content (inodes w (sino (last S)))) \<le> synced (inodes w (sino (last S))) \<longrightarrow> S' = S \<and> t' = []"
    using power_loss_disk [OF d assms(3)] by blast
  have v: "handles_ok v" "no_snapshots v"
    using assms(2,3) h by (simp_all add: power_loss_def handles_ok_def no_snapshots_def)
  have fresh: "wf_store (newStoreState shardCount cap)" "contents (newStoreState shardCount cap) = Map.empty"
    "recoveryShard (newStoreState shardCount cap) = None"
    using wf_newStoreState [OF assms(4,5)] by (simp_all add: newStoreState_def)
  obtain log2 st2 w2 where "recoverLog Caller (newStoreState shardCount cap) (restart v) = (Inr (log2, st2), w2)"
    "contents st2 = replay (all_recs S') Map.empty" "logSequence st2 = last_seq 0 (all_recs S')"
    using recoverLog_disk [of "restart v" S' t' "newStoreState shardCount cap" Caller] p v fresh by auto
  then show ?thesis
    using p off by (intro exI [of _ log2] exI [of _ st2] exI [of _ w2] exI [of _ "all_recs S'"]) auto
qed

section \<open>Properties\<close>

text \<open>C2. A batch on a healthy log always returns, whatever system calls fail. It answers every
  request exactly once and in order: the first \<open>n\<close> without an error, and the others, if any,
  with the one error that is latched from then on. The log on disk holds the records it held,
  then the records of the \<open>n\<close> acknowledged requests with consecutive sequences, then at most the
  first \<open>j\<close> of the refused ones and a torn end; and the store holds nothing the log does not.\<close>

theorem write_batch_correct:
  assumes "log_ok w log base S" "wf_store st" "lastError (stats st) = None" "\<forall>r\<in>set rs. good_request r"
  shows "\<exists>st' log' ans w' n j S'. writeBatch segmentSize st log rs w = Some (st', log', ans, w') \<and>
    n + j \<le> length rs \<and> wf_store st' \<and> map fst ans = map rid rs \<and>
    contents st' \<subseteq>\<^sub>m replay (recs_of (logSeq log) (take n rs)) (contents st) \<and>
    all_recs S' = all_recs S @ recs_of (logSeq log) (take (n + j) rs) \<and>
    (if n = length rs
     then ans = acks rs \<and> lastError (stats st') = None \<and> log_ok w' log' base S'
     else \<exists>e t. lastError (stats st') = Some e \<and> ans = acks (take n rs) @ respondAll (drop n rs) e \<and>
            disk_log w' base S' t)"
proof -
  obtain out n j S' where o: "writeLoop segmentSize st log rs w = Some out"
    "batch_outcome base (all_recs S) (contents st) (logSeq log) rs out n j S'"
    using writeLoop_correct [OF assms] by blast
  obtain st' log' ans w' where out: "out = (st', log', ans, w')" by (metis prod_cases4)
  have "map fst (acks xs) = map rid xs" "map fst (respondAll xs e) = map rid xs" for xs e
    by (simp_all add: acks_def respondAll_def)
  moreover have "map rid (take n rs) @ map rid (drop n rs) = map rid rs"
    by (metis append_take_drop_id map_append)
  ultimately have "map fst ans = map rid rs"
    using o(2) out by (auto simp: batch_outcome_def simp del: take_map drop_map split: if_splits)
  then show ?thesis
    using o out assms(3) by (intro exI [of _ st'] exI [of _ log'] exI [of _ ans] exI [of _ w'] exI [of _ n] exI [of _ j] exI [of _ S'])
      (auto simp: writeBatch_def batch_outcome_def)
qed

theorem write_batch_correct_witness:
  "\<exists>st' log' ans w'. writeBatch 100 (newStoreState 2 200) sample_log sample_requests
       (sample_world\<lparr>faults := [Short 40 28]\<rparr>) = Some (st', log', ans, w') \<and>
     map fst ans = [0, 1]"
proof -
  have "log_ok (sample_world\<lparr>faults := [Short 40 28]\<rparr>) sample_log 0 [new_seg 1 0]"
    using sample_log_ok by (simp add: log_ok_def disk_log_def segs_in_dir_def handles_ok_def is_open_def flushed_def)
  from write_batch_correct [OF this sample_store_healthy sample_requests_good, of 100]
  show ?thesis by (fastforce simp: sample_requests_def)
qed

text \<open>Once a failure is latched, a batch changes nothing and answers every request with that
  failure.\<close>

lemma latched_batch_refused:
  assumes "lastError (stats st) = Some e"
  shows "writeBatch segmentSize st log rs w = Some (st, log, respondAll rs e, w) \<and>
    latch st e' = (e, st)"
  using assms by (simp add: writeBatch_def latch_def)

text \<open>C1. Every acknowledged write survives the death of the process: a store opened afterwards on
  the directory, which has no snapshot, recovers without an error and holds exactly what the
  records that were in the log, the acknowledged requests in order and some first few of the
  refused ones describe. Nothing else is lost and nothing is invented, whichever system calls
  failed during the batch.\<close>

theorem acknowledged_writes_survive:
  assumes "log_ok w log 0 S" "no_snapshots w" "wf_store st" "lastError (stats st) = None"
    "\<forall>r\<in>set rs. good_request r" "0 < shardCount" "shardCount < 2 ^ 63"
  shows "\<exists>st' log' ans w' n j log2 st2 w2. writeBatch segmentSize st log rs w = Some (st', log', ans, w') \<and>
    n + j \<le> length rs \<and> take n ans = acks (take n rs) \<and> (\<forall>a\<in>set (drop n ans). snd a \<noteq> None) \<and>
    recoverLog Caller (newStoreState shardCount cap) (restart w') = (Inr (log2, st2), w2) \<and>
    contents st2 = replay (all_recs S @ recs_of (logSeq log) (take (n + j) rs)) Map.empty"
proof -
  obtain out n j S' where o: "writeLoop segmentSize st log rs w = Some out"
    "batch_outcome 0 (all_recs S) (contents st) (logSeq log) rs out n j S'"
    using writeLoop_correct [OF assms(1,3,4,5)] by blast
  obtain st' log' ans w' where out: "out = (st', log', ans, w')" by (metis prod_cases4)
  have wb: "writeBatch segmentSize st log rs w = Some (st', log', ans, w')"
    using o(1) out assms(4) by (simp add: writeBatch_def)
  have ns: "no_snapshots (restart w')"
    using writeLoop_snaps [OF o(1)] snaps_le_none assms(2) out by simp
  obtain t where d: "disk_log w' 0 S' t" "handles_ok w'"
    using o(2) out by (auto simp: batch_outcome_def log_ok_def split: if_splits)
  have fresh: "wf_store (newStoreState shardCount cap)" "contents (newStoreState shardCount cap) = Map.empty"
    "recoveryShard (newStoreState shardCount cap) = None"
    using wf_newStoreState [OF assms(6,7)] by (simp_all add: newStoreState_def)
  have recs: "all_recs S' = all_recs S @ recs_of (logSeq log) (take (n + j) rs)"
    using o(2) out by (auto simp: batch_outcome_def)
  obtain log2 st2 w2 where rec: "recoverLog Caller (newStoreState shardCount cap) (restart w') = (Inr (log2, st2), w2)"
    "contents st2 = replay (all_recs S @ recs_of (logSeq log) (take (n + j) rs)) Map.empty"
    using recoverLog_disk [of "restart w'" S' t "newStoreState shardCount cap" Caller] d ns fresh unfolding recs by auto
  have "take n ans = acks (take n rs)" "\<forall>a\<in>set (drop n ans). snd a \<noteq> None" "n + j \<le> length rs"
    using o(2) out by (auto simp: batch_outcome_def acks_def respondAll_def split: if_splits)
  then show ?thesis
    using wb rec by blast
qed

theorem acknowledged_writes_survive_witness:
  "\<exists>st' log' ans w' n j log2 st2 w2.
     writeBatch 100 (newStoreState 2 200) sample_log sample_requests sample_world = Some (st', log', ans, w') \<and>
     take n ans = acks (take n sample_requests) \<and>
     recoverLog Caller (newStoreState 4 500) (restart w') = (Inr (log2, st2), w2) \<and>
     contents st2 = replay (recs_of 0 (take (n + j) sample_requests)) Map.empty"
  using acknowledged_writes_survive [OF sample_log_ok sample_no_snapshots sample_store_healthy sample_requests_good,
      of 4 100 500]
  by (fastforce simp: sample_log_def)



section \<open>Properties of recovery\<close>

lemma header_bytes:
  assumes "8 \<le> length data" "take 4 (take 8 data) = segmentMagic" "Uint16 (slice 4 6 (take 8 data)) = formatVersion"
    "Uint16 (slice 6 8 (take 8 data)) = 0"
  shows "take 8 data = segmentHeader"
proof -
  let ?h = "take 8 data"
  have "drop 4 ?h = slice 4 6 ?h @ drop 6 ?h" "drop 6 ?h = slice 6 8 ?h @ drop 8 ?h"
    by (rule drop_slice; simp)+
  then have "?h = take 4 ?h @ slice 4 6 ?h @ slice 6 8 ?h"
    using append_take_drop_id [of 4 ?h] by simp
  moreover have "slice 4 6 ?h = PutUint16 formatVersion" "slice 6 8 ?h = PutUint16 0"
    using assms Put_Uint(1) [of "slice 4 6 ?h"] Put_Uint(1) [of "slice 6 8 ?h"] by (simp_all add: length_slice)
  moreover have "PutUint16 0 = [0, 0]" by (simp add: PutUint16_def numeral_2_eq_2)
  ultimately have "?h = segmentMagic @ PutUint16 formatVersion @ [0, 0]"
    using assms(2) by (simp only:)
  then show ?thesis by (simp only: segmentHeader_layout)
qed

text \<open>C15. Whatever bytes a segment holds and whatever calls fail, when \<open>recoverSegment\<close> succeeds
  then the bytes it has read are exactly the encoding of a header and of records with
  consecutive sequences, the first of them the one the file is named for, and the store is the
  old one with those records replayed that the snapshot does not cover. No record is skipped
  and no damaged one is applied.\<close>

theorem recovered_bytes_are_records:
  assumes "recoverSegment c st seg final q snapshot through w = (Inr (f, off, q', st'), w')"
  shows "\<exists>rs. take off (content (inodes w (hino f))) = seg_bytes rs \<and> chain q rs \<and> q' = last_seq q rs \<and>
    (rs \<noteq> [] \<longrightarrow> lseq (hd rs) = snd seg) \<and> (\<forall>r\<in>set rs. lseq r \<le> through) \<and>
    st' = fold (replay_one snapshot) rs st"
proof -
  obtain w1 w2 where o: "openFile (fst seg) w = (Inr f, w1)"
    and r: "replayFile c f (snd seg) final q snapshot through st w1 = (Inr (off, q', st'), w2)"
    using assms by (auto simp: recoverSegment_def split: prod.splits sum.splits)
  have in1: "content (inodes w1 i) = content (inodes w i)" for i
    using o sysCall_keeps [of w]
    by (auto simp: openFile_def openHandle_def keeps_def split: prod.splits option.splits node.splits)
  obtain x2 w3 where c1: "fileCall f w1 = (x2, w3)" by fastforce
  obtain x4 w4 where c2: "fileCall f w3 = (x4, w4)" by fastforce
  define data where "data = fileBytes f w3"
  have data: "data = content (inodes w (hino f))"
    using fileCall_keeps [OF c1] in1 by (simp add: data_def fileBytes_def keeps_def)
  have h: "8 \<le> length data" "take 4 (take 8 data) = segmentMagic" "Uint16 (slice 4 6 (take 8 data)) = formatVersion"
    "Uint16 (slice 6 8 (take 8 data)) = 0"
    and run: "\<exists>w5. recoverRecords c f (snd seg) final snapshot through data 8 q True st w4 = (Inr (off, q', st'), w5)"
    using r c1 c2 unfolding replayFile_def
    by (auto simp: Let_def segmentHeaderSize_def data_def [symmetric] split: option.splits if_splits prod.splits sum.splits)
  obtain rs where rs: "chain q rs" "off = 8 + length (encodeRecs rs)" "slice 8 off data = encodeRecs rs"
    "q' = last_seq q rs" "\<forall>r\<in>set rs. lseq r \<le> through" "rs \<noteq> [] \<longrightarrow> lseq (hd rs) = snd seg"
    "st' = fold (replay_one snapshot) rs st"
    using run recoverRecords_sound h(1) by blast
  have "take off data = take 8 data @ slice 8 off data"
    using rs(2) by (simp add: slice_def take_add)
  then show ?thesis
    using rs header_bytes [OF h] data by (auto simp: seg_bytes_def)
qed

theorem recovered_bytes_are_records_witness:
  "\<exists>f off q' st' w'. recoverSegment Background (newStoreState 2 200) (segmentName 1, 1) True 0 noSnapshot maxSequence
       sample_world = (Inr (f, off, q', st'), w') \<and>
     (\<exists>rs. take off (content (inodes sample_world (hino f))) = seg_bytes rs \<and> chain 0 rs)"
proof -
  have "\<exists>f w'. recoverSegment Background (newStoreState 2 200) (seqfile_of (new_seg 1 0)) True 0 noSnapshot maxSequence sample_world =
      (Inr (f, length (seg_bytes (srecs (new_seg 1 0))), last_seq 0 (srecs (new_seg 1 0)),
        fold (replay_one noSnapshot) (srecs (new_seg 1 0)) (newStoreState 2 200)), w') \<and>
      replayed_disk [new_seg 1 0] sample_world f w' \<and> (([] :: bytes) = [] \<longrightarrow> inodes w' = inodes sample_world)"
    by (rule recoverSegment_disk [where t = "[]"])
      (simp_all add: sample_world_def calm_def handles_ok_def seg_bytes_def)
  then obtain f off q' st' w' where r: "recoverSegment Background (newStoreState 2 200) (segmentName 1, 1) True 0 noSnapshot
      maxSequence sample_world = (Inr (f, off, q', st'), w')" by auto
  show ?thesis using r recovered_bytes_are_records [OF r] by blast
qed

text \<open>C16. The last segment may end anywhere: when its bytes are those of a header and some records
  cut at any offset from the header on, recovery replays exactly the records that are complete,
  cuts the file back to their end, and leaves the log ready to append there.\<close>

theorem torn_tail_is_trimmed:
  assumes "calm w" "handles_ok w" "map_of (dir w) name = Some (NFile i)"
    and "content (inodes w i) = take n (seg_bytes rs)" "segmentHeaderSize \<le> n" "chain q rs" "q \<noteq> maxSequence"
  shows "\<exists>j f w'. j \<le> length rs \<and> (j < length rs \<longrightarrow> n < length (seg_bytes (take (Suc j) rs))) \<and>
    recoverSegment c st (name, q + 1) True q snapshot maxSequence w =
      (Inr (f, length (seg_bytes (take j rs)), last_seq q (take j rs), fold (replay_one snapshot) (take j rs) st), w') \<and>
    hino f = i \<and> content (inodes w' i) = seg_bytes (take j rs)"
proof -
  have good: "\<forall>r\<in>set rs. good_rec r" using chain_good [OF assms(6)] by blast
  obtain j t where j: "j \<le> length rs" "take (n - 8) (encodeRecs rs) = encodeRecs (take j rs) @ t" "t = [] \<or> torn t"
    "j < length rs \<longrightarrow> n - 8 < length (encodeRecs (take (Suc j) rs))"
    using cut_records [OF good, of "n - 8"] by blast
  let ?s = "\<lparr>sname = name, sfirst = q + 1, sino = i, srecs = take j rs\<rparr>"
  have n: "8 \<le> n" using assms(5) by (simp add: segmentHeaderSize_def)
  have bytes: "content (inodes w (sino ?s)) = seg_bytes (srecs ?s) @ t"
    using assms(4) j(2) n by (simp add: seg_bytes_def header_checks)
  have ch: "chain q (srecs ?s)" using assms(6) by (simp) (metis append_take_drop_id chain_append)
  obtain f w' where "recoverSegment c st (seqfile_of ?s) True q snapshot maxSequence w =
      (Inr (f, length (seg_bytes (srecs ?s)), last_seq q (srecs ?s), fold (replay_one snapshot) (srecs ?s) st), w')"
    "replayed_disk [?s] w f w'"
    using recoverSegment_disk [OF assms(1,2) _ bytes _ ch, of True c st snapshot] assms(3) j(3) by auto
  moreover have "j < length rs \<longrightarrow> n < length (seg_bytes (take (Suc j) rs))"
    using j(4) n by (auto simp: seg_bytes_def header_checks)
  ultimately show ?thesis using j(1) by (auto simp: replayed_disk_def)
qed

theorem torn_tail_is_trimmed_witness:
  "\<exists>j f w'. recoverSegment Background (newStoreState 2 200) (segmentName 1, 0 + 1) True 0 noSnapshot maxSequence
      (sample_world\<lparr>inodes := (\<lambda>_. \<lparr>content = take 30 (seg_bytes [LSet [1] [7] 0 1]), synced = 8\<rparr>)\<rparr>) =
      (Inr (f, length (seg_bytes (take j [LSet [1] [7] 0 1])), last_seq 0 (take j [LSet [1] [7] 0 1]),
        fold (replay_one noSnapshot) (take j [LSet [1] [7] 0 1]) (newStoreState 2 200)), w') \<and> j \<le> 1"
  using torn_tail_is_trimmed [of "sample_world\<lparr>inodes := (\<lambda>_. \<lparr>content = take 30 (seg_bytes [LSet [1] [7] 0 1]), synced = 8\<rparr>)\<rparr>"
      "segmentName 1" 0 30 "[LSet [1] [7] 0 1]" 0 Background "newStoreState 2 200" noSnapshot]
  by (fastforce simp: sample_world_def calm_def handles_ok_def maxSequence_def good_rec_def recordSizeFor_def layout)

text \<open>C17. A torn record is only ever trimmed at the end of the log: the same bytes in a segment that
  another one follows make recovery fail, with the file, the offset of the torn record and
  \<open>io.ErrUnexpectedEOF\<close>.\<close>

theorem torn_inner_segment_refused:
  assumes "calm w" "handles_ok w" "map_of (dir w) name = Some (NFile i)"
    and "content (inodes w i) = seg_bytes rs @ t" "torn t" "t \<noteq> []" "chain q rs" "rs \<noteq> [] \<longrightarrow> lseq (hd rs) = first"
  shows "\<exists>w'. recoverSegment c st (name, first) False q snapshot maxSequence w =
    (Inl (ErrRecover name (length (seg_bytes rs)) UnexpectedEOF), w')"
proof -
  obtain f w1 where o: "openFile name w = (Inr f, w1)" "hino f = i" "is_open f w1" "calm w1" "same_disk w w1"
    using openFile_calm [OF assms(1-3)] by blast
  define data where "data = seg_bytes rs @ t"
  have fb: "fileBytes f w1 = data" using o(2,5) assms(4) by (simp add: fileBytes_def same_disk_def data_def)
  have "recoverRecords c f first False snapshot maxSequence data (length segmentHeader) q True st w1 =
    recoverRecords c f first False snapshot maxSequence data (length (segmentHeader @ encodeRecs rs))
      (last_seq q rs) (True \<and> rs = []) (fold (replay_one snapshot) rs st) w1"
    by (rule recoverRecords_chain [OF o(4,3), where post = t])
      (use assms in \<open>auto simp: data_def seg_bytes_def maxSequence_def\<close>)
  also have "\<dots> = (Inl (length (seg_bytes rs), UnexpectedEOF), w1)"
    using recoverRecords_torn [OF o(4,3) assms(5,6), where pre = "seg_bytes rs"]
    by (simp add: data_def seg_bytes_def tornTail_def)
  finally have run: "recoverRecords c f first False snapshot maxSequence data 8 q True st w1 =
      (Inl (length (seg_bytes rs), UnexpectedEOF), w1)" by (simp add: header_checks)
  have hd8: "take 8 data = segmentHeader" "\<not> length data < 8" by (simp_all add: data_def seg_bytes_def header_checks)
  have "replayFile c f first False q snapshot maxSequence st w1 = (Inl (length (seg_bytes rs), UnexpectedEOF), w1)"
    unfolding replayFile_def
    by (simp add: o(3,4) fb Let_def hd8 header_checks Uint16_zeros run segmentHeaderSize_def)
  then show ?thesis using o(1) by (simp add: recoverSegment_def)
qed

theorem torn_inner_segment_refused_witness:
  "\<exists>w'. recoverSegment Background (newStoreState 2 200) (segmentName 1, 1) False 0 noSnapshot maxSequence
      (sample_world\<lparr>inodes := (\<lambda>_. \<lparr>content = seg_bytes [] @ take 9 (encodeRec (LDel [1] 1)), synced = 8\<rparr>)\<rparr>) =
      (Inl (ErrRecover (segmentName 1) (length (seg_bytes [])) UnexpectedEOF), w')"
proof (rule torn_inner_segment_refused [where i = 0 and t = "take 9 (encodeRec (LDel [1] 1))"])
  have len: "length (encodeRec (LDel [1] 1)) = 28"
    by (simp add: length_encodeRec length_recordPayload)
  show "torn (take 9 (encodeRec (LDel [1] 1)))"
    by (rule torn_prefix) (use len in \<open>simp_all add: good_rec_def recordSizeFor_def layout\<close>)
  show "take 9 (encodeRec (LDel [1] 1)) \<noteq> []" using len by auto
qed (simp_all add: sample_world_def calm_def handles_ok_def)

end
