(* ===== verification/Cache_Snapshot.thy ===== *)
theory Cache_Snapshot
  imports Cache_Recovery
begin

text \<open>
  Writing snapshots, \<open>src/cache/snapshot.go\<close>. An automatic snapshot runs in its own goroutine
  beside the writer, the sweep and the readers: it holds one shard's lock at a time, so
  \<open>env i\<close> is everything the other goroutines do to the store and to the directory before it
  locks shard \<open>i\<close> (and, for \<open>i\<close> the number of shards, before it takes the eviction interlock).
  The order of a \<open>range\<close> over a map is open, so the order in which the loop meets the keys of
  each shard is an argument, which sees the shard as it is then.
\<close>

type_synonym env = "nat \<Rightarrow> store \<times> world \<Rightarrow> store \<times> world"

type_synonym map_order = "nat \<Rightarrow> shard \<Rightarrow> key list"

text \<open>What Go promises of a \<open>range\<close> over a map: every key, once.\<close>

definition range_order :: "map_order \<Rightarrow> bool" where
  "range_order orders \<longleftrightarrow>
     (\<forall>i sh. finite (dom (entries sh)) \<longrightarrow> distinct (orders i sh) \<and> set (orders i sh) = dom (entries sh))"

lemma range_order_exists: "\<exists>orders. range_order orders"
proof -
  have "\<exists>xs. distinct xs \<and> set xs = dom (entries sh)" if "finite (dom (entries sh))" for sh :: shard
    using finite_distinct_list [OF that] by blast
  then have "range_order (\<lambda>i sh. SOME xs. distinct xs \<and> set xs = dom (entries sh))"
    unfolding range_order_def by (intro allI impI) (rule someI_ex, simp)
  then show ?thesis by (rule exI [of range_order])
qed

lemma range_order_empty:
  assumes "range_order orders" "entries sh = Map.empty"
  shows "orders i sh = []"
proof -
  have "finite (dom (entries sh))" using assms(2) by simp
  then have "set (orders i sh) = {}" using assms unfolding range_order_def by (metis dom_empty)
  then show ?thesis by simp
qed

section \<open>Filling the file\<close>

text \<open>\<open>WriteAt(header, 0)\<close>.\<close>

definition writeAtStart :: "handle \<Rightarrow> bytes \<Rightarrow> world \<Rightarrow> errno option \<times> world" where
  "writeAtStart f header w =
     (case fileCall f w of
        (Some e, w1) \<Rightarrow> (Some e, w1)
      | (None, w1) \<Rightarrow>
          let old = inodes w1 (hino f)
          in (None, putFile (hino f) (old\<lparr>content := header @ drop (length header) (content old)\<rparr>) w1))"

text \<open>The entries of one shard, in the order the map gives them.\<close>

fun writeEntries :: "handle \<Rightarrow> shard \<Rightarrow> key list \<Rightarrow> world \<Rightarrow> go_error option \<times> world" where
  "writeEntries f shard [] w = (None, w)"
| "writeEntries f shard (k # order) w =
     (case entries shard k of
        None \<Rightarrow> writeEntries f shard order w
      | Some current \<Rightarrow>
          (case writeFull f (encodeSnapshotEntry (heap shard current)) w of
             (Some e, w1) \<Rightarrow> (Some e, w1)
           | (None, w1) \<Rightarrow> writeEntries f shard order w1))"

text \<open>
  The loop over the shards whose indices are given; the log sequence and the entries of a shard
  are read under that shard's lock.
\<close>

fun writeShards :: "env \<Rightarrow> map_order \<Rightarrow> handle \<Rightarrow> nat list \<Rightarrow> store \<Rightarrow> world \<Rightarrow> u64 list res \<times> store \<times> world" where
  "writeShards env orders f [] store w = (Inr [], store, w)"
| "writeShards env orders f (index # rest) store w =
     (case env index (store, w) of
        (st, w1) \<Rightarrow>
          (case writeEntries f (shards st ! index) (orders index (shards st ! index)) w1 of
             (Some e, w2) \<Rightarrow> (Inl e, st, w2)
           | (None, w2) \<Rightarrow>
               (case writeShards env orders f rest st w2 of
                  (Inl e, st', w3) \<Rightarrow> (Inl e, st', w3)
                | (Inr sequences, st', w3) \<Rightarrow> (Inr (logSequence st # sequences), st', w3))))"

definition lowestOf :: "u64 list \<Rightarrow> u64" where
  "lowestOf sequences = fold (\<lambda>q m. if q < m then q else m) sequences (hd sequences)"

definition populateMemory :: "env \<Rightarrow> map_order \<Rightarrow> handle \<Rightarrow> store \<Rightarrow> world \<Rightarrow> u64 res \<times> store \<times> world" where
  "populateMemory env orders f store w =
     (let header = newSnapshotHeader (length (shards store))
      in case writeFull f header w of
           (Some e, w1) \<Rightarrow> (Inl e, store, w1)
         | (None, w1) \<Rightarrow>
             (case writeShards env orders f [0..<length (shards store)] store w1 of
                (Inl e, st, w2) \<Rightarrow> (Inl e, st, w2)
              | (Inr sequences, st, w2) \<Rightarrow>
                  (case writeAtStart f (putSequences 0 sequences header) w2 of
                     (Some e, w3) \<Rightarrow> (Inl (ErrOs ''finalize snapshot header'' e), st, w3)
                   | (None, w3) \<Rightarrow> (Inr (lowestOf sequences), st, w3))))"

section \<open>Installing the file\<close>

definition addSnapshot :: "store \<Rightarrow> store" where
  "addSnapshot store = store\<lparr>stats := (stats store)\<lparr>snapshots := snapshots (stats store) + 1\<rparr>\<rparr>"

text \<open>The part after the interlock is taken: the rename and the cleanup it permits.\<close>

definition publishSnapshot :: "u64 \<Rightarrow> handle \<Rightarrow> u64 \<Rightarrow> store \<Rightarrow> world \<Rightarrow> go_error option \<times> store \<times> world" where
  "publishSnapshot generation f low store w =
     (if evictionGeneration store \<noteq> generation then (None, store, snd (removeFile (hname f) w))
      else
        case renameFile (hname f) (snapshotName low) w of
          (Some e, w1) \<Rightarrow> (Some (ErrOs ''install snapshot'' e), store, snd (removeFile (hname f) w1))
        | (None, w1) \<Rightarrow>
            (case syncDirectory w1 of
               (Some e, w2) \<Rightarrow>
                 (Some (ErrInstalledBut (snapshotName low) (ErrOs ''directory sync'' e)), store, w2)
             | (None, w2) \<Rightarrow>
                 (case removeOtherSnapshots (snapshotName low) w2 of
                    (Some e, w3) \<Rightarrow> (Some (ErrInstalledBut (snapshotName low) e), store, w3)
                  | (None, w3) \<Rightarrow>
                      (case deleteSegmentsBefore low w3 of
                         (Some e, w4) \<Rightarrow> (Some (ErrInstalledBut (snapshotName low) e), store, w4)
                       | (None, w4) \<Rightarrow> (None, addSnapshot store, w4)))))"

text \<open>The temporary file with its permissions, and the file synced and closed when it is filled.\<close>

definition createSnapshotFile :: "world \<Rightarrow> handle res \<times> world" where
  "createSnapshotFile w =
     (case createTemp ''.snapshot-'' w of
        (Inl e, w1) \<Rightarrow> (Inl (ErrOs ''create snapshot temporary file'' e), w1)
      | (Inr f, w1) \<Rightarrow>
          (case fileCall f w1 of
             (Some e, w2) \<Rightarrow> (Inl (ErrOs ''set snapshot permissions'' e), discardTemp f w2)
           | (None, w2) \<Rightarrow> (Inr f, w2)))"

definition sealSnapshot :: "handle \<Rightarrow> world \<Rightarrow> go_error option \<times> world" where
  "sealSnapshot f w =
     (case syncFile f w of
        (Some e, w1) \<Rightarrow> (Some (ErrOs ''sync snapshot'' e), discardTemp f w1)
      | (None, w1) \<Rightarrow>
          (case closeFile f w1 of
             (Some e, w2) \<Rightarrow> (Some (ErrOs ''close snapshot'' e), snd (removeFile (hname f) w2))
           | (None, w2) \<Rightarrow> (None, w2)))"

definition installSnapshot :: "env \<Rightarrow> u64 \<Rightarrow> (handle \<Rightarrow> store \<Rightarrow> world \<Rightarrow> u64 res \<times> store \<times> world) \<Rightarrow>
    store \<Rightarrow> world \<Rightarrow> go_error option \<times> store \<times> world" where
  "installSnapshot env generation populate store w =
     (case createSnapshotFile w of
        (Inl e, w1) \<Rightarrow> (Some e, store, w1)
      | (Inr f, w1) \<Rightarrow>
          (case populate f store w1 of
             (Inl e, st, w2) \<Rightarrow> (Some e, st, discardTemp f w2)
           | (Inr low, st, w2) \<Rightarrow>
               (case sealSnapshot f w2 of
                  (Some e, w3) \<Rightarrow> (Some e, st, w3)
                | (None, w3) \<Rightarrow>
                    (case env (length (shards st)) (st, w3) of
                       (st', w4) \<Rightarrow> publishSnapshot generation f low st' w4))))"

definition writeSnapshotAt :: "env \<Rightarrow> map_order \<Rightarrow> u64 \<Rightarrow> store \<Rightarrow> world \<Rightarrow>
    go_error option \<times> store \<times> world" where
  "writeSnapshotAt env orders generation store w =
     installSnapshot env generation (populateMemory env orders) store w"

definition writeSnapshot :: "env \<Rightarrow> map_order \<Rightarrow> store \<Rightarrow> world \<Rightarrow> go_error option \<times> store \<times> world" where
  "writeSnapshot env orders store w =
     (if evictionGeneration store \<noteq> 0 then (Some (ErrEvicted (evictionGeneration store)), store, w)
      else writeSnapshotAt env orders (evictionGeneration store) store w)"

section \<open>Snapshots rebuilt from the log\<close>

text \<open>
  The store that a compaction fills from disk is private: the other goroutines only change
  the directory under it.
\<close>

definition diskOnly :: "(nat \<Rightarrow> world \<Rightarrow> world) \<Rightarrow> env" where
  "diskOnly envw i p = (fst p, envw i (snd p))"

definition shardCapacity :: "store \<Rightarrow> u64" where
  "shardCapacity store = capacity (shards store ! 0)"

definition writeDurableSnapshot :: "(nat \<Rightarrow> world \<Rightarrow> world) \<Rightarrow> map_order \<Rightarrow> u64 \<Rightarrow> store \<Rightarrow> world \<Rightarrow>
    go_error option \<times> store \<times> world" where
  "writeDurableSnapshot envw orders through store w =
     (case recoverDurableImage Background (newStoreState (length (shards store)) (shardCapacity store)) through w of
        (Inl e, w1) \<Rightarrow> (Some e, store, w1)
      | (Inr recovered, w1) \<Rightarrow>
          (case writeSnapshot (diskOnly envw) orders recovered w1 of
             (Some e, _, w2) \<Rightarrow> (Some e, store, w2)
           | (None, _, w2) \<Rightarrow> (None, addSnapshot store, w2)))"

text \<open>The loop of \<open>writeFinalSnapshot\<close>: each shard alone is rebuilt and written.\<close>

fun writeFinalShards :: "map_order \<Rightarrow> store \<Rightarrow> u64 \<Rightarrow> handle \<Rightarrow> nat list \<Rightarrow> world \<Rightarrow>
    go_error option \<times> world" where
  "writeFinalShards orders store through f [] w = (None, w)"
| "writeFinalShards orders store through f (i # is) w =
     (case recoverDurableImage Background
             ((newStoreState (length (shards store)) (shardCapacity store))\<lparr>recoveryShard := Some i\<rparr>) through w of
        (Inl e, w1) \<Rightarrow> (Some e, w1)
      | (Inr recovered, w1) \<Rightarrow>
          (case writeEntries f (shards recovered ! i) (orders i (shards recovered ! i)) w1 of
             (Some e, w2) \<Rightarrow> (Some e, w2)
           | (None, w2) \<Rightarrow> writeFinalShards orders store through f is w2))"

definition populateFinal :: "map_order \<Rightarrow> u64 \<Rightarrow> handle \<Rightarrow> store \<Rightarrow> world \<Rightarrow> u64 res \<times> store \<times> world" where
  "populateFinal orders through f store w =
     (let n = length (shards store);
          header = putSequences 0 (replicate n through) (newSnapshotHeader n)
      in case writeFull f header w of
           (Some e, w1) \<Rightarrow> (Inl e, store, w1)
         | (None, w1) \<Rightarrow>
             (case writeFinalShards orders store through f [0..<n] w1 of
                (Some e, w2) \<Rightarrow> (Inl e, store, w2)
              | (None, w2) \<Rightarrow> (Inr through, store, w2)))"

definition writeFinalSnapshot :: "env \<Rightarrow> map_order \<Rightarrow> u64 \<Rightarrow> store \<Rightarrow> world \<Rightarrow>
    go_error option \<times> store \<times> world" where
  "writeFinalSnapshot env orders through store w =
     (if evictionGeneration store = 0 then writeSnapshotAt env orders 0 store w
      else installSnapshot env (evictionGeneration store) (populateFinal orders through) store w)"

section \<open>Starting an automatic snapshot\<close>

text \<open>What the goroutine will run: a snapshot of the memory, or one rebuilt from the log.\<close>

datatype snapshotJob = MemoryJob u64 | DurableJob u64

text \<open>
  \<open>startSnapshot\<close> up to the \<open>go\<close> statement: \<open>Some job\<close> when it returns true. The clearing of
  \<open>snapshotRunning\<close> on an abort follows the code.
\<close>

definition startSnapshot :: "store \<Rightarrow> logState \<Rightarrow> world \<Rightarrow> snapshotJob option \<times> store \<times> logState \<times> world" where
  "startSnapshot store log w =
     (if lastError (stats store) \<noteq> None \<or> snapshotRunning store then (None, store, log, w)
      else if evictionGeneration store \<noteq> 0 then
        (if logSeq log = maxSequence then (None, store, log, w)
         else
           case rollSegment (store\<lparr>snapshotRunning := True\<rparr>) log (logSeq log + 1) w of
             (Some e, st, log1, w1) \<Rightarrow> (None, (snd (latch st e))\<lparr>snapshotRunning := False\<rparr>, log1, w1)
           | (None, st, log1, w1) \<Rightarrow> (Some (DurableJob (logSeq log)), st, log1, w1))
      else (Some (MemoryJob (evictionGeneration store)), store\<lparr>snapshotRunning := True\<rparr>, log, w))"

definition setSnapshotError :: "go_error option \<Rightarrow> store \<Rightarrow> store" where
  "setSnapshotError e store = store\<lparr>stats := (stats store)\<lparr>lastSnapshotError := e\<rparr>\<rparr>"

text \<open>
  The goroutine: \<open>successful\<close> is the count of snapshots when it was started. \<open>finishSnapshot\<close> is what
  follows \<open>write()\<close>.
\<close>

definition finishSnapshot :: "u64 \<Rightarrow> go_error option \<Rightarrow> store \<Rightarrow> store" where
  "finishSnapshot successful err store =
     (case err of
        Some e \<Rightarrow> (setSnapshotError (Some e) store)\<lparr>snapshotRunning := False\<rparr>
      | None \<Rightarrow> (if successful < snapshots (stats store) then setSnapshotError None store else store)
                  \<lparr>snapshotRunning := False\<rparr>)"

definition runSnapshot :: "env \<Rightarrow> (nat \<Rightarrow> world \<Rightarrow> world) \<Rightarrow> map_order \<Rightarrow> u64 \<Rightarrow> snapshotJob \<Rightarrow> store \<Rightarrow> world \<Rightarrow>
    store \<times> world" where
  "runSnapshot env envw orders successful job store w =
     (case (case job of
              MemoryJob generation \<Rightarrow> writeSnapshotAt env orders generation store w
            | DurableJob through \<Rightarrow> writeDurableSnapshot envw orders through store w) of
        (err, st, w1) \<Rightarrow> (finishSnapshot successful err st, w1))"

section \<open>An automatic snapshot step by step\<close>

text \<open>
  The same goroutine as a sequence of steps, between which any other goroutine may run: it
  creates the file and its header, writes one shard per step under the lock of that shard,
  completes the file, and publishes it under the interlock. A durable snapshot reads the
  private store it has recovered (\<open>Some recovered\<close>), one of the memory the store itself. \<open>Filling\<close>
  knows the number of shards and the sequences of the shards that are written.
\<close>

datatype snapshotPhase =
    Starting snapshotJob
  | Filling "store option" u64 handle nat "u64 list"
  | Installing "store option" u64 handle u64

definition beginFilling :: "store option \<Rightarrow> u64 \<Rightarrow> nat \<Rightarrow> world \<Rightarrow> (go_error option + snapshotPhase) \<times> world" where
  "beginFilling src generation count w =
     (case createSnapshotFile w of
        (Inl e, w1) \<Rightarrow> (Inl (Some e), w1)
      | (Inr f, w1) \<Rightarrow>
          (case writeFull f (newSnapshotHeader count) w1 of
             (Some e, w2) \<Rightarrow> (Inl (Some e), discardTemp f w2)
           | (None, w2) \<Rightarrow> (Inr (Filling src generation f count []), w2)))"

definition fillShard :: "map_order \<Rightarrow> store option \<Rightarrow> u64 \<Rightarrow> handle \<Rightarrow> nat \<Rightarrow> u64 list \<Rightarrow> store \<Rightarrow> world \<Rightarrow>
    (go_error option + snapshotPhase) \<times> world" where
  "fillShard orders src generation f count sequences store w =
     (let index = length sequences; shard = shards store ! index
      in case writeEntries f shard (orders index shard) w of
           (Some e, w1) \<Rightarrow> (Inl (Some e), discardTemp f w1)
         | (None, w1) \<Rightarrow> (Inr (Filling src generation f count (sequences @ [logSequence store])), w1))"

definition endFilling :: "store option \<Rightarrow> u64 \<Rightarrow> handle \<Rightarrow> nat \<Rightarrow> u64 list \<Rightarrow> world \<Rightarrow>
    (go_error option + snapshotPhase) \<times> world" where
  "endFilling src generation f count sequences w =
     (case writeAtStart f (putSequences 0 sequences (newSnapshotHeader count)) w of
        (Some e, w1) \<Rightarrow> (Inl (Some (ErrOs ''finalize snapshot header'' e)), discardTemp f w1)
      | (None, w1) \<Rightarrow>
          (case sealSnapshot f w1 of
             (Some e, w2) \<Rightarrow> (Inl (Some e), w2)
           | (None, w2) \<Rightarrow> (Inr (Installing src generation f (lowestOf sequences)), w2)))"

definition source :: "store option \<Rightarrow> store \<Rightarrow> store" where
  "source src store = (case src of None \<Rightarrow> store | Some recovered \<Rightarrow> recovered)"

text \<open>One step: \<open>Inl err\<close> when \<open>write()\<close> has returned \<open>err\<close>.\<close>

fun phaseStep :: "map_order \<Rightarrow> snapshotPhase \<Rightarrow> store \<Rightarrow> world \<Rightarrow>
    (go_error option + snapshotPhase) \<times> store \<times> world" where
  "phaseStep orders (Starting (MemoryJob generation)) store w =
     (case beginFilling None generation (length (shards store)) w of (r, w1) \<Rightarrow> (r, store, w1))"
| "phaseStep orders (Starting (DurableJob through)) store w =
     (case recoverDurableImage Background (newStoreState (length (shards store)) (shardCapacity store)) through w of
        (Inl e, w1) \<Rightarrow> (Inl (Some e), store, w1)
      | (Inr recovered, w1) \<Rightarrow>
          if evictionGeneration recovered \<noteq> 0 then (Inl (Some (ErrEvicted (evictionGeneration recovered))), store, w1)
          else
            case beginFilling (Some recovered) (evictionGeneration recovered) (length (shards recovered)) w1 of
              (r, w2) \<Rightarrow> (r, store, w2))"
| "phaseStep orders (Filling src generation f count sequences) store w =
     (if length sequences < count
      then case fillShard orders src generation f count sequences (source src store) w of (r, w1) \<Rightarrow> (r, store, w1)
      else case endFilling src generation f count sequences w of (r, w1) \<Rightarrow> (r, store, w1))"
| "phaseStep orders (Installing src generation f low) store w =
     (case publishSnapshot generation f low (source src store) w of
        (err, st, w1) \<Rightarrow>
          (Inl err, case src of None \<Rightarrow> st | Some recovered \<Rightarrow> (if err = None then addSnapshot store else store), w1))"

text \<open>
  The steps of a snapshot to its end, as the writer waits for it in \<open>Close\<close>; \<open>env i\<close> is what the
  others do before shard \<open>i\<close> is locked and, for \<open>i\<close> the number of shards, before the interlock is taken.
\<close>

fun before :: "env \<Rightarrow> snapshotPhase \<Rightarrow> store \<times> world \<Rightarrow> store \<times> world" where
  "before env (Starting job) p = p"
| "before env (Filling src generation f count sequences) p =
     (if length sequences < count then env (length sequences) p else p)"
| "before env (Installing src generation f low) p = env (length (shards (source src (fst p)))) p"

fun phaseRank :: "snapshotPhase \<Rightarrow> nat \<times> nat" where
  "phaseRank (Starting job) = (2, 0)"
| "phaseRank (Filling src generation f count sequences) = (1, count - length sequences)"
| "phaseRank (Installing src generation f low) = (0, 0)"

lemma phaseStep_rank:
  "phaseStep orders phase st w = (Inr phase', st', w') \<Longrightarrow>
     (phaseRank phase', phaseRank phase) \<in> less_than <*lex*> less_than"
  by (induction orders phase st w rule: phaseStep.induct)
    (auto simp: beginFilling_def fillShard_def endFilling_def Let_def
      split: prod.splits sum.splits option.splits if_splits)

function drivePhases :: "env \<Rightarrow> map_order \<Rightarrow> snapshotPhase \<Rightarrow> store \<Rightarrow> world \<Rightarrow> go_error option \<times> store \<times> world" where
  "drivePhases env orders phase store w =
     (case before env phase (store, w) of
        (st, w1) \<Rightarrow>
          (case phaseStep orders phase st w1 of
             (Inl err, st', w2) \<Rightarrow> (err, st', w2)
           | (Inr phase', st', w2) \<Rightarrow> drivePhases env orders phase' st' w2))"
  by pat_completeness auto
termination
  by (relation "inv_image (less_than <*lex*> less_than) (\<lambda>(env, orders, phase, store, w). phaseRank phase)")
    (auto dest!: sym [of "(_, _, _)"] phaseStep_rank simp del: in_lex_prod)

declare drivePhases.simps [simp del]

end
