(* ===== verification/Cache_Options.thy ===== *)
theory Cache_Options
  imports Cache_Record
begin

unbundle bit_operations_syntax

text \<open>
  \<open>src/cache/options.go\<close>: the options of \<open>Open\<close> and their defaults. Durations are their
  nanoseconds. An option that \<open>Open\<close> is given is a value of \<open>option_arg\<close>, or \<open>None\<close> for a nil
  function.
\<close>

record options =
  oshards :: int
  ocapacity :: u64
  flushInterval :: int
  segmentSize :: int
  snapshotThreshold :: int
  sweepInterval :: int
  hasLogger :: bool

datatype option_arg =
    WithShards int
  | WithCapacity u64
  | WithFlushInterval int
  | WithSegmentSize int
  | WithSnapshotThreshold int
  | WithSweepInterval int
  | WithLogger bool

text \<open>What each option does when it is applied; \<open>WithLogger False\<close> is a nil logger.\<close>

fun applyOption :: "option_arg \<Rightarrow> options \<Rightarrow> options res" where
  "applyOption (WithShards count) opts =
     (if count \<le> 0 \<or> count AND (count - 1) \<noteq> 0
      then Inl (ErrOption ''WithShards'') else Inr (opts\<lparr>oshards := count\<rparr>))"
| "applyOption (WithCapacity b) opts =
     (if b = 0 then Inl (ErrOption ''WithCapacity'') else Inr (opts\<lparr>ocapacity := b\<rparr>))"
| "applyOption (WithFlushInterval i) opts =
     (if i \<le> 0 then Inl (ErrOption ''WithFlushInterval'') else Inr (opts\<lparr>flushInterval := i\<rparr>))"
| "applyOption (WithSegmentSize s) opts =
     (if s \<le> int segmentHeaderSize then Inl (ErrOption ''WithSegmentSize'') else Inr (opts\<lparr>segmentSize := s\<rparr>))"
| "applyOption (WithSnapshotThreshold b) opts =
     (if b \<le> 0 then Inl (ErrOption ''WithSnapshotThreshold'') else Inr (opts\<lparr>snapshotThreshold := b\<rparr>))"
| "applyOption (WithSweepInterval i) opts =
     (if i \<le> 0 then Inl (ErrOption ''WithSweepInterval'') else Inr (opts\<lparr>sweepInterval := i\<rparr>))"
| "applyOption (WithLogger present) opts =
     (if present then Inr (opts\<lparr>hasLogger := True\<rparr>) else Inl (ErrOption ''WithLogger''))"

text \<open>The loop of \<open>defaultOptions\<close>: the least power of two that is at least \<open>GOMAXPROCS\<close>.\<close>

function defaultShards :: "int \<Rightarrow> int \<Rightarrow> int" where
  "defaultShards procs count =
     (if 0 < count \<and> count < procs then defaultShards procs (push_bit 1 count) else count)"
  by pat_completeness auto
termination
  by (relation "measure (\<lambda>(procs, count). nat (procs - count))") (auto simp: push_bit_eq_mult)

declare defaultShards.simps [simp del]

definition defaultOptions :: "int \<Rightarrow> options" where
  "defaultOptions procs =
     \<lparr>oshards = defaultShards procs 1, ocapacity = 268435456, flushInterval = 1000000000,
      segmentSize = 67108864, snapshotThreshold = 268435456, sweepInterval = 1000000000, hasLogger = False\<rparr>"

text \<open>The loop of \<open>Open\<close> over the supplied options, with the index of the next one.\<close>

fun applyOptions :: "nat \<Rightarrow> option_arg option list \<Rightarrow> options \<Rightarrow> options res" where
  "applyOptions i [] opts = Inr opts"
| "applyOptions i (None # rest) opts = Inl (ErrNilOption i)"
| "applyOptions i (Some x # rest) opts =
     (case applyOption x opts of Inl e \<Rightarrow> Inl e | Inr opts' \<Rightarrow> applyOptions (Suc i) rest opts')"

text \<open>The check of \<open>Open\<close> on the capacity of a shard.\<close>

definition capacityError :: "options \<Rightarrow> go_error option" where
  "capacityError opts =
     (if ocapacity opts div of_int (oshards opts) < entryOverhead then Some (ErrOption ''WithCapacity'') else None)"

section \<open>Powers of two\<close>

lemma and_pred_power: "(2::int) ^ n AND (2 ^ n - 1) = 0"
  by (simp add: mask_eq_exp_minus_1 [symmetric] take_bit_eq_mask [symmetric] take_bit_eq_mod)

lemma odd_and_pred: "odd (c::int) \<Longrightarrow> c AND (c - 1) = c - 1"
proof (rule bit_eqI)
  fix n assume c: "odd c"
  show "bit (c AND (c - 1)) n = bit (c - 1) n"
  proof (cases n)
    case 0
    then show ?thesis using c by (simp add: bit_0 even_and_iff)
  next
    case (Suc m)
    have "(c - 1) div 2 = c div 2" using c by (auto elim: oddE)
    then have "bit (c - 1) (Suc m) = bit c (Suc m)" by (simp add: bit_Suc)
    then show ?thesis by (simp only: Suc bit_and_iff simp_thms)
  qed
qed

lemma power_of_two_check:
  assumes "0 < (c::int)" "c AND (c - 1) = 0"
  shows "\<exists>n. c = 2 ^ n"
  using assms
proof (induction "nat c" arbitrary: c rule: less_induct)
  case less
  show ?case
  proof (cases "even c")
    case False
    then have "c - 1 = 0" using odd_and_pred less.prems(2) by simp
    then show ?thesis by (intro exI [of _ 0]) simp
  next
    case True
    then obtain d where d: "c = 2 * d" by (elim evenE)
    have "(2 * d) AND (2 * d - 1) = 2 * (d AND (d - 1))"
    proof (rule bit_eqI)
      fix n show "bit ((2 * d) AND (2 * d - 1)) n = bit (2 * (d AND (d - 1))) n"
      proof (cases n)
        case (Suc m)
        have half: "(2 * d - 1) div 2 = d - 1" by presburger
        have "bit (2 * d) (Suc m) = bit d m" "bit (2 * d - 1) (Suc m) = bit (d - 1) m"
          "bit (2 * (d AND (d - 1))) (Suc m) = bit (d AND (d - 1)) m"
          by (simp_all add: bit_Suc half)
        then show ?thesis by (simp only: Suc bit_and_iff)
      qed (simp add: bit_0 even_and_iff)
    qed
    then have "d AND (d - 1) = 0" using less.prems(2) d by simp
    moreover have "0 < d" "nat d < nat c" using less.prems(1) d by auto
    ultimately obtain n where "d = 2 ^ n" using less.hyps by blast
    then show ?thesis using d by (intro exI [of _ "Suc n"]) simp
  qed
qed

lemma defaultShards_power:
  "\<exists>n. count = 2 ^ n \<Longrightarrow> \<exists>n. defaultShards procs count = 2 ^ n \<and> procs \<le> defaultShards procs count"
proof (induction procs count rule: defaultShards.induct)
  case (1 procs count)
  show ?case
  proof (cases "0 < count \<and> count < procs")
    case True
    obtain n where "count = 2 ^ n" using 1 by auto
    then have "\<exists>n. push_bit 1 count = (2::int) ^ n" by (intro exI [of _ "Suc n"]) (simp add: push_bit_eq_mult)
    then show ?thesis using 1(1) True by (subst (1 2) defaultShards.simps) auto
  next
    case False
    have "0 < count" using 1 by auto
    then show ?thesis using False 1 by (subst (1 2) defaultShards.simps) auto
  qed
qed

section \<open>Properties\<close>

text \<open>The options that \<open>Open\<close> goes on with.\<close>

definition options_ok :: "options \<Rightarrow> bool" where
  "options_ok opts \<longleftrightarrow> (\<exists>n. oshards opts = 2 ^ n) \<and> ocapacity opts \<noteq> 0 \<and> 0 < flushInterval opts \<and>
     int segmentHeaderSize < segmentSize opts \<and> 0 < snapshotThreshold opts \<and> 0 < sweepInterval opts"

lemma applyOption_ok: "options_ok opts \<Longrightarrow> applyOption x opts = Inr opts' \<Longrightarrow> options_ok opts'"
  using power_of_two_check by (cases x) (auto simp: options_ok_def split: if_splits)

lemma applyOptions_ok: "options_ok opts \<Longrightarrow> applyOptions i xs opts = Inr opts' \<Longrightarrow> options_ok opts'"
  by (induction i xs opts rule: applyOptions.induct) (auto dest: applyOption_ok split: sum.splits)

lemma defaultOptions_ok: "options_ok (defaultOptions procs)"
  using defaultShards_power [OF exI [of _ 0], of 1 procs] by (auto simp: options_ok_def defaultOptions_def layout)

lemma withShards_accepts: "(\<exists>opts'. applyOption (WithShards c) opts = Inr opts') \<longleftrightarrow> (\<exists>n. c = 2 ^ n)"
proof
  show "\<exists>opts'. applyOption (WithShards c) opts = Inr opts' \<Longrightarrow> \<exists>n. c = 2 ^ n"
    using power_of_two_check by (auto split: if_splits)
  assume "\<exists>n. c = 2 ^ n"
  then show "\<exists>opts'. applyOption (WithShards c) opts = Inr opts'" using and_pred_power by auto
qed

text \<open>C36. Whatever options are supplied, when they are all accepted the result has a power of two
  shards, a segment size beyond the header, and positive capacity, intervals and threshold;
  and the test \<open>count&(count-1)\<close> of \<open>WithShards\<close> accepts exactly the powers of two.\<close>

theorem accepted_options_are_valid:
  assumes "applyOptions 0 supplied (defaultOptions procs) = Inr opts"
  shows "options_ok opts \<and> ((\<exists>opts'. applyOption (WithShards c) opts = Inr opts') \<longleftrightarrow> (\<exists>n. c = 2 ^ n))"
  using applyOptions_ok [OF defaultOptions_ok assms] withShards_accepts by blast

theorem accepted_options_are_valid_witness:
  "options_ok ((defaultOptions 3)\<lparr>oshards := 8\<rparr>) \<and> \<not> (\<exists>opts'. applyOption (WithShards 0) (defaultOptions 3) = Inr opts')"
  using accepted_options_are_valid [of "[Some (WithShards 8)]" 3 "(defaultOptions 3)\<lparr>oshards := 8\<rparr>" 0]
  by simp

end
