(* ===== verification/Cache_Store.thy ===== *)
theory Cache_Store
  imports Cache_Snapshot Cache_Options
begin

unbundle bit_operations_syntax

text \<open>
  The life of a store: \<open>Open\<close>, the public operations and \<open>Close\<close> of \<open>store.go\<close>, the directory
  lock of \<open>lock_unix.go\<close>, and the writer goroutine of \<open>wal.go\<close>. The goroutines run as the steps
  of a relation over the whole system, so a theorem about all its runs is a theorem about
  every interleaving.
\<close>

section \<open>The directory lock\<close>

definition EINTR :: errno where "EINTR = 4"
definition EWOULDBLOCK :: errno where "EWOULDBLOCK = 11"

text \<open>\<open>retryEINTR\<close>; \<open>None\<close> is a call that is interrupted for ever.\<close>

partial_function (option) retryEINTR :: "(world \<Rightarrow> errno option \<times> world) \<Rightarrow> world \<Rightarrow> (errno option \<times> world) option" where
  "retryEINTR operation w =
     (case operation w of
        (err, w1) \<Rightarrow> if err = Some EINTR then retryEINTR operation w1 else Some (err, w1))"

text \<open>\<open>flock\<close> on an open file: it succeeds, or fails with the error of the call.\<close>

definition acquireDirectoryLock :: "handle \<Rightarrow> world \<Rightarrow> (go_error option \<times> world) option" where
  "acquireDirectoryLock f w =
     do {
       (err, w1) \<leftarrow> retryEINTR (fileCall f) w;
       Some (case err of
               None \<Rightarrow> None
             | Some e \<Rightarrow> Some (if e = EWOULDBLOCK then ErrLockHeld else ErrOs ''lock store directory'' e), w1)
     }"

definition releaseDirectoryLock :: "handle \<Rightarrow> world \<Rightarrow> (go_error option \<times> world) option" where
  "releaseDirectoryLock f w =
     do {
       (err, w1) \<leftarrow> retryEINTR (fileCall f) w;
       Some (map_option (ErrOs ''unlock store directory'') err, w1)
     }"

section \<open>Opening\<close>

text \<open>\<open>os.OpenFile(dir/LOCK, O_CREATE|O_RDWR)\<close>.\<close>

definition openLock :: "world \<Rightarrow> (errno + handle) \<times> world" where
  "openLock w =
     (case sysCall w of
        (Some e, w1) \<Rightarrow> (Inl e, w1)
      | (None, w1) \<Rightarrow>
          (case map_of (dir w1) ''LOCK'' of
             Some (NFile i) \<Rightarrow> (case openHandle ''LOCK'' i w1 of (h, w2) \<Rightarrow> (Inr h, w2))
           | Some (NLink i) \<Rightarrow> (case openHandle ''LOCK'' i w1 of (h, w2) \<Rightarrow> (Inr h, w2))
           | Some NDir \<Rightarrow> (Inl EISDIR, w1)
           | None \<Rightarrow>
               (let i = nextInode w1;
                    w2 = w1\<lparr>dir := AList.update ''LOCK'' (NFile i) (dir w1),
                            inodes := (inodes w1)(i := \<lparr>content = [], synced = 0\<rparr>),
                            nextInode := Suc i\<rparr>
                in case openHandle ''LOCK'' i w2 of (h, w3) \<Rightarrow> (Inr h, w3))))"

text \<open>Releasing and closing the lock when opening fails after it was taken.\<close>

definition dropLock :: "handle \<Rightarrow> world \<Rightarrow> world option" where
  "dropLock f w =
     do {
       (err, w1) \<leftarrow> releaseDirectoryLock f w;
       Some (snd (closeFile f w1))
     }"

text \<open>The part of \<open>Open\<close> that holds the lock; the maps of the recovered store are met in \<open>orders\<close>.\<close>

definition openLocked :: "options \<Rightarrow> (store \<Rightarrow> key list list) \<Rightarrow> handle \<Rightarrow> world \<Rightarrow>
    ((store \<times> logState) res \<times> world) option" where
  "openLocked opts orders lock w =
     (let store = newStoreState (nat (oshards opts)) (ocapacity opts div of_int (oshards opts))
      in case removeTemporaryFiles w of
           (Some e, w1) \<Rightarrow> do { w2 \<leftarrow> dropLock lock w1; Some (Inl e, w2) }
         | (None, w1) \<Rightarrow>
             (case recoverLog Caller store w1 of
                (Inl e, w2) \<Rightarrow> do { w3 \<leftarrow> dropLock lock w2; Some (Inl e, w3) }
              | (Inr (log, recovered), w2) \<Rightarrow>
                  (case now w2 of
                     (t, w3) \<Rightarrow>
                       do {
                         st \<leftarrow> enforceRecoveredState recovered t (orders recovered);
                         Some (Inr (st, log), w3)
                       })))"

definition Open :: "bool \<Rightarrow> int \<Rightarrow> option_arg option list \<Rightarrow> (store \<Rightarrow> key list list) \<Rightarrow> world \<Rightarrow>
    ((options \<times> handle \<times> store \<times> logState) res \<times> world) option" where
  "Open hasContext procs supplied orders w =
     (if \<not> hasContext then Some (Inl ErrNilContext, w)
      else
        case applyOptions 0 supplied (defaultOptions procs) of
          Inl e \<Rightarrow> Some (Inl e, w)
        | Inr opts \<Rightarrow>
            (case capacityError opts of
               Some e \<Rightarrow> Some (Inl e, w)
             | None \<Rightarrow>
                 (case ctxErr Caller w of
                    (True, w1) \<Rightarrow> Some (Inl (ErrContext ''recover''), w1)
                  | (False, w1) \<Rightarrow>
                      (case sysCall w1 of
                         (Some e, w2) \<Rightarrow> Some (Inl (ErrOs ''create directory'' e), w2)
                       | (None, w2) \<Rightarrow>
                           (case openLock w2 of
                              (Inl e, w3) \<Rightarrow> Some (Inl (ErrOs ''open lock'' e), w3)
                            | (Inr lock, w3) \<Rightarrow>
                                do {
                                  (err, w4) \<leftarrow> acquireDirectoryLock lock w3;
                                  (case err of
                                     Some e \<Rightarrow> Some (Inl e, snd (closeFile lock w4))
                                   | None \<Rightarrow>
                                       do {
                                         (r, w5) \<leftarrow> openLocked opts orders lock w4;
                                         Some (case r of Inl e \<Rightarrow> Inl e | Inr (st, log) \<Rightarrow> Inr (opts, lock, st, log), w5)
                                       })
                                })))))"

section \<open>Requests\<close>

text \<open>
  What \<open>Set\<close>, \<open>SetTTL\<close>, \<open>Delete\<close> and \<open>Sync\<close> hand to \<open>submit\<close>, or the error they return at once.
  \<open>ttl\<close> is in nanoseconds; \<open>time.Now().Add(ttl).UnixNano()\<close> is the sum of 64-bit integers.
\<close>

definition setRequest :: "store \<Rightarrow> nat \<Rightarrow> key \<Rightarrow> bytes \<Rightarrow> writeRequest res" where
  "setRequest store i key val =
     (case validateEntrySize store key (length val) of
        Some e \<Rightarrow> Inl e
      | None \<Rightarrow> Inr \<lparr>rkind = requestSet, rkey = key, rvalue = val, rdeadline = 0, rid = i\<rparr>)"

definition setTTLRequest :: "store \<Rightarrow> nat \<Rightarrow> key \<Rightarrow> bytes \<Rightarrow> i64 \<Rightarrow> i64 \<Rightarrow> writeRequest res" where
  "setTTLRequest store i key val ttl t =
     (if ttl \<le>s 0 then Inl ErrTTL
      else
        case validateEntrySize store key (length val) of
          Some e \<Rightarrow> Inl e
        | None \<Rightarrow> Inr \<lparr>rkind = requestSet, rkey = key, rvalue = val, rdeadline = t + ttl, rid = i\<rparr>)"

definition deleteRequest :: "nat \<Rightarrow> key \<Rightarrow> writeRequest res" where
  "deleteRequest i key =
     (case validateRecordSize key 0 of
        Some e \<Rightarrow> Inl e
      | None \<Rightarrow> Inr \<lparr>rkind = requestDelete, rkey = key, rvalue = [], rdeadline = 0, rid = i\<rparr>)"

definition syncRequest :: "nat \<Rightarrow> writeRequest" where
  "syncRequest i = \<lparr>rkind = requestSync, rkey = [], rvalue = [], rdeadline = 0, rid = i\<rparr>"

definition closeRequest :: "nat \<Rightarrow> writeRequest" where
  "closeRequest i = \<lparr>rkind = requestClose, rkey = [], rvalue = [], rdeadline = 0, rid = i\<rparr>"

section \<open>Reading counters\<close>

definition Len :: "store \<Rightarrow> u64" where
  "Len store = entryTotal store"

definition Bytes :: "store \<Rightarrow> u64" where
  "Bytes store = byteTotal store"

text \<open>The error that \<open>Stats\<close> reports: the latched one, else the last one of a snapshot.\<close>

definition statsError :: "store \<Rightarrow> go_error option" where
  "statsError store =
     (case lastError (stats store) of Some e \<Rightarrow> Some e | None \<Rightarrow> lastSnapshotError (stats store))"

text \<open>\<open>Stats\<close>: the struct, with the error itself for its text, and the method.\<close>

record storeStats =
  Hits :: u64
  Misses :: u64
  Expiries :: u64
  Evictions :: u64
  RecordsWritten :: u64
  BytesWritten :: u64
  Fsyncs :: u64
  Snapshots :: u64
  LastError :: "go_error option"

definition Stats :: "store \<Rightarrow> storeStats" where
  "Stats store =
     \<lparr>Hits = hits (stats store), Misses = misses (stats store), Expiries = expiries (stats store),
      Evictions = evictions (stats store), RecordsWritten = recordsWritten (stats store),
      BytesWritten = bytesWritten (stats store), Fsyncs = fsyncs (stats store), Snapshots = snapshots (stats store),
      LastError = statsError store\<rparr>"

section \<open>The writer\<close>

text \<open>
  What the other goroutines do during a turn of the writer. The ticker and the sweep have stopped
  when \<open>Close\<close> sends its request, so only readers are left while the final snapshot is written:
  \<open>sreads i\<close> are the keys that clients read before shard \<open>i\<close> is locked. \<open>swaitReads\<close> is the same for
  the automatic snapshot that \<open>Close\<close> waits for. The orders are those of the maps.
\<close>

record schedule =
  sreads :: "nat \<Rightarrow> key list"
  sorders :: map_order
  swaitReads :: "nat \<Rightarrow> key list"
  swaitOrders :: map_order

definition clientRead :: "key \<Rightarrow> store \<times> world \<Rightarrow> store \<times> world" where
  "clientRead key p = (case now (snd p) of (t, w) \<Rightarrow> (snd (getInto (fst p) key t), w))"

definition readers :: "(nat \<Rightarrow> key list) \<Rightarrow> env" where
  "readers reads i p = fold clientRead (reads i) p"

text \<open>\<open>snapshotWG.Wait()\<close>: the automatic snapshot runs to its end.\<close>

definition waitSnapshot :: "schedule \<Rightarrow> (snapshotPhase \<times> u64) option \<Rightarrow> store \<times> world \<Rightarrow> store \<times> world" where
  "waitSnapshot sch running p =
     (case running of
        None \<Rightarrow> p
      | Some (phase, successful) \<Rightarrow>
          (case drivePhases (readers (swaitReads sch)) (swaitOrders sch) phase (fst p) (snd p) of
             (err, st, w) \<Rightarrow> (finishSnapshot successful err st, w)))"

text \<open>\<open>handleControl\<close>: whether the writer stops, the answer, and the state.\<close>

definition fsyncLog :: "store \<Rightarrow> logState \<Rightarrow> world \<Rightarrow> go_error option \<times> store \<times> world" where
  "fsyncLog store log w =
     (case syncFile (lfile log) w of
        (None, w1) \<Rightarrow> (lastError (stats store), addFsync store, w1)
      | (Some e, w1) \<Rightarrow>
          (case lastError (stats store) of
             None \<Rightarrow> (case latch store (ErrOs ''fsync log'' e) of (failure, st) \<Rightarrow> (Some failure, st, w1))
           | Some failure \<Rightarrow> (errors_Join [Some failure, Some (ErrOs ''fsync log'' e)], store, w1)))"

definition handleControl :: "schedule \<Rightarrow> (snapshotPhase \<times> u64) option \<Rightarrow>
    store \<Rightarrow> logState \<Rightarrow> writeRequest \<Rightarrow> world \<Rightarrow> bool \<times> answer \<times> store \<times> world" where
  "handleControl sch running store log request w =
     (if lastError (stats store) \<noteq> None \<and> rkind request \<noteq> requestClose
      then (False, (rid request, lastError (stats store)), store, w)
      else
        case fsyncLog store log w of
          (err, st1, w1) \<Rightarrow>
            if rkind request = requestClose then
              (case waitSnapshot sch running (st1, w1) of
                 (st2, w2) \<Rightarrow>
                   (case writeFinalSnapshot (readers (sreads sch)) (sorders sch) (logSeq log) st2 w2 of
                      (snapshotErr, st3, w3) \<Rightarrow>
                        let err2 = (if snapshotErr = None then err else errors_Join [err, snapshotErr]);
                            st4 = (if snapshotErr = None then st3 else setSnapshotError snapshotErr st3)
                        in case closeFile (lfile log) w3 of
                             (closeErr, w4) \<Rightarrow>
                               (True, (rid request, errors_Join [err2, map_option (ErrOs ''close log'') closeErr]), st4, w4)))
            else (False, (rid request, err), st1, w1))"

text \<open>The case of \<open>runWriter\<close> for the flush ticker.\<close>

definition flushTick :: "store \<Rightarrow> logState \<Rightarrow> world \<Rightarrow> store \<times> world" where
  "flushTick store log w =
     (if lastError (stats store) \<noteq> None then (store, w)
      else
        case syncFile (lfile log) w of
          (Some e, w1) \<Rightarrow> (snd (latch store (ErrOs ''fsync log'' e)), w1)
        | (None, w1) \<Rightarrow> (addFsync store, w1))"

text \<open>The case for a request: the batch, a snapshot when enough was written, and the control request.\<close>

definition maybeSnapshot :: "nat \<Rightarrow> store \<Rightarrow> logState \<Rightarrow> world \<Rightarrow> snapshotJob option \<times> store \<times> logState \<times> world" where
  "maybeSnapshot threshold store log w =
     (if threshold \<le> bytesSinceSnapshot log then
        (case startSnapshot store log w of
           (job, st, log1, w1) \<Rightarrow>
             (job, st, if job = None then log1 else log1\<lparr>bytesSinceSnapshot := 0\<rparr>, w1))
      else (None, store, log, w))"

text \<open>The snapshot that runs after a turn; \<open>Close\<close> has waited for the one before it.\<close>

definition jobAfter :: "bool \<Rightarrow> snapshotJob option \<Rightarrow> store \<Rightarrow> (snapshotPhase \<times> u64) option \<Rightarrow>
    (snapshotPhase \<times> u64) option" where
  "jobAfter stop job st running =
     (if stop then None
      else case job of None \<Rightarrow> running | Some j \<Rightarrow> Some (Starting j, snapshots (stats st)))"

type_synonym turn = "bool \<times> answer list \<times> writeRequest list \<times> snapshotJob option \<times> store \<times> logState \<times> world"

definition writerTurn :: "nat \<Rightarrow> nat \<Rightarrow> schedule \<Rightarrow> (snapshotPhase \<times> u64) option \<Rightarrow> writeRequest \<Rightarrow> writeRequest list \<Rightarrow> store \<Rightarrow> logState \<Rightarrow> world \<Rightarrow> turn option" where
  "writerTurn segSize threshold sch running request waiting store log w =
     (if isControl request then
        (case handleControl sch running store log request w of
           (stop, answer, st, w1) \<Rightarrow> Some (stop, [answer], waiting, None, st, log, w1))
      else
        case drainWrites request waiting of
          (batch, control, rest) \<Rightarrow>
            do {
              (st1, log1, answers, w1) \<leftarrow> writeBatch segSize store log batch w;
              Some (case maybeSnapshot threshold st1 log1 w1 of
                      (job, st2, log2, w2) \<Rightarrow>
                        (case control of
                           None \<Rightarrow> (False, answers, rest, job, st2, log2, w2)
                         | Some c \<Rightarrow>
                             (case handleControl sch (jobAfter False job st2 running) st2 log2 c w2 of
                                (stop, answer, st3, w3) \<Rightarrow> (stop, answers @ [answer], rest, job, st3, log2, w3))))
            })"

section \<open>The system\<close>

text \<open>
  A store with its goroutines. Beside the data: the flag \<open>closed\<close>, whether the request of \<open>Close\<close>
  was sent, the requests in the channel, the answers the writer has sent in order, whether
  the writer has returned, the lock file with whether \<open>Close\<close> gave it up, as a history the
  requests that were ever put into the channel, the shard that \<open>runSweep\<close> sweeps next, and the
  automatic snapshot that is running with the count of snapshots when it was started.
\<close>

record system =
  ystore :: store
  ylog :: logState
  yworld :: world
  yclosed :: bool
  ycloseSent :: bool
  yqueue :: "writeRequest list"
  yanswers :: "answer list"
  ydone :: bool
  ylock :: handle
  yreleased :: bool
  yaccepted :: "writeRequest list"
  ysweep :: nat
  yjob :: "(snapshotPhase \<times> u64) option"

definition channelCapacity :: nat where
  "channelCapacity = 1024"

text \<open>
  \<open>submit\<close>: the flag is read and the request sent under the read lock of \<open>stateMu\<close>. \<open>None\<close> is a
  send that waits for room in the channel.
\<close>

definition submit :: "writeRequest \<Rightarrow> system \<Rightarrow> (go_error + system) option" where
  "submit request y =
     (if yclosed y then Some (Inl ErrClosed)
      else if length (yqueue y) < channelCapacity then
        Some (Inr (y\<lparr>yqueue := yqueue y @ [request], yaccepted := yaccepted y @ [request]\<rparr>))
      else None)"

text \<open>
  \<open>Close\<close> in three parts: it marks the store closed under the write lock of \<open>stateMu\<close>; once the
  ticker and the sweep have stopped it sends its request; once the writer has returned it
  gives up the directory. \<open>closeOnce\<close> lets only the first call do any of this.
\<close>

definition beginClose :: "system \<Rightarrow> system" where
  "beginClose y = y\<lparr>yclosed := True\<rparr>"

definition sendClose :: "nat \<Rightarrow> system \<Rightarrow> system" where
  "sendClose i y =
     y\<lparr>yqueue := yqueue y @ [closeRequest i], ycloseSent := True, yaccepted := yaccepted y @ [closeRequest i]\<rparr>"

definition finishClose :: "go_error option \<Rightarrow> system \<Rightarrow> (go_error option \<times> system) option" where
  "finishClose writerErr y =
     do {
       (unlockErr, w1) \<leftarrow> releaseDirectoryLock (ylock y) (yworld y);
       (case closeFile (ylock y) w1 of
          (closeErr, w2) \<Rightarrow>
            Some (errors_Join [writerErr, unlockErr, map_option (ErrOs ''close lock'') closeErr],
                  y\<lparr>yworld := w2, yreleased := True\<rparr>))
     }"

text \<open>\<open>runSweep\<close>: the time between two sweeps, and the shard after one.\<close>

definition sweepStagger :: "int \<Rightarrow> nat \<Rightarrow> int" where
  "sweepStagger interval shardCount =
     (let stagger = interval div int shardCount in if stagger \<le> 0 then 1 else stagger)"

definition nextSweepShard :: "store \<Rightarrow> nat \<Rightarrow> nat" where
  "nextSweepShard store i = unat ((of_nat i + 1) AND shardMask store)"

text \<open>What a client may send: a request that one of the public operations has built.\<close>

definition clientRequest :: "store \<Rightarrow> writeRequest \<Rightarrow> bool" where
  "clientRequest st r \<longleftrightarrow>
     setRequest st (rid r) (rkey r) (rvalue r) = Inr r \<or>
     (\<exists>ttl t. setTTLRequest st (rid r) (rkey r) (rvalue r) ttl t = Inr r) \<or>
     deleteRequest (rid r) (rkey r) = Inr r \<or> r = syncRequest (rid r)"

text \<open>The automatic snapshot after one of its steps.\<close>

definition afterPhase :: "u64 \<Rightarrow> (go_error option + snapshotPhase) \<times> store \<times> world \<Rightarrow> system \<Rightarrow> system" where
  "afterPhase successful result y =
     (case result of
        (Inl err, st, w) \<Rightarrow> y\<lparr>ystore := finishSnapshot successful err st, yworld := w, yjob := None\<rparr>
      | (Inr phase, st, w) \<Rightarrow> y\<lparr>ystore := st, yworld := w, yjob := Some (phase, successful)\<rparr>)"

text \<open>
  Steps: a client submits a request, \<open>Close\<close> runs its parts, the writer takes a turn or flushes,
  a client reads, the sweep takes one pass of \<open>sweepShard\<close> over its current shard and goes on to
  the next one when \<open>sweepShard\<close> returns, at the latest when the time is up (\<open>late\<close>), and the
  goroutine of an automatic snapshot takes a step. The ticker and the sweep run only until
  \<open>Close\<close> has sent its request. Every goroutine reads the same clock.
\<close>

inductive sys_step :: "nat \<Rightarrow> nat \<Rightarrow> system \<Rightarrow> system \<Rightarrow> bool" for segSize threshold where
  accept: "clientRequest (ystore y) r \<Longrightarrow> submit r y = Some (Inr y') \<Longrightarrow> sys_step segSize threshold y y'"
| begin_close: "\<not> yclosed y \<Longrightarrow> sys_step segSize threshold y (beginClose y)"
| send_close: "yclosed y \<Longrightarrow> \<not> ycloseSent y \<Longrightarrow> length (yqueue y) < channelCapacity \<Longrightarrow>
     sys_step segSize threshold y (sendClose i y)"
| finish_close: "ydone y \<Longrightarrow> \<not> yreleased y \<Longrightarrow> finishClose (snd (last (yanswers y))) y = Some (err, y') \<Longrightarrow>
     sys_step segSize threshold y y'"
| turn: "\<not> ydone y \<Longrightarrow> yqueue y = r # rest \<Longrightarrow> range_order (sorders sch) \<Longrightarrow> range_order (swaitOrders sch) \<Longrightarrow>
     writerTurn segSize threshold sch (yjob y) r rest (ystore y) (ylog y) (yworld y) =
       Some (stop, answers, rest', job, st, log, w) \<Longrightarrow>
     sys_step segSize threshold y
       (y\<lparr>ystore := st, ylog := log, yworld := w, yqueue := rest',
          yanswers := yanswers y @ answers, ydone := stop,
          yjob := jobAfter stop job st (yjob y)\<rparr>)"
| flush: "\<not> ycloseSent y \<Longrightarrow> flushTick (ystore y) (ylog y) (yworld y) = (st, w) \<Longrightarrow>
     sys_step segSize threshold y (y\<lparr>ystore := st, yworld := w\<rparr>)"
| get: "clientRead k (ystore y, yworld y) = (st, w) \<Longrightarrow> sys_step segSize threshold y (y\<lparr>ystore := st, yworld := w\<rparr>)"
| sweep: "\<not> ycloseSent y \<Longrightarrow> ysweep y < length (shards (ystore y)) \<Longrightarrow> now (yworld y) = (t, w) \<Longrightarrow>
     sweepPass (ystore y) (shards (ystore y) ! ysweep y) t order 0 0 = (st, sh, sampled, reclaimed) \<Longrightarrow>
     sys_step segSize threshold y
       (y\<lparr>ystore := putShard st (ysweep y) sh, yworld := w,
          ysweep := if sampled = 0 \<or> reclaimed * sweepRepeatDivisor < sampled \<or> late
                    then nextSweepShard (ystore y) (ysweep y) else ysweep y\<rparr>)"
| snapshot: "yjob y = Some (phase, successful) \<Longrightarrow> range_order orders \<Longrightarrow>
     phaseStep orders phase (ystore y) (yworld y) = result \<Longrightarrow>
     sys_step segSize threshold y (afterPhase successful result y)"

end
