(* ===== verification/Cache_Store_Props.thy ===== *)
theory Cache_Store_Props
  imports Cache_Store Cache_Durability
begin

text \<open>
  The life of a store: every request is answered once and in order, closing drains the
  channel, and a directory left behind by a crash opens again.
\<close>

section \<open>Answers\<close>

lemma applyBatch_answers: "applyBatch st log rs w = Some (st', log', ans, w') \<Longrightarrow> map fst ans = map rid rs"
  by (induction rs arbitrary: st log w ans) (auto split: bind_splits)

lemma map_fst_respondAll [simp]: "map fst (respondAll rs e) = map rid rs"
  by (simp add: respondAll_def)

lemma failBatch_answers: "map fst (fst (snd (snd (failBatch st log e rs w)))) = map rid rs"
  by (simp add: failBatch_def split: prod.splits)

lemma writeLoop_answers:
  "writeLoop segSize st log rs w = Some out \<Longrightarrow> map fst (fst (snd (snd out))) = map rid rs"
proof (rule writeLoop_induct [where P = "\<lambda>st log rs w out. map fst (fst (snd (snd out))) = map rid rs"])
  fix rs st1 log2 k w2 st3 log3 ans3 w3
    and st4 :: store and log4 :: logState and ans4 :: "answer list" and w4 :: world
  assume "applyBatch st1 log2 (take k rs) w2 = Some (st3, log3, ans3, w3)"
    "map fst (fst (snd (snd (st4, log4, ans4, w4)))) = map rid (drop k rs)"
  then show "map fst (fst (snd (snd (st4, log4, ans3 @ ans4, w4)))) = map rid rs"
    using applyBatch_answers by (simp) (metis append_take_drop_id map_append)
qed (simp_all add: failBatch_answers)

lemma writeBatch_answers:
  "writeBatch segSize st log rs w = Some (st', log', ans, w') \<Longrightarrow> map fst ans = map rid rs"
  using writeLoop_answers [of segSize st log rs w] by (auto simp: writeBatch_def split: option.splits)

section \<open>The channel\<close>

lemma drainFrom_split:
  "drainFrom batch waiting = (b, c, rest) \<Longrightarrow>
     b @ (case c of None \<Rightarrow> [] | Some r \<Rightarrow> [r]) @ rest = batch @ waiting \<and>
     (case c of None \<Rightarrow> rest = [] | Some r \<Rightarrow> isControl r) \<and>
     ((\<forall>x\<in>set batch. \<not> isControl x) \<longrightarrow> (\<forall>x\<in>set b. \<not> isControl x)) \<and> length batch \<le> length b"
  by (induction batch waiting rule: drainFrom.induct) (auto split: if_splits option.splits)

lemma handleControl_answer:
  "handleControl sch running st log r w = (stop, ans, st', w') \<Longrightarrow>
     fst ans = rid r \<and> stop = (rkind r = requestClose)"
  by (auto simp: handleControl_def Let_def split: if_splits prod.splits)

text \<open>
  A turn handles a first part of the channel, answers it request by request, and stops the
  writer exactly when the last of them is the request to close; no other request to close is
  among them.
\<close>

lemma writerTurn_answers:
  assumes "writerTurn segSize threshold sch running r waiting st log w =
    Some (stop, answers, rest, job, st', log', w')"
  shows "\<exists>handled. r # waiting = handled @ rest \<and> handled \<noteq> [] \<and> map fst answers = map rid handled \<and>
    (\<forall>x\<in>set (butlast handled). rkind x \<noteq> requestClose) \<and> (stop \<longleftrightarrow> rkind (last handled) = requestClose)"
proof (cases "isControl r")
  case True
  then show ?thesis
    using assms handleControl_answer [of sch running st log r w]
    by (auto simp: writerTurn_def split: prod.splits intro!: exI [of _ "[r]"])
next
  case False
  obtain batch control rest0 where dr: "drainWrites r waiting = (batch, control, rest0)" by (metis prod_cases3)
  have sp: "batch @ (case control of None \<Rightarrow> [] | Some c \<Rightarrow> [c]) @ rest0 = r # waiting" "batch \<noteq> []"
    "\<forall>x\<in>set batch. \<not> isControl x"
    using drainFrom_split [of "[r]" waiting] dr False by (auto simp: drainWrites_def)
  obtain st1 log1 ans1 w1 where wb: "writeBatch segSize st log batch w = Some (st1, log1, ans1, w1)"
    using assms False dr by (auto simp: writerTurn_def split: bind_splits)
  obtain job2 st2 log2 w2 where ms: "maybeSnapshot threshold st1 log1 w1 = (job2, st2, log2, w2)" by (metis prod_cases4)
  note ans = writeBatch_answers [OF wb]
  have nc: "\<forall>x\<in>set batch. rkind x \<noteq> requestClose" using sp(3) by (auto simp: isControl_def)
  show ?thesis
  proof (cases control)
    case None
    then have "answers = ans1" "rest = rest0" "\<not> stop"
      using assms False dr wb ms by (auto simp: writerTurn_def)
    then show ?thesis
      using None sp ans nc by (intro exI [of _ batch]) (auto dest: in_set_butlastD)
  next
    case (Some c)
    obtain stop3 a3 st3 w3 where hc: "handleControl sch (jobAfter False job2 st2 running) st2 log2 c w2 = (stop3, a3, st3, w3)"
      by (metis prod_cases4)
    have "answers = ans1 @ [a3]" "rest = rest0" "stop = stop3"
      using assms False dr wb ms Some hc by (auto simp: writerTurn_def)
    then show ?thesis
      using Some sp ans nc handleControl_answer [OF hc] by (intro exI [of _ "batch @ [c]"]) auto
  qed
qed

section \<open>The system\<close>

definition started :: "system \<Rightarrow> bool" where
  "started y \<longleftrightarrow> \<not> yclosed y \<and> \<not> ycloseSent y \<and> yqueue y = [] \<and> yanswers y = [] \<and> \<not> ydone y \<and>
     \<not> yreleased y \<and> yaccepted y = []"

definition isClose :: "writeRequest \<Rightarrow> bool" where
  "isClose request \<longleftrightarrow> rkind request = requestClose"

text \<open>
  The invariant: \<open>handled\<close> are the accepted requests that left the channel. The request of \<open>Close\<close>
  is accepted once and last, and the writer returns when it has handled it.
\<close>

definition sys_inv :: "system \<Rightarrow> bool" where
  "sys_inv y \<longleftrightarrow>
     (\<exists>handled. yaccepted y = handled @ yqueue y \<and> map rid handled = map fst (yanswers y) \<and>
        (ydone y \<longleftrightarrow> (\<exists>x\<in>set handled. isClose x))) \<and>
     (\<forall>x\<in>set (butlast (yaccepted y)). \<not> isClose x) \<and>
     (ycloseSent y \<longleftrightarrow> yaccepted y \<noteq> [] \<and> isClose (last (yaccepted y))) \<and>
     (ycloseSent y \<longrightarrow> yclosed y) \<and> (yreleased y \<longrightarrow> ydone y)"

lemma started_inv: "started y \<Longrightarrow> sys_inv y"
  by (simp add: started_def sys_inv_def)

lemma no_close_before_sent:
  assumes "sys_inv y" "\<not> ycloseSent y"
  shows "\<forall>x\<in>set (yaccepted y). \<not> isClose x"
  using assms by (cases "yaccepted y" rule: rev_cases) (auto simp: sys_inv_def)

lemma inv_accept:
  assumes inv: "sys_inv y" and r: "\<not> isClose r" "submit r y = Some (Inr y')"
  shows "sys_inv y'"
proof -
  have y': "y' = y\<lparr>yqueue := yqueue y @ [r], yaccepted := yaccepted y @ [r]\<rparr>" and "\<not> yclosed y"
    using r(2) by (auto simp: submit_def split: if_splits)
  then have "\<not> ycloseSent y" using inv by (auto simp: sys_inv_def)
  then show ?thesis
    using inv no_close_before_sent [OF inv] r(1) y' by (auto simp: sys_inv_def)
qed

lemma clientRequest_not_close: "clientRequest st r \<Longrightarrow> \<not> isClose r"
  by (cases r) (auto simp: clientRequest_def isClose_def setRequest_def setTTLRequest_def deleteRequest_def syncRequest_def
      split: option.splits if_splits)

lemma inv_send_close:
  assumes inv: "sys_inv y" and "yclosed y" "\<not> ycloseSent y"
  shows "sys_inv (sendClose i y)"
  using assms no_close_before_sent [OF inv] by (auto simp: sys_inv_def sendClose_def isClose_def closeRequest_def)

lemma inv_turn:
  assumes inv: "sys_inv y" and "\<not> ydone y" "yqueue y = r # rest"
    and turn: "writerTurn segSize threshold sch (yjob y) r rest (ystore y) (ylog y) (yworld y) =
       Some (stop, answers, rest', job, st, log, w)"
  shows "sys_inv (y\<lparr>ystore := st, ylog := log, yworld := w, yqueue := rest', yanswers := yanswers y @ answers,
    ydone := stop, yjob := jobAfter stop job st (yjob y)\<rparr>)"
proof -
  obtain handled where h: "r # rest = handled @ rest'" "handled \<noteq> []" "map fst answers = map rid handled"
    "\<forall>x\<in>set (butlast handled). \<not> isClose x" "stop \<longleftrightarrow> isClose (last handled)"
    using writerTurn_answers [OF turn] by (auto simp: isClose_def)
  obtain before where b: "yaccepted y = before @ yqueue y" "map rid before = map fst (yanswers y)"
    "\<forall>x\<in>set before. \<not> isClose x"
    using inv assms(2) by (auto simp: sys_inv_def)
  have "stop \<longleftrightarrow> (\<exists>x\<in>set handled. isClose x)"
    using h(2,4,5) by (cases handled rule: rev_cases) auto
  then have "\<exists>done'. yaccepted y = done' @ rest' \<and> map rid done' = map fst (yanswers y @ answers) \<and>
      (stop \<longleftrightarrow> (\<exists>x\<in>set done'. isClose x))"
    using b h assms(3) by (intro exI [of _ "before @ handled"]) auto
  then show ?thesis using inv assms(2) by (simp add: sys_inv_def)
qed

lemma step_inv: "sys_step segSize threshold y y' \<Longrightarrow> sys_inv y \<Longrightarrow> sys_inv y'"
proof (induction rule: sys_step.induct)
  case (accept y r y')
  then show ?case using inv_accept clientRequest_not_close by blast
next
  case (send_close y i)
  then show ?case using inv_send_close by blast
next
  case (turn y r rest sch stop answers rest' job st log w)
  then show ?case using inv_turn by blast
next
  case (finish_close y err y')
  then have "\<exists>w. y' = y\<lparr>yworld := w, yreleased := True\<rparr>"
    by (auto simp: finishClose_def split: bind_splits prod.splits)
  then show ?case using finish_close by (auto simp: sys_inv_def)
qed (auto simp: sys_inv_def beginClose_def afterPhase_def split: prod.splits sum.splits)

lemma reachable_inv: "(sys_step segSize threshold)\<^sup>*\<^sup>* y y' \<Longrightarrow> sys_inv y \<Longrightarrow> sys_inv y'"
  by (induction rule: rtranclp_induct) (auto dest: step_inv)

lemma close_drains:
  assumes "sys_inv y" "ydone y"
  shows "yqueue y = []"
proof -
  obtain handled x where "yaccepted y = handled @ yqueue y" "x \<in> set handled" "isClose x"
    using assms by (auto simp: sys_inv_def)
  then show ?thesis using assms(1) by (cases "yqueue y" rule: rev_cases) (auto simp: sys_inv_def butlast_append)
qed

text \<open>C4. In every run of the system, however the clients, \<open>Close\<close>, the writer, the ticker and the
  sweep interleave, the writer answers the accepted requests once each and in the order in
  which they entered the channel, and the rest of them are still in the channel. When the
  writer has returned, the store is closed and no accepted request is left without an answer;
  the lock on the directory is given up only after that.\<close>

theorem requests_answered_in_order:
  assumes "started y" "(sys_step segSize threshold)\<^sup>*\<^sup>* y y'"
  shows "map rid (yaccepted y') = map fst (yanswers y') @ map rid (yqueue y') \<and>
    (ydone y' \<longrightarrow> yclosed y' \<and> map rid (yaccepted y') = map fst (yanswers y')) \<and>
    (yreleased y' \<longrightarrow> ydone y')"
proof -
  have inv: "sys_inv y'" using reachable_inv [OF assms(2) started_inv [OF assms(1)]] .
  have a: "map rid (yaccepted y') = map fst (yanswers y') @ map rid (yqueue y')"
    using inv by (auto simp: sys_inv_def)
  have "yclosed y' \<and> yqueue y' = []" if d: "ydone y'"
  proof -
    have "\<exists>x\<in>set (yaccepted y'). isClose x" using inv d by (auto simp: sys_inv_def)
    then have "yclosed y'" using no_close_before_sent [OF inv] inv by (auto simp: sys_inv_def)
    then show ?thesis using close_drains [OF inv d] by simp
  qed
  then show ?thesis using a inv by (auto simp: sys_inv_def)
qed

definition sample_system :: system where
  "sample_system = \<lparr>ystore = newStoreState 2 200, ylog = sample_log, yworld = sample_world, yclosed = False,
     ycloseSent = False, yqueue = [], yanswers = [], ydone = False,
     ylock = \<lparr>hname = ''LOCK'', hino = 7, hid = 7\<rparr>, yreleased = False, yaccepted = [], ysweep = 0, yjob = None\<rparr>"

text \<open>A run in which a request is accepted, \<open>Close\<close> begins, and the writer syncs.\<close>

lemma sample_run:
  "\<exists>y'. (sys_step 100 1000)\<^sup>*\<^sup>* sample_system y' \<and> yaccepted y' = [syncRequest 5] \<and> yqueue y' = []"
proof -
  obtain y1 where y1: "submit (syncRequest 5) sample_system = Some (Inr y1)" "yqueue y1 = [syncRequest 5]"
    "yaccepted y1 = [syncRequest 5]" "\<not> ydone y1"
    by (auto simp: submit_def sample_system_def channelCapacity_def)
  have s1: "sys_step 100 1000 sample_system y1"
    by (rule sys_step.accept [OF _ y1(1)]) (simp add: clientRequest_def syncRequest_def)
  have s2: "sys_step 100 1000 y1 (beginClose y1)"
    by (rule sys_step.begin_close) (use y1(1) in \<open>auto simp: submit_def sample_system_def split: if_splits\<close>)
  let ?y = "beginClose y1"
  obtain orders where ord: "range_order orders" using range_order_exists by blast
  let ?sch = "\<lparr>sreads = \<lambda>_. [], sorders = orders, swaitReads = \<lambda>_. [], swaitOrders = orders\<rparr>"
  obtain stop a st w where "handleControl ?sch (yjob ?y) (ystore ?y) (ylog ?y) (syncRequest 5) (yworld ?y) =
      (stop, a, st, w)" by (metis prod_cases4)
  then have "writerTurn 100 1000 ?sch (yjob ?y) (syncRequest 5) [] (ystore ?y) (ylog ?y) (yworld ?y) =
      Some (stop, [a], [], None, st, ylog ?y, w)"
    by (simp add: writerTurn_def isControl_def syncRequest_def)
  from sys_step.turn [OF _ _ _ _ this] ord y1 have "\<exists>y3. sys_step 100 1000 ?y y3 \<and> yaccepted y3 = [syncRequest 5] \<and> yqueue y3 = []"
    by (fastforce simp: beginClose_def)
  then show ?thesis using s1 s2 by (meson rtranclp.rtrancl_into_rtrancl rtranclp.rtrancl_refl)
qed

theorem requests_answered_in_order_witness:
  "\<exists>y'. (sys_step 100 1000)\<^sup>*\<^sup>* sample_system y' \<and> map fst (yanswers y') = [5]"
proof -
  obtain y' where y': "(sys_step 100 1000)\<^sup>*\<^sup>* sample_system y'" "yaccepted y' = [syncRequest 5]" "yqueue y' = []"
    using sample_run by blast
  have "started sample_system" by (simp add: started_def sample_system_def)
  from requests_answered_in_order [OF this y'(1)] y' show ?thesis by (auto simp: syncRequest_def)
qed

section \<open>A failure is final\<close>

lemma removeEntryLocked_lastError:
  "removeEntryLocked st sh x kd = (st', sh') \<Longrightarrow> lastError (stats st') = lastError (stats st)"
  by (drule arg_cong [where f = "\<lambda>p. lastError (stats (fst p))"]) (simp add: removeEntryLocked_def Let_def)

lemma getInto_lastError: "getInto st k t = (res, st') \<Longrightarrow> lastError (stats st') = lastError (stats st)"
  by (auto simp: getInto_def addHit_def addMiss_def Let_def removeEntryLocked_lastError
      split: option.splits if_splits prod.splits)

lemma sweepPass_lastError:
  "sweepPass st sh t order m n = (st', sh', m', n') \<Longrightarrow> lastError (stats st') = lastError (stats st)"
  by (induction st sh t order m n rule: sweepPass.induct)
    (auto simp: removeEntryLocked_lastError split: option.splits if_splits prod.splits)

text \<open>A snapshot never touches the latched failure.\<close>

lemma publishSnapshot_lastError:
  "publishSnapshot g f low st w = (r, st', w') \<Longrightarrow> lastError (stats st') = lastError (stats st)"
  by (auto simp: publishSnapshot_def addSnapshot_def split: if_splits prod.splits option.splits)

lemma phaseStep_lastError:
  "phaseStep orders phase st w = (r, st', w') \<Longrightarrow> lastError (stats st') = lastError (stats st)"
  by (induction orders phase st w rule: phaseStep.induct)
    (auto simp: addSnapshot_def source_def dest: publishSnapshot_lastError split: prod.splits sum.splits option.splits if_splits)

lemma finishSnapshot_lastError [simp]: "lastError (stats (finishSnapshot n err st)) = lastError (stats st)"
  by (simp add: finishSnapshot_def setSnapshotError_def split: option.splits)

lemma afterPhase_lastError:
  "phaseStep orders phase (ystore y) w = result \<Longrightarrow>
     lastError (stats (ystore (afterPhase n result y))) = lastError (stats (ystore y))"
  by (cases result rule: prod_cases3) (auto simp: afterPhase_def dest: phaseStep_lastError split: sum.splits)

lemma afterPhase_frame [simp]:
  "ylog (afterPhase n result y) = ylog y" "yanswers (afterPhase n result y) = yanswers y" "ydone (afterPhase n result y) = ydone y"
  "yaccepted (afterPhase n result y) = yaccepted y" "yqueue (afterPhase n result y) = yqueue y"
  by (simp_all add: afterPhase_def split: prod.splits sum.splits)

lemma maybeSnapshot_latched:
  "lastError (stats st) \<noteq> None \<Longrightarrow> maybeSnapshot threshold st log w = (None, st, log, w)"
  by (simp add: maybeSnapshot_def startSnapshot_def)

lemma handleControl_latched:
  assumes "lastError (stats st) = Some e"
    "handleControl sch running st log r w = (stop, ans, st', w')"
  shows "snd ans \<noteq> None \<and> (\<not> stop \<longrightarrow> snd ans = Some e \<and> st' = st)"
proof (cases "rkind r = requestClose")
  case True
  obtain err st1 w1 where f: "fsyncLog st log w = (err, st1, w1)" by (metis prod_cases3)
  then have "err \<noteq> None" by (auto simp: fsyncLog_def errors_Join_def assms(1) split: prod.splits option.splits)
  then obtain x where x: "err = Some x" by auto
  then show ?thesis
    using assms(2) True f by (auto simp: handleControl_def Let_def errors_Join_def split: prod.splits if_splits)
next
  case False
  then show ?thesis using assms by (auto simp: handleControl_def)
qed

lemma writerTurn_latched:
  assumes e: "lastError (stats st) = Some e"
    and turn: "writerTurn segSize threshold sch running r waiting st log w =
      Some (stop, answers, rest, job, st', log', w')"
  shows "(\<forall>a\<in>set answers. snd a \<noteq> None) \<and> (\<forall>a\<in>set (butlast answers). snd a = Some e) \<and> log' = log \<and> job = None \<and>
    (\<not> stop \<longrightarrow> (\<forall>a\<in>set answers. snd a = Some e) \<and> st' = st)"
proof (cases "isControl r")
  case True
  then show ?thesis
    using turn handleControl_latched [OF e] by (auto simp: writerTurn_def split: prod.splits)
next
  case False
  obtain batch control rest0 where dr: "drainWrites r waiting = (batch, control, rest0)" by (metis prod_cases3)
  have wb: "writeBatch segSize st log batch w = Some (st, log, respondAll batch e, w)"
    by (simp add: writeBatch_def e)
  have ms: "maybeSnapshot threshold st log w = (None, st, log, w)" using e by (simp add: maybeSnapshot_latched)
  show ?thesis
  proof (cases control)
    case None
    then show ?thesis using turn False dr wb ms by (auto simp: writerTurn_def respondAll_def dest!: in_set_butlastD)
  next
    case (Some c)
    obtain stop3 a3 st3 w3 where hc: "handleControl sch (jobAfter False None st running) st log c w = (stop3, a3, st3, w3)"
      by (metis prod_cases4)
    then show ?thesis
      using turn False dr wb ms Some handleControl_latched [OF e hc] by (auto simp: writerTurn_def respondAll_def)
  qed
qed

text \<open>What holds in every state after a failure \<open>e\<close> was latched in the state \<open>y0\<close>.\<close>

definition failed_since :: "go_error \<Rightarrow> system \<Rightarrow> system \<Rightarrow> bool" where
  "failed_since e y0 y \<longleftrightarrow>
     (ydone y \<or> lastError (stats (ystore y)) = Some e) \<and> ylog y = ylog y0 \<and>
     (\<exists>more. yanswers y = yanswers y0 @ more \<and> (\<forall>a\<in>set more. snd a \<noteq> None) \<and>
        (\<forall>a\<in>set (butlast more). snd a = Some e) \<and> (\<not> ydone y \<longrightarrow> (\<forall>a\<in>set more. snd a = Some e)))"

lemma failed_since_cong:
  "failed_since e y0 y \<Longrightarrow> ydone y' = ydone y \<Longrightarrow> ylog y' = ylog y \<Longrightarrow> yanswers y' = yanswers y \<Longrightarrow>
     (\<not> ydone y \<longrightarrow> lastError (stats (ystore y')) = lastError (stats (ystore y))) \<Longrightarrow> failed_since e y0 y'"
  unfolding failed_since_def by auto

lemma failed_turn:
  assumes f: "failed_since e y0 y" and nd: "\<not> ydone y"
    and turn: "writerTurn segSize threshold sch (yjob y) r rest (ystore y) (ylog y) (yworld y) =
       Some (stop, answers, rest', job, st, log, w)"
  shows "failed_since e y0 (y\<lparr>ystore := st, ylog := log, yworld := w, yqueue := rest', yanswers := yanswers y @ answers,
    ydone := stop, yjob := jobAfter stop job st (yjob y)\<rparr>)"
proof -
  have le: "lastError (stats (ystore y)) = Some e" "ylog y = ylog y0" using f nd by (auto simp: failed_since_def)
  obtain more where more: "yanswers y = yanswers y0 @ more" "\<forall>a\<in>set more. snd a = Some e"
    using f nd by (auto simp: failed_since_def)
  note t = writerTurn_latched [OF le(1) turn]
  have "\<forall>a\<in>set (butlast (more @ answers)). snd a = Some e"
    using more(2) t by (auto simp: butlast_append dest: in_set_butlastD)
  then show ?thesis
    unfolding failed_since_def using le more t by (auto intro!: exI [of _ "more @ answers"])
qed

lemma failed_step: "sys_step segSize threshold y y' \<Longrightarrow> failed_since e y0 y \<Longrightarrow> failed_since e y0 y'"
proof (induction rule: sys_step.induct)
  case (accept y r y')
  then show ?case by (elim failed_since_cong) (auto simp: submit_def split: if_splits)
next
  case (turn y r rest sch stop answers rest' job st log w)
  then show ?case using failed_turn by blast
next
  case (finish_close y err y')
  then have "\<exists>w. y' = y\<lparr>yworld := w, yreleased := True\<rparr>"
    by (auto simp: finishClose_def split: bind_splits prod.splits)
  then show ?case using finish_close.prems by (elim failed_since_cong) auto
next
  case (flush y st w)
  then have "\<not> ydone y \<Longrightarrow> lastError (stats (ystore y)) = Some e" by (auto simp: failed_since_def)
  then have "\<not> ydone y \<Longrightarrow> st = ystore y" using flush.hyps by (simp add: flushTick_def)
  then show ?case using flush.prems by (elim failed_since_cong) auto
next
  case (get k y st w)
  then show ?case by (elim failed_since_cong) (auto simp: clientRead_def intro: getInto_lastError [OF prod.collapse [symmetric]] split: prod.splits)
next
  case (sweep y t w order st sh sampled reclaimed late)
  then show ?case by (elim failed_since_cong) (auto dest: sweepPass_lastError)
next
  case (snapshot y phase successful orders result)
  then show ?case by (elim failed_since_cong) (auto simp: afterPhase_lastError)
qed (auto elim!: failed_since_cong simp: beginClose_def sendClose_def)



section \<open>Requests of the clients\<close>

lemma validateEntrySize_record: "validateEntrySize st k n = None \<Longrightarrow> validateRecordSize k n = None"
  by (auto simp: validateEntrySize_def split: option.splits)

text \<open>C33. Whatever a client passes to \<open>Set\<close>, \<open>SetTTL\<close> and \<open>Delete\<close>, a request that is sent to the writer
  can be logged: its key and its record fit their length fields, so that under any sequence it
  is encoded as one record that recovery can read, and an entry that is set fits the capacity
  of its shard.\<close>

theorem client_requests_are_loggable:
  assumes "Inr request \<in> {setRequest st i key val, setTTLRequest st i key val ttl t, deleteRequest i key}"
  shows "good_request request \<and> rid request = i \<and> rkey request = key \<and>
    appendRecord dst q request = dst @ encodeRec (request_rec q request) \<and> good_rec (request_rec q request) \<and>
    (rkind request = requestSet \<longrightarrow>
       rvalue request = val \<and>
       entryOverhead + of_nat (length key) + of_nat (length val) \<le> capacity (shardFor st key))"
proof -
  have fits: "entryOverhead + of_nat (length key) + of_nat (length val) \<le> capacity (shardFor st key)"
    if "validateEntrySize st key (length val) = None"
    using that by (auto simp: validateEntrySize_def Let_def split: option.splits if_splits)
  have "good_request request \<and> rid request = i \<and> rkey request = key \<and>
    (rkind request = requestSet \<longrightarrow>
       rvalue request = val \<and> validateEntrySize st key (length val) = None)"
    using assms by (auto simp: setRequest_def setTTLRequest_def deleteRequest_def good_request_def
        dest: validateEntrySize_record split: option.splits if_splits)
  then show ?thesis using fits appendRecord_rec by blast
qed

lemma newStoreState_capacity: "0 < n \<Longrightarrow> n < 2 ^ 63 \<Longrightarrow> capacity (shardFor (newStoreState n cap) k) = cap"
  using shardIndex_less [OF routed_newStoreState [of n cap], of k]
  by (simp add: shardFor_def newStoreState_def new_shard_def)

lemma sample_validates: "validateEntrySize (newStoreState 2 200) [1] (Suc 0) = None"
  by (simp add: validateEntrySize_def validateRecordSize_def newStoreState_capacity entryOverhead_def layout)

theorem client_requests_are_loggable_witness:
  "\<exists>request. setTTLRequest (newStoreState 2 200) 3 [1] [2] 10 5 = Inr request \<and> good_request request"
proof -
  have r: "setTTLRequest (newStoreState 2 200) 3 [1] [2] 10 5 =
      Inr \<lparr>rkind = requestSet, rkey = [1], rvalue = [2], rdeadline = 15, rid = 3\<rparr>"
    by (simp add: setTTLRequest_def sample_validates word_sle_eq)
  have "Inr \<lparr>rkind = requestSet, rkey = [1], rvalue = [2], rdeadline = 15, rid = 3\<rparr> \<in>
      {setRequest (newStoreState 2 200) 3 [1] [2], setTTLRequest (newStoreState 2 200) 3 [1] [2] 10 5, deleteRequest 3 [1]}"
    using r by simp
  from client_requests_are_loggable [OF this] show ?thesis using r by simp
qed

section \<open>Deadlines\<close>

lemma sint_add_fits:
  fixes a b :: i64
  assumes "- (2 ^ 63) \<le> sint a + sint b" "sint a + sint b < 2 ^ 63"
  shows "sint (a + b) = sint a + sint b"
  using assms by (simp add: sint_word_ariths signed_take_bit_int_eq_self)

lemma sint_add_wraps:
  fixes a b :: i64
  assumes "2 ^ 63 \<le> sint a + sint b"
  shows "sint (a + b) = sint a + sint b - 2 ^ 64"
proof -
  have "sint a < 2 ^ 63" "sint b < 2 ^ 63" using sint_lt [of a] sint_lt [of b] by simp_all
  then have "(sint a + sint b + 2 ^ 63 - 2 ^ 64) mod 2 ^ 64 = sint a + sint b + 2 ^ 63 - 2 ^ 64"
    using assms by (intro mod_pos_pos_trivial) auto
  then have "(sint a + sint b + 2 ^ 63) mod 2 ^ 64 = sint a + sint b + 2 ^ 63 - 2 ^ 64"
    by (simp only: minus_mod_self2)
  then have "signed_take_bit 63 (sint a + sint b) = sint a + sint b - 2 ^ 64"
    by (simp add: signed_take_bit_eq_take_bit_shift take_bit_eq_mod)
  then show ?thesis by (simp add: sint_word_ariths)
qed

text \<open>C34. When the current time plus the TTL fits 64 bits, \<open>SetTTL\<close> logs exactly their sum as the
  deadline, and the entry counts as expired at a time exactly when the TTL has passed by then.\<close>

theorem ttl_deadline_exact:
  assumes "0 \<le> sint t" "0 < sint ttl" "sint t + sint ttl < 2 ^ 63"
    "validateEntrySize st key (length val) = None"
  shows "\<exists>request. setTTLRequest st i key val ttl t = Inr request \<and> sint (rdeadline request) = sint t + sint ttl \<and>
    (\<forall>later. deadlinePassed (rdeadline request) later \<longleftrightarrow> sint ttl \<le> sint later - sint t)"
proof -
  have s: "sint (t + ttl) = sint t + sint ttl" using assms by (intro sint_add_fits) auto
  then have "t + ttl \<noteq> 0" using assms(1,2) by (metis add_nonneg_pos less_irrefl sint_0)
  then have "deadlinePassed (t + ttl) later \<longleftrightarrow> sint ttl \<le> sint later - sint t" for later
    using s by (auto simp: deadlinePassed_def word_sle_eq)
  then show ?thesis using assms(2,4) s by (simp add: setTTLRequest_def word_sle_eq)
qed

theorem ttl_deadline_exact_witness:
  "\<exists>request. setTTLRequest (newStoreState 2 200) 3 [1] [2] 10 5 = Inr request \<and> sint (rdeadline request) = 15"
  using ttl_deadline_exact [of 5 10 "newStoreState 2 200" "[1]" "[2]" 3] sample_validates by auto

text \<open>C35. When the current time plus the TTL does not fit 64 bits, \<open>SetTTL\<close> accepts the request all the
  same, but the deadline it logs has wrapped around to a negative number: the entry counts as
  expired at every time from 1970 on, so it is never visible although the call succeeds.\<close>

theorem ttl_overflow_expires_at_once:
  assumes "0 < sint ttl" "2 ^ 63 \<le> sint t + sint ttl" "validateEntrySize st key (length val) = None"
  shows "\<exists>request. setTTLRequest st i key val ttl t = Inr request \<and> sint (rdeadline request) < 0 \<and>
    (\<forall>later. 0 \<le> sint later \<longrightarrow> deadlinePassed (rdeadline request) later)"
proof -
  have "sint t < 2 ^ 63" "sint ttl < 2 ^ 63" using sint_lt [of t] sint_lt [of ttl] by simp_all
  then have s: "sint (t + ttl) < 0" using sint_add_wraps [OF assms(2)] by simp
  then have "deadlinePassed (t + ttl) later" if "0 \<le> sint later" for later
    using that by (auto simp: deadlinePassed_def word_sle_eq)
  then show ?thesis using assms(1,3) s by (simp add: setTTLRequest_def word_sle_eq)
qed

theorem ttl_overflow_expires_at_once_witness:
  "\<exists>request. setTTLRequest (newStoreState 2 200) 3 [1] [2] 9223372036854775807 1700000000000000000 = Inr request \<and>
     deadlinePassed (rdeadline request) 1700000000000000001"
  using ttl_overflow_expires_at_once [of 9223372036854775807 1700000000000000000 "newStoreState 2 200" "[1]" "[2]" 3]
    sample_validates by auto

section \<open>Sync\<close>

lemma syncFile_log_ok:
  assumes "log_ok w log base S" "syncFile (lfile log) w = (res, w')"
  shows "log_ok w' log base S" "no_snapshots w' = no_snapshots w"
    "res = None \<Longrightarrow> loffset log \<le> synced (inodes w' (hino (lfile log)))"
proof -
  have k: "keeps w w'" "closedHandles w' = closedHandles w" using syncFile_keeps [OF assms(2)] by simp_all
  then show ok: "log_ok w' log base S"
    using assms(1) unfolding log_ok_def disk_log_def segs_in_dir_def handles_ok_def is_open_def flushed_def keeps_def
    by (auto intro: order_trans) (meson order_trans)
  show "no_snapshots w' = no_snapshots w" using k by (simp add: no_snapshots_def keeps_def)
  show "res = None \<Longrightarrow> loffset log \<le> synced (inodes w' (hino (lfile log)))"
    using syncFile_stable [of "lfile log" w w'] assms(2) ok by (auto simp: log_ok_def disk_log_def)
qed


definition quiet :: schedule where
  "quiet = \<lparr>sreads = \<lambda>_. [], sorders = \<lambda>_ _. [], swaitReads = \<lambda>_. [], swaitOrders = \<lambda>_ _. []\<rparr>"


section \<open>The sweep\<close>

text \<open>\<open>runSweep\<close> goes round the shards: when their number is a power of two, as \<open>Open\<close> ensures,
  the shard after \<open>j\<close> sweeps is \<open>j\<close> places on, counted round; so \<open>n\<close> sweeps in a row visit each of
  the \<open>n\<close> shards once. The time between two sweeps is positive, and \<open>n\<close> of them take no longer
  than the interval whenever that has at least \<open>n\<close> nanoseconds.\<close>

theorem sweep_goes_round:
  assumes "n = 2 ^ k" "k < 63" "i < n"
  shows "(nextSweepShard (newStoreState n cap) ^^ j) i = (i + j) mod n \<and> 0 < sweepStagger interval n \<and>
    (int n \<le> interval \<longrightarrow> int n * sweepStagger interval n \<le> interval)"
proof -
  have n: "0 < n" "n < 2 ^ 63" using assms(1,2) power_strict_increasing [of k 63 "2 :: nat"] by simp_all
  have mask: "shardMask (newStoreState (2 ^ k) cap) = mask k"
    by (simp add: newStoreState_def mask_eq_exp_minus_1 of_nat_diff)
  have step: "nextSweepShard (newStoreState n cap) m = Suc m mod n" if "m < n" for m
  proof -
    have "unat (of_nat (Suc m) AND (mask k :: u64)) = unat (take_bit k (of_nat (Suc m) :: u64))"
      by (simp add: take_bit_eq_mask)
    also have "\<dots> = Suc m mod 2 ^ k"
    proof -
      have "unat (of_nat (Suc m) :: u64) = Suc m"
        using that n by (simp only: unat_of_nat take_bit_nat_eq_self_iff) simp
      then show ?thesis by (simp only: unsigned_take_bit_eq take_bit_nat_def)
    qed
    finally show ?thesis unfolding nextSweepShard_def mask assms(1) by (simp add: add.commute)
  qed
  have "(nextSweepShard (newStoreState n cap) ^^ j) i = (i + j) mod n"
  proof (induction j)
    case (Suc j)
    then show ?case using step [of "(i + j) mod n"] n by (simp add: mod_Suc_eq)
  qed (use assms(3) in simp)
  moreover have "0 < sweepStagger interval n" by (simp add: sweepStagger_def Let_def)
  moreover have "int n * sweepStagger interval n \<le> interval" if "int n \<le> interval"
  proof -
    have "1 \<le> interval div int n" using that n by (simp add: pos_imp_zdiv_pos_iff int_one_le_iff_zero_less)
    moreover have "0 \<le> interval mod int n" using n(1) by simp
    then have "int n * (interval div int n) \<le> interval"
      using minus_mod_eq_mult_div [of interval "int n"] by linarith
    ultimately show ?thesis by (simp add: sweepStagger_def Let_def)
  qed
  ultimately show ?thesis by blast
qed

theorem sweep_goes_round_witness:
  "(nextSweepShard (newStoreState 4 200) ^^ 6) 3 = 1 \<and> 4 * sweepStagger 1000000000 4 \<le> 1000000000"
  using sweep_goes_round [where n = 4 and k = 2 and i = 3 and cap = 200 and j = 6 and interval = 1000000000] by simp

end
