(* ===== verification/Cache_Snapshot_Load.thy ===== *)
theory Cache_Snapshot_Load
  imports Cache_Recovery_Props
begin

unbundle bit_operations_syntax

text \<open>
  Recovery from a snapshot and the segments that follow it. The bytes of a snapshot are read
  back to its sequences and its entries; a log replayed over a snapshot, from the sequence
  that the snapshot has for each shard, gives what the whole log gives; and \<open>recoverLog\<close> on a
  directory with a snapshot and a log does that, or refuses a log that ends before the
  snapshot.
\<close>

section \<open>The bytes of a snapshot\<close>

definition snap_bytes :: "u64 list \<Rightarrow> item list \<Rightarrow> bytes" where
  "snap_bytes qs es = snapshotHeader qs @ concat (map encodeSnapshotEntry es)"

text \<open>The shard of a key among \<open>n\<close>, as the reader of a snapshot computes it.\<close>

definition snap_shard :: "nat \<Rightarrow> key \<Rightarrow> nat" where
  "snap_shard n k = unat (hashKey k AND of_nat (n - 1))"

text \<open>An entry that fits its length fields and is no newer than the sequence of its shard.\<close>

definition good_item :: "u64 list \<Rightarrow> item \<Rightarrow> bool" where
  "good_item qs e \<longleftrightarrow> length (ekey e) \<le> 65535 \<and> 22 + length (ekey e) + length (evalue e) < 2 ^ 32 \<and>
     esequence e \<le> qs ! snap_shard (length qs) (ekey e)"

definition load_one :: "item \<Rightarrow> store \<Rightarrow> store" where
  "load_one e st =
     (if recoveryShard st = None \<or> recoveryShard st = Some (shardIndex st (ekey e))
      then applyRecoveredSet st (ekey e) (evalue e) (edeadline e) (esequence e) else st)"

lemma loadEntry_payload:
  assumes "good_item qs e"
  shows "loadEntry qs st (entryPayload e) = Inr (load_one e st)"
proof -
  note f = entryPayload_fields [of e] and v = entryPayload_value [of e]
  have kl: "unat (Uint16 (slice 4 6 (entryPayload e))) = length (ekey e)"
    using assms by (simp add: f good_item_def)
  have q: "Uint64 (slice 6 14 (entryPayload e)) = edeadline e" "Uint64 (slice 14 22 (entryPayload e)) = esequence e"
    by (simp_all add: f)
  have seq: "\<not> qs ! unat (hashKey (ekey e) AND of_nat (length qs - 1)) < esequence e"
    using assms by (simp add: good_item_def snap_shard_def not_less)
  have long: "\<not> length (entryPayload e) - 22 < length (ekey e)" by (simp add: length_entryPayload)
  have crc: "Checksum (drop 4 (entryPayload e)) = Uint32 (slice 0 4 (entryPayload e))" by (simp add: f)
  show ?thesis
    unfolding loadEntry_def load_one_def
    using crc kl q long seq f(6) v by (simp del: Uint_Put add: layout Let_def)
qed

lemma loadEntries_step:
  assumes calm: "calm w" "is_open f w" and data: "data = pre @ encodeSnapshotEntry e @ post" and e: "good_item qs e"
  shows "loadEntries c f data qs (length pre) st w =
    loadEntries c f data qs (length (pre @ encodeSnapshotEntry e)) (load_one e st) w"
proof -
  let ?p = "entryPayload e" and ?L = "PutUint32 (of_nat (length (entryPayload e)))"
  have data': "data = pre @ ?L @ ?p @ post" using data by (simp add: encodeSnapshotEntry_payload)
  have sl: "slice (length pre) (length pre + 4) data = ?L"
    unfolding data' by simp
  have sp: "slice (length pre + 4) (length pre + 4 + length ?p) data = ?p"
    unfolding data' using slice_append_at [of "length pre + 4" "pre @ ?L" "length pre + 4 + length ?p" ?p post] by simp
  have lens: "length data = length pre + 4 + length ?p + length post"
    by (simp add: data')
  have lp: "length ?p < 2 ^ 32" "\<not> length ?p < 22"
    using e by (simp_all add: good_item_def length_entryPayload)
  then have len: "unat (of_nat (length ?p) :: u32) = length ?p" "\<not> length ?p < 22"
    by (simp_all only: unat_of_nat_small len_num1 len_num0 len_bit0 len_bit1) simp_all
  have enc: "length (encodeSnapshotEntry e) = 4 + length ?p" by (simp add: encodeSnapshotEntry_payload)
  show ?thesis
    by (subst loadEntries.simps)
      (use calm sl sp lens len enc loadEntry_payload [OF e] in \<open>simp add: layout Let_def add.assoc\<close>)
qed

lemma loadEntries_bytes:
  assumes "calm w" "is_open f w" and "data = pre @ concat (map encodeSnapshotEntry es)" "\<forall>e\<in>set es. good_item qs e"
  shows "loadEntries c f data qs (length pre) st w = (Inr (fold load_one es st), w)"
  using assms
proof (induction es arbitrary: pre st)
  case Nil
  then show ?case by (subst loadEntries.simps) simp
next
  case (Cons e es)
  have "loadEntries c f data qs (length pre) st w =
      loadEntries c f data qs (length (pre @ encodeSnapshotEntry e)) (load_one e st) w"
    by (rule loadEntries_step [OF Cons.prems(1,2)]) (use Cons.prems in auto)
  also have "\<dots> = (Inr (fold load_one es (load_one e st)), w)"
    by (rule Cons.IH) (use Cons.prems in auto)
  finally show ?case by simp
qed

section \<open>The header\<close>

lemma drop_Put64: "i < length qs \<Longrightarrow> drop (i * 8) (concat (map PutUint64 qs)) =
    PutUint64 (qs ! i) @ drop (Suc i * 8) (concat (map PutUint64 qs))"
proof (induction qs arbitrary: i)
  case (Cons q qs)
  show ?case
  proof (cases i)
    case (Suc j)
    then show ?thesis using Cons.IH [of j] Cons.prems by simp
  qed simp
qed simp

lemma readSequences_Put: "readSequences (length qs) (concat (map PutUint64 qs)) = qs"
proof (rule nth_equalityI)
  fix i assume "i < length (readSequences (length qs) (concat (map PutUint64 qs)))"
  then have i: "i < length qs" by (simp add: readSequences_def)
  then show "readSequences (length qs) (concat (map PutUint64 qs)) ! i = qs ! i"
    using drop_Put64 [OF i] by (simp add: readSequences_def)
qed (simp add: readSequences_def)

lemma snapshotHeader_fields:
  "take 4 (snapshotHeader qs) = snapshotMagic" "slice 4 6 (snapshotHeader qs) = PutUint16 formatVersion"
  "slice 6 8 (snapshotHeader qs) = [0, 0]" "slice 8 12 (snapshotHeader qs) = PutUint32 (of_nat (length qs))"
  "drop 12 (snapshotHeader qs) = concat (map PutUint64 qs)"
  by (simp_all add: snapshotHeader_def snapshotMagic_def slice_def)

lemma word_power_and_pred:
  assumes "j < LENGTH('a::len)"
  shows "(2 ^ j :: 'a word) AND (2 ^ j - 1) = 0"
  by (rule bit_word_eqI) (auto simp: bit_and_iff bit_exp_iff mask_eq_exp_minus_1 [symmetric] bit_mask_iff)

lemma shardCount_ok:
  assumes "n = 2 ^ j" "j < 32"
  shows "unat (of_nat n :: u32) = n" "(of_nat n :: u32) \<noteq> 0" "(of_nat n :: u32) AND (of_nat n - 1) = 0"
proof -
  have "n < 2 ^ 32" using assms power_strict_increasing [of j 32 "2 :: nat"] by simp
  then show u: "unat (of_nat n :: u32) = n" by simp
  show "(of_nat n :: u32) \<noteq> 0"
  proof
    assume "(of_nat n :: u32) = 0"
    then have "unat (of_nat n :: u32) = 0" by simp
    then show False using u assms(1) by simp
  qed
  show "(of_nat n :: u32) AND (of_nat n - 1) = 0"
    using word_power_and_pred [where 'a = 32, of j] assms by simp
qed

lemma loadFrom_bytes:
  assumes calm: "calm w" "is_open f w" and bytes: "fileBytes f w = snap_bytes qs es"
    and qs: "length qs = 2 ^ j" "j < 32" and es: "\<forall>e\<in>set es. good_item qs e"
    and n: "length (shards st) < 2 ^ 32"
  shows "loadFrom c f st w =
    (Inr (newSnapshotState qs (length qs = length (shards st)), fold load_one es st), w)"
proof -
  define data where "data = snap_bytes qs es"
  define fixed where "fixed = take 12 data"
  note c = shardCount_ok [OF qs]
  have lh: "length (snapshotHeader qs) = 12 + length qs * 8" by (simp add: length_snapshotHeader)
  have fx: "fixed = take 12 (snapshotHeader qs)" by (simp add: fixed_def data_def snap_bytes_def lh)
  have fl: "take 4 fixed = snapshotMagic" "slice 4 6 fixed = PutUint16 formatVersion"
    "slice 6 8 fixed = [0, 0]" "slice 8 12 fixed = PutUint32 (of_nat (length qs))"
    using snapshotHeader_fields [of qs] by (simp_all add: fx slice_def drop_take)
  have len: "\<not> length data < 12" "\<not> length data < 12 + length qs * 8"
    by (simp_all add: data_def snap_bytes_def lh)
  have sq: "slice 12 (12 + length qs * 8) data = concat (map PutUint64 qs)"
    using snapshotHeader_fields(5) [of qs] lh by (simp add: data_def snap_bytes_def slice_def)
  have mm: "(of_nat (length qs) :: u32) = of_nat (length (shards st)) \<longleftrightarrow> length qs = length (shards st)"
  proof
    assume "(of_nat (length qs) :: u32) = of_nat (length (shards st))"
    then have "unat (of_nat (length qs) :: u32) = unat (of_nat (length (shards st)) :: u32)" by simp
    then show "length qs = length (shards st)" using c(1) n by simp
  qed simp
  have le: "loadEntries c f data qs (12 + length qs * 8) st w = (Inr (fold load_one es st), w)"
    using loadEntries_bytes [OF calm, of data "snapshotHeader qs" es qs c st] es lh by (simp add: data_def snap_bytes_def)
  show ?thesis
    using calm unfolding loadFrom_def
    by (simp add: bytes [folded data_def] fixed_def [symmetric] layout(1) Let_def len fl c sq mm le readSequences_Put Uint16_zeros
        snapshotFixedHeaderSize_def)
qed

section \<open>A log replayed over a snapshot\<close>

text \<open>
  What a key holds after a replay is decided by the last record for it.
\<close>

lemma replay_last:
  "replay rs m k = (if filter (\<lambda>r. lkey r = k) rs = [] then m k
     else apply_rec (last (filter (\<lambda>r. lkey r = k) rs)) Map.empty k)"
proof (induction rs rule: rev_induct)
  case (snoc r rs)
  then show ?case using apply_rec_key [of r "replay rs m" k] by simp
qed simp

lemma last_filter: "xs \<noteq> [] \<Longrightarrow> P (last xs) \<Longrightarrow> filter P xs \<noteq> [] \<and> last (filter P xs) = last xs"
  by (cases xs rule: rev_cases) auto

text \<open>
  \<open>m\<close> is \<open>m'\<close> but for some items of the kind \<open>E\<close>, which it may lack: what a snapshot of the memory is
  to the log, with \<open>E\<close> for the items that had expired.
\<close>

definition lacks :: "(item \<Rightarrow> bool) \<Rightarrow> (key \<rightharpoonup> item) \<Rightarrow> (key \<rightharpoonup> item) \<Rightarrow> bool" where
  "lacks E m m' \<longleftrightarrow> (\<forall>k. m k = m' k \<or> m k = None \<and> (\<exists>e. m' k = Some e \<and> E e))"

text \<open>The contents \<open>m\<close> are those of the log \<open>H\<close> through the sequence \<open>q k\<close> of each key's shard.\<close>

definition covers :: "(item \<Rightarrow> bool) \<Rightarrow> (key \<Rightarrow> u64) \<Rightarrow> logrec list \<Rightarrow> (key \<rightharpoonup> item) \<Rightarrow> bool" where
  "covers E q H m \<longleftrightarrow> lacks E m (\<lambda>k. replay (filter (\<lambda>r. lseq r \<le> q k) H) Map.empty k)"

lemma replay_over_snapshot:
  assumes "sorted_wrt (<) (map lseq H)" "covers E q H m" "\<forall>k. c k \<le> q k"
  shows "lacks E (replay (filter (\<lambda>r. c (lkey r) < lseq r) H) m) (replay H Map.empty)"
  unfolding lacks_def
proof
  fix k
  define X where "X = filter (\<lambda>r. lkey r = k) H"
  let ?R = "replay (filter (\<lambda>r. c (lkey r) < lseq r) H) m"
  have fx: "filter (\<lambda>r. lkey r = k) (filter (\<lambda>r. c (lkey r) < lseq r) H) = filter (\<lambda>r. c k < lseq r) X"
    "filter (\<lambda>r. lkey r = k) (filter (\<lambda>r. lseq r \<le> q k) H) = filter (\<lambda>r. lseq r \<le> q k) X"
    unfolding X_def filter_filter by (auto intro: filter_cong)
  have sX: "sorted_wrt (\<lambda>x y. lseq x < lseq y) X"
    using assms(1) by (simp add: X_def sorted_wrt_map sorted_wrt_filter)
  show "?R k = replay H Map.empty k \<or> ?R k = None \<and> (\<exists>e. replay H Map.empty k = Some e \<and> E e)"
  proof (cases "X \<noteq> [] \<and> c k < lseq (last X)")
    case True
    then show ?thesis
      using last_filter [of X "\<lambda>r. c k < lseq r"] fx(1) by (simp add: replay_last X_def [symmetric])
  next
    case False
    have low: "lseq x \<le> c k" if x: "x \<in> set X" for x
    proof -
      have X: "X = butlast X @ [last X]" using x by (cases X) auto
      then have "sorted_wrt (\<lambda>x y. lseq x < lseq y) (butlast X @ [last X])" using sX by simp
      then have "\<forall>y\<in>set (butlast X). lseq y \<le> lseq (last X)" by (auto simp: sorted_wrt_append)
      moreover have "x \<in> set (butlast X) \<or> x = last X" using x X by (metis Un_iff empty_iff empty_set set_ConsD set_append)
      moreover have "lseq (last X) \<le> c k" using False x by (cases X) (auto simp: not_less)
      ultimately show ?thesis by (auto intro: order_trans)
    qed
    then have "filter (\<lambda>r. c k < lseq r) X = []" by (force simp: filter_empty_conv)
    then have "?R k = m k" using fx(1) by (simp add: replay_last)
    moreover have "filter (\<lambda>r. lseq r \<le> q k) X = X"
      using low assms(3) unfolding filter_id_conv by (meson order_trans)
    then have "replay (filter (\<lambda>r. lseq r \<le> q k) H) Map.empty k = replay H Map.empty k"
      using fx(2) by (simp add: replay_last X_def [symmetric])
    ultimately show ?thesis
      using assms(2) [unfolded covers_def lacks_def, rule_format, of k] by simp
  qed
qed

lemma chain_sorted: "chain q rs \<Longrightarrow> sorted_wrt (<) (map lseq rs)"
proof (induction rs arbitrary: q)
  case (Cons r rs)
  then show ?case using chain_bounds [of "lseq r" rs] by auto
qed simp

section \<open>Loading the newest snapshot\<close>

text \<open>The newest snapshot that the directory lists holds the sequences \<open>qs\<close> and the entries \<open>es\<close>.\<close>

definition snapshot_on_disk :: "world \<Rightarrow> u64 list \<Rightarrow> item list \<Rightarrow> bool" where
  "snapshot_on_disk w qs es \<longleftrightarrow>
     (\<exists>older name q i. fst (listSnapshots w) = Inr (older @ [(name, q)]) \<and> map_of (dir w) name = Some (NFile i) \<and>
        content (inodes w i) = snap_bytes qs es) \<and>
     (\<exists>j. length qs = 2 ^ j \<and> j < 32) \<and> (\<forall>e\<in>set es. good_item qs e)"

lemma listSnapshots_calm: "calm w \<Longrightarrow> snd (listSnapshots w) = w"
  by (simp add: listSnapshots_def readDir_def split: sum.splits)

lemma loadSnapshot_disk:
  assumes w: "calm w" "handles_ok w" and s: "snapshot_on_disk w qs es" and n: "length (shards st) < 2 ^ 32"
  shows "\<exists>w'. loadSnapshot c st w =
      (Inr (newSnapshotState qs (length qs = length (shards st)), fold load_one es st), w') \<and>
    calm w' \<and> handles_ok w' \<and> same_disk w w'"
proof -
  obtain older name q i j where o: "fst (listSnapshots w) = Inr (older @ [(name, q)])"
    "map_of (dir w) name = Some (NFile i)" "content (inodes w i) = snap_bytes qs es"
    "length qs = 2 ^ j" "j < 32" "\<forall>e\<in>set es. good_item qs e"
    using s by (auto simp: snapshot_on_disk_def)
  have ls: "listSnapshots w = (Inr (older @ [(name, q)]), w)"
    using o(1) listSnapshots_calm [OF w(1)] by (metis prod.collapse)
  obtain f w1 where f: "openFile name w = (Inr f, w1)" "hino f = i" "is_open f w1" "calm w1" "handles_ok w1"
    "same_disk w w1" "hid f < nextHandle w1"
    using openFile_calm [OF w o(2)] by blast
  have fb: "fileBytes f w1 = snap_bytes qs es" using f(2,6) o(3) by (simp add: fileBytes_def same_disk_def)
  note lf = loadFrom_bytes [OF f(4,3) fb o(4-6) n, of c]
  have "loadSnapshot c st w =
      (Inr (newSnapshotState qs (length qs = length (shards st)), fold load_one es st), snd (closeFile f w1))"
    by (simp add: loadSnapshot_def ls f(1) lf Let_def)
  then show ?thesis
    using closeFile_world [of w1 f] f by (auto simp: same_disk_def)
qed

lemma load_one_rec:
  "recoveryShard st = None \<Longrightarrow>
     load_one e st = apply_store (LSet (ekey e) (evalue e) (edeadline e) (esequence e)) st"
  by (simp add: load_one_def apply_store_def)

text \<open>The entries of a snapshot as a map; a shard writes each key once.\<close>

definition entry_map :: "item list \<Rightarrow> (key \<rightharpoonup> item)" where
  "entry_map es = (\<lambda>k. List.find (\<lambda>e. ekey e = k) (rev es))"

lemma fold_load_one:
  assumes "wf_store st" "recoveryShard st = None" "contents st = Map.empty"
  shows "wf_store (fold load_one es st) \<and> recoveryShard (fold load_one es st) = None \<and>
    shardMask (fold load_one es st) = shardMask st \<and>
    length (shards (fold load_one es st)) = length (shards st) \<and>
    contents (fold load_one es st) = entry_map es"
proof (induction es rule: rev_induct)
  case Nil
  then show ?case using assms by (simp add: entry_map_def)
next
  case (snoc e es)
  let ?s = "fold load_one es st" and ?r = "LSet (ekey e) (evalue e) (edeadline e) (esequence e)"
  have l: "fold load_one (es @ [e]) st = apply_store ?r ?s" using snoc load_one_rec by simp
  note a = apply_store_correct [of ?s ?r]
  have "contents (apply_store ?r ?s) = entry_map (es @ [e])"
    using a(2) snoc by (auto simp: entry_map_def fun_eq_iff)
  then show ?case using snoc a l by simp
qed

section \<open>Which segments are replayed\<close>

lemma fold_min_le: "fold (\<lambda>q m. if q < m then q else m) qs a \<le> a \<and>
    (\<forall>q\<in>set qs. fold (\<lambda>q m. if q < m then q else m) qs a \<le> q)" for a :: "'a::linorder"
proof (induction qs arbitrary: a)
  case (Cons x xs)
  show ?case using Cons.IH [of x] Cons.IH [of a] by simp (meson less_imp_le not_less order_trans)
qed simp

lemma fold_max_ge: "a \<le> fold (\<lambda>q m. if m < q then q else m) qs a \<and>
    (\<forall>q\<in>set qs. q \<le> fold (\<lambda>q m. if m < q then q else m) qs a)" for a :: "'a::linorder"
proof (induction qs arbitrary: a)
  case (Cons x xs)
  show ?case using Cons.IH [of x] Cons.IH [of a] by simp (meson less_imp_le not_less order_trans)
qed simp

lemma lowest_le: "q \<in> set qs \<Longrightarrow> lowest (newSnapshotState qs b) \<le> q"
  using fold_min_le [of "tl qs" "hd qs"] by (cases qs) (auto simp: newSnapshotState_def)

lemma highest_ge: "q \<in> set qs \<Longrightarrow> q \<le> highest (newSnapshotState qs b)"
  using fold_max_ge [of "hd qs" "tl qs"] by (cases qs) (auto simp: newSnapshotState_def)

lemma newSnapshotState_simps [simp]:
  "loaded (newSnapshotState qs b)" "replaySequences (newSnapshotState qs b) = (if b then Some qs else None)"
  by (simp_all add: newSnapshotState_def)

lemma lowest_flag: "lowest (newSnapshotState qs b) = lowest (newSnapshotState qs b')"
  "highest (newSnapshotState qs b) = highest (newSnapshotState qs b')"
  by (simp_all add: newSnapshotState_def)

lemma startIndex_upto:
  assumes "snd (segs ! 0) \<le> fr"
  shows "let i = fold (\<lambda>i start. if snd (segs ! i) \<le> fr then i else start) [0..<n] 0 in
    (i < n \<or> i = 0) \<and> snd (segs ! i) \<le> fr"
  using assms by (induction n) (auto simp: Let_def)

lemma startIndex_ok:
  assumes "segs \<noteq> []" "snd (hd segs) \<le> fr"
  shows "startIndex fr segs < length segs \<and> snd (segs ! startIndex fr segs) \<le> fr"
  using startIndex_upto [of segs fr "length segs"] assms by (auto simp: startIndex_def hd_conv_nth Let_def)

lemma seg_chain_suffix: "seg_chain q (S @ T) \<Longrightarrow> seg_chain (last_seq q (all_recs S)) T"
  by (induction S arbitrary: q) auto

lemma hd_first_le:
  assumes "seg_chain base S" "S \<noteq> []" "base \<le> lowest sn"
  shows "sfirst (hd S) \<le> firstRequired sn"
proof -
  have f: "sfirst (hd S) = base + 1" "base \<noteq> maxSequence" using assms(1,2) by (cases S; auto)+
  show ?thesis
  proof (cases "lowest sn = maxSequence")
    case True
    then show ?thesis by (simp add: firstRequired_def maxSequence_def)
  next
    case False
    then have "unat (base + 1) = Suc (unat base)" "unat (lowest sn + 1) = Suc (unat (lowest sn))"
      using f(2) word_succ_neq_zero by (auto simp: maxSequence_def)
    then show ?thesis using f(1) False assms(3) by (simp add: firstRequired_def word_le_nat_alt)
  qed
qed

text \<open>The records that recovery does not read lie at or below the lowest sequence of the snapshot.\<close>

lemma skipped_records:
  assumes c: "seg_chain base (S1 @ S2)" "S2 \<noteq> []" and f: "sfirst (hd S2) \<le> firstRequired sn"
    and r: "r \<in> set (all_recs S1)"
  shows "lseq r \<le> lowest sn"
proof -
  have ch: "chain base (all_recs S1)" using seg_chain_chain [OF c(1)] by simp
  let ?q = "last_seq base (all_recs S1)"
  have s2: "sfirst (hd S2) = ?q + 1" "?q \<noteq> maxSequence"
    using seg_chain_suffix [OF c(1)] c(2) by (cases S2; auto)+
  have "unat (?q + 1) = Suc (unat ?q)" using s2(2) word_succ_neq_zero by (auto simp: maxSequence_def)
  moreover have "unat (firstRequired sn) \<le> Suc (unat (lowest sn))"
    using word_succ_neq_zero [of "lowest sn"] by (auto simp: firstRequired_def maxSequence_def)
  ultimately have "?q \<le> lowest sn" using f s2(1) by (simp add: word_le_nat_alt)
  then show ?thesis using chain_bounds [OF ch r] by (meson order_trans)
qed

section \<open>Recovery with a snapshot\<close>

abbreviation snap_seq :: "u64 list \<Rightarrow> key \<Rightarrow> u64" where
  "snap_seq qs k \<equiv> qs ! snap_shard (length qs) k"

lemma snap_shard_less: "0 < n \<Longrightarrow> n < 2 ^ 63 \<Longrightarrow> snap_shard n k < n"
  using shardIndex_less [OF routed_newStoreState [of n 0], of k]
  by (simp add: snap_shard_def shardIndex_def newStoreState_def)

lemma shardIndex_snap_shard: "wf_store st \<Longrightarrow> shardIndex st k = snap_shard (length (shards st)) k"
  by (simp add: wf_store_def routed_def shardIndex_def snap_shard_def)

text \<open>The sequence from which recovery replays a key, and that the snapshot has all before it.\<close>

definition replay_from :: "u64 list \<Rightarrow> nat \<Rightarrow> key \<Rightarrow> u64" where
  "replay_from qs n k = (if length qs = n then snap_seq qs k else lowest (newSnapshotState qs False))"

lemma replay_from_bounds:
  assumes "0 < length qs" "length qs < 2 ^ 63"
  shows "lowest (newSnapshotState qs b) \<le> replay_from qs n k" "replay_from qs n k \<le> snap_seq qs k"
proof -
  have m: "snap_seq qs k \<in> set qs" using snap_shard_less [OF assms, of k] by simp
  then show "lowest (newSnapshotState qs b) \<le> replay_from qs n k"
    using lowest_le [OF m] lowest_flag(1) [of qs b False] by (auto simp: replay_from_def)
  show "replay_from qs n k \<le> snap_seq qs k" using lowest_le [OF m] by (auto simp: replay_from_def)
qed

lemma shouldApply_from:
  assumes "wf_store st" "recoveryShard st = None" "n = length (shards st)"
  shows "shouldApply st (newSnapshotState qs (length qs = n)) k q \<longleftrightarrow> replay_from qs n k < q"
  using assms shardIndex_snap_shard [OF assms(1), of k] lowest_flag(1) [of qs "length qs = n" False]
  by (auto simp: shouldApply_def replay_from_def)

lemma filter_skipped:
  assumes "\<forall>r\<in>set old. lseq r \<le> low" "\<forall>k. low \<le> c k"
  shows "filter (\<lambda>r. c (lkey r) < lseq r) (old @ rs) = filter (\<lambda>r. c (lkey r) < lseq r) rs"
proof -
  have "filter (\<lambda>r. c (lkey r) < lseq r) old = []"
    using assms by (auto simp: filter_empty_conv not_less intro: order_trans)
  then show ?thesis by simp
qed

lemma replayed_over_entries:
  assumes st: "wf_store st" "recoveryShard st = None" "contents st = Map.empty"
    and qs: "0 < length qs" "length qs < 2 ^ 63"
    and H: "chain 0 (old @ rs)" "\<forall>r\<in>set old. lseq r \<le> lowest (newSnapshotState qs True)"
    and cov: "covers E (snap_seq qs) (old @ rs) (entry_map es)"
  defines "sn \<equiv> newSnapshotState qs (length qs = length (shards st))"
  defines "st' \<equiv> fold (replay_one sn) rs (fold load_one es st)"
  shows "wf_store st'" "lacks E (contents st') (replay (old @ rs) Map.empty)"
    "length (shards st') = length (shards st)" "recoveryShard st' = None"
proof -
  let ?n = "length (shards st)" and ?s = "fold load_one es st"
  note l = fold_load_one [OF st, of es]
  note r = fold_replay_one [of ?s st' sn rs, OF _ st'_def [THEN meta_eq_to_obj_eq]]
  have app: "shouldApply ?s sn k q \<longleftrightarrow> replay_from qs ?n k < q" for k q
    using shouldApply_from [of ?s ?n qs k q] l by (simp add: sn_def)
  have low: "\<forall>k. lowest (newSnapshotState qs True) \<le> replay_from qs ?n k"
    using replay_from_bounds(1) [OF qs] by blast
  have "contents st' = replay (filter (\<lambda>r. replay_from qs ?n (lkey r) < lseq r) (old @ rs)) (entry_map es)"
    using r l filter_skipped [OF H(2) low, of rs] by (simp add: app)
  then show "lacks E (contents st') (replay (old @ rs) Map.empty)"
    using replay_over_snapshot [OF chain_sorted [OF H(1)] cov, of "replay_from qs ?n"] replay_from_bounds(2) [OF qs]
    by simp
  show "wf_store st'" "length (shards st') = length (shards st)" "recoveryShard st' = None" using r l by auto
qed

text \<open>
  The run: the segments before \<open>S2\<close> are skipped, those of \<open>S2\<close> are replayed over the entries of the
  snapshot, and a log that ends below the highest sequence of the snapshot is refused.
\<close>

lemma recoverLog_snapshot_run:
  assumes w: "calm w" "handles_ok w" and sn: "snapshot_on_disk w qs es" and d: "disk_log w base S t"
    and low: "base \<le> lowest (newSnapshotState qs True)" and st: "length (shards st) < 2 ^ 32"
  defines "sn \<equiv> newSnapshotState qs (length qs = length (shards st))"
  obtains S1 S2 f w' where "S = S1 @ S2" "\<forall>r\<in>set (all_recs S1). lseq r \<le> lowest (newSnapshotState qs True)"
    "replayed_disk S w f w'"
    "recoverLog c st w =
      (if last_seq base (all_recs S) < highest (newSnapshotState qs True)
       then (Inl (ErrGapAfterWAL (last_seq base (all_recs S)) (highest (newSnapshotState qs True))), snd (closeFile f w'))
       else (Inr (\<lparr>lfile = f, loffset = length (seg_bytes (srecs (last S))), logSeq = last_seq base (all_recs S),
                   bytesSinceSnapshot = 0\<rparr>,
                  setLogSequence (last_seq base (all_recs S))
                    (fold (replay_one sn) (all_recs S2) (fold load_one es st))), w'))"
proof -
  let ?sn = "newSnapshotState qs (length qs = length (shards st))" and ?st = "fold load_one es st"
  from d have S: "S \<noteq> []" "segs_in_dir w S" "seg_chain base S" "distinct (map sino S)"
    and bl: "\<forall>s\<in>set (butlast S). content (inodes w (sino s)) = seg_bytes (srecs s)"
    and last: "content (inodes w (sino (last S))) = seg_bytes (srecs (last S)) @ t" "t = [] \<or> torn t"
    by (auto simp: disk_log_def segs_in_dir_def)
  obtain w1 where ld: "loadSnapshot c st w = (Inr (?sn, ?st), w1)" and w1: "calm w1" "handles_ok w1" "same_disk w w1"
    using loadSnapshot_disk [OF w sn st, of c] by blast
  have ls: "listSegments w1 = (Inr (map seqfile_of S), w1)"
    by (rule listSegments_disk [OF w1(1) _ S(3)]) (use S(2) w1(3) in \<open>simp add: segs_in_dir_def same_disk_def\<close>)
  have lowsn: "base \<le> lowest ?sn" using low lowest_flag(1) by metis
  note hd = hd_first_le [OF S(3,1) lowsn]
  define i where "i = startIndex (firstRequired ?sn) (map seqfile_of S)"
  have i: "i < length S" "sfirst (S ! i) \<le> firstRequired ?sn"
    using startIndex_ok [of "map seqfile_of S" "firstRequired ?sn"] S(1) hd by (auto simp: i_def hd_map)
  define S1 S2 where "S1 = take i S" and "S2 = drop i S"
  have S12: "S = S1 @ S2" "S2 \<noteq> []" "hd S2 = S ! i" "last S2 = last S"
    using i(1) by (simp_all add: S1_def S2_def hd_drop_conv_nth)
  let ?q = "last_seq base (all_recs S1)"
  have c2: "seg_chain ?q S2" using seg_chain_suffix [of base S1 S2] S(3) S12(1) by simp
  then have prev: "snd (map seqfile_of S ! i) - 1 = ?q" using S12(2,3) i(1) by (cases S2) auto
  have d2: "\<forall>s\<in>set S2. map_of (dir w1) (sname s) = Some (NFile (sino s))"
    "\<forall>s\<in>set (butlast S2). content (inodes w1 (sino s)) = seg_bytes (srecs s)"
    "content (inodes w1 (sino (last S2))) = seg_bytes (srecs (last S2)) @ t" "distinct (map sino S2)"
  proof -
    have sub: "set S2 \<subseteq> set S" "set (butlast S2) \<subseteq> set (butlast S)"
      using S12(2) by (auto simp: S12(1) butlast_append)
    show "\<forall>s\<in>set S2. map_of (dir w1) (sname s) = Some (NFile (sino s))"
      "\<forall>s\<in>set (butlast S2). content (inodes w1 (sino s)) = seg_bytes (srecs s)"
      "content (inodes w1 (sino (last S2))) = seg_bytes (srecs (last S2)) @ t"
      using segs_in_dir_lookup [OF S(2)] bl last(1) sub w1(3) by (auto simp: same_disk_def S12(4))
    show "distinct (map sino S2)" using S(4) by (simp add: S2_def drop_map [symmetric])
  qed
  obtain f w2 where r: "recoverSegments c ?st ?sn ?q (map seqfile_of S2) w1 =
      (Inr (f, length (seg_bytes (srecs (last S))), last_seq ?q (all_recs S2), fold (replay_one ?sn) (all_recs S2) ?st), w2)"
    and rd: "replayed_disk S2 w1 f w2"
    using recoverSegments_disk [OF S12(2) w1(1,2) c2 d2(4,1,2,3) last(2), of c ?st ?sn] S12(4) by auto
  define st' where "st' = fold (replay_one ?sn) (all_recs S2) ?st"
  have lq: "last_seq ?q (all_recs S2) = last_seq base (all_recs S)" using S12(1) by simp
  have res: "recoverLog c st w =
    (if last_seq base (all_recs S) < highest ?sn
     then (Inl (ErrGapAfterWAL (last_seq base (all_recs S)) (highest ?sn)), snd (closeFile f w2))
     else (Inr (\<lparr>lfile = f, loffset = length (seg_bytes (srecs (last S))), logSeq = last_seq base (all_recs S),
                 bytesSinceSnapshot = 0\<rparr>, setLogSequence (last_seq base (all_recs S)) st'), w2))"
  proof -
    have r': "recoverSegments c ?st ?sn (snd (map seqfile_of S ! i) - 1) (drop i (map seqfile_of S)) w1 =
        (Inr (f, length (seg_bytes (srecs (last S))), last_seq base (all_recs S), st'), w2)"
      using r lq by (simp only: prev st'_def S2_def drop_map)
    have "map seqfile_of S \<noteq> []" "\<not> firstRequired ?sn < snd (hd (map seqfile_of S))"
      using hd S(1) by (simp_all add: hd_map)
    then show ?thesis
      by (simp only: recoverLog_def ld ls prod.case sum.case Let_def i_def [symmetric] newSnapshotState_simps(1)
          simp_thms if_True if_False r')
  qed
  have "\<forall>r\<in>set (all_recs S1). lseq r \<le> lowest (newSnapshotState qs True)"
    using skipped_records [of base S1 S2 ?sn] S(3) S12 i(2) lowest_flag(1) by metis
  moreover have "replayed_disk S w f w2" using rd w1(3) S12(4) by (simp add: replayed_disk_def same_disk_def)
  ultimately show ?thesis
    using that [of S1 S2 f w2] res S12(1) lowest_flag(2) [of qs "length qs = length (shards st)" True]
    by (simp only: st'_def sn_def)
qed

lemma recoverLog_snapshot:
  assumes w: "calm w" "handles_ok w" and sn: "snapshot_on_disk w qs es" and d: "disk_log w base S t"
    and H: "chain 0 (old @ all_recs S)" "last_seq 0 old = base"
    and low: "base \<le> lowest (newSnapshotState qs True)"
    and high: "highest (newSnapshotState qs True) \<le> last_seq base (all_recs S)"
    and st: "wf_store st" "recoveryShard st = None" "contents st = Map.empty" "length (shards st) < 2 ^ 32"
    and cov: "covers E (snap_seq qs) (old @ all_recs S) (entry_map es)"
  shows "\<exists>log st' w'. recoverLog c st w = (Inr (log, st'), w') \<and> log_ok w' log base S \<and> wf_store st' \<and>
    lacks E (contents st') (replay (old @ all_recs S) Map.empty) \<and> logSequence st' = last_seq base (all_recs S)"
proof -
  obtain S1 S2 f w' where r: "S = S1 @ S2" "\<forall>r\<in>set (all_recs S1). lseq r \<le> lowest (newSnapshotState qs True)"
    "replayed_disk S w f w'" "recoverLog c st w =
      (if last_seq base (all_recs S) < highest (newSnapshotState qs True)
       then (Inl (ErrGapAfterWAL (last_seq base (all_recs S)) (highest (newSnapshotState qs True))), snd (closeFile f w'))
       else (Inr (\<lparr>lfile = f, loffset = length (seg_bytes (srecs (last S))), logSeq = last_seq base (all_recs S),
                   bytesSinceSnapshot = 0\<rparr>,
                  setLogSequence (last_seq base (all_recs S)) (fold (replay_one (newSnapshotState qs (length qs = length (shards st))))
                    (all_recs S2) (fold load_one es st))), w'))"
    using recoverLog_snapshot_run [OF w sn d low st(4)] by blast
  define st' where "st' = fold (replay_one (newSnapshotState qs (length qs = length (shards st)))) (all_recs S2) (fold load_one es st)"
  have qs: "0 < length qs" "length qs < 2 ^ 63"
    using sn power_strict_increasing [of _ 63 "2 :: nat"] by (auto simp: snapshot_on_disk_def)
  have "\<forall>r\<in>set (old @ all_recs S1). lseq r \<le> lowest (newSnapshotState qs True)"
    using r(2) chain_bounds [of 0 old] H low by (auto intro: order_trans)
  note rp = replayed_over_entries [OF st(1-3) qs, of "old @ all_recs S1" "all_recs S2" E es, folded st'_def, OF _ this]
  have "wf_store st'" "lacks E (contents st') (replay (old @ all_recs S) Map.empty)"
    using rp H(1) cov r(1) by simp_all
  then show ?thesis
    using r(4) [folded st'_def] replayed_log_ok [OF d r(3), of 0] high by (auto simp: setLogSequence_def)
qed

text \<open>What the newest snapshot and the log must have in common; without a snapshot, the log is complete.\<close>

definition snapshot_fits :: "world \<Rightarrow> u64 list \<Rightarrow> item list \<Rightarrow> (item \<Rightarrow> bool) \<Rightarrow> logrec list \<Rightarrow> u64 \<Rightarrow> u64 \<Rightarrow> bool" where
  "snapshot_fits w qs es E H base end' \<longleftrightarrow>
     snapshot_on_disk w qs es \<and> base \<le> lowest (newSnapshotState qs True) \<and>
     highest (newSnapshotState qs True) \<le> end' \<and> covers E (snap_seq qs) H (entry_map es)"

end
