(* ===== verification/Cache_Snapshot_Write.thy ===== *)
theory Cache_Snapshot_Write
  imports Cache_Snapshot Cache_Snapshot_Load Cache_Wal_Props
begin

text \<open>
  Writing a snapshot. Whatever calls fail and whatever the other goroutines do between two
  shards, a snapshot file that was filled without an error holds for every shard the sequence
  and the entries of one moment, so that the log replayed over it from there gives what the
  whole log gives. Installing it keeps every record that recovery needs.
\<close>

section \<open>The bytes that are written\<close>

text \<open>Only the bytes of \<open>f\<close> have changed, by an extension.\<close>

definition appended :: "handle \<Rightarrow> bytes \<Rightarrow> world \<Rightarrow> world \<Rightarrow> bool" where
  "appended f bs w w' \<longleftrightarrow> content (inodes w' (hino f)) = content (inodes w (hino f)) @ bs"

lemma appended_trans: "appended f as w w' \<Longrightarrow> appended f bs w' w'' \<Longrightarrow> appended f (as @ bs) w w''"
  by (simp add: appended_def)

lemma writeFull_appends: "writeFull f val w = (None, w') \<Longrightarrow> appended f val w w'"
proof (induction f val w rule: writeFull.induct)
  case (1 h val w)
  show ?case
  proof (cases "val = []")
    case True
    then show ?thesis using "1.prems" by (simp add: writeFull.simps [of h "[]" w] appended_def)
  next
    case False
    obtain n e w1 where wf: "writeFile h val w = ((n, e), w1)" by (metis prod.exhaust_sel)
    have e: "e = None" using "1.prems" False wf by (cases e) (auto simp: writeFull.simps [of h val w])
    then have n: "n = length val" "appended h val w w1"
      using writeFile_effect [OF wf] by (auto simp: appended_def)
    then have "writeFull h [] w1 = (None, w')"
      using "1.prems" False wf e by (simp add: writeFull.simps [of h val w] split: if_splits)
    then show ?thesis using n(2) by (simp add: writeFull.simps [of h "[]" w1])
  qed
qed

text \<open>The entries of a shard in the order in which its map is met.\<close>

definition shard_entries :: "shard \<Rightarrow> key list \<Rightarrow> item list" where
  "shard_entries sh order = map (\<lambda>k. the (shard_image sh k)) (filter (\<lambda>k. entries sh k \<noteq> None) order)"

lemma encodeSnapshotEntry_truncate: "encodeSnapshotEntry (item.truncate e) = encodeSnapshotEntry e"
  by (simp add: encodeSnapshotEntry_payload entryPayload_def entryBody_def item.truncate_def)

lemma writeEntries_appends:
  "writeEntries f sh order w = (None, w') \<Longrightarrow>
     appended f (concat (map encodeSnapshotEntry (shard_entries sh order))) w w'"
proof (induction order arbitrary: w)
  case Nil
  then show ?case by (simp add: shard_entries_def appended_def)
next
  case (Cons k order)
  show ?case
  proof (cases "entries sh k")
    case None
    then show ?thesis using Cons by (simp add: shard_entries_def)
  next
    case (Some a)
    obtain r w1 where wf: "writeFull f (encodeSnapshotEntry (heap sh a)) w = (r, w1)" by fastforce
    have r: "r = None" "writeEntries f sh order w1 = (None, w')"
      using Cons.prems Some wf by (auto split: option.splits)
    have "appended f (concat (map encodeSnapshotEntry (shard_entries sh order))) w1 w'"
      by (rule Cons.IH [OF r(2)])
    moreover have "appended f (encodeSnapshotEntry (heap sh a)) w w1" using writeFull_appends wf r(1) by simp
    ultimately show ?thesis
      using Some appended_trans by (simp add: shard_entries_def shard_image_def encodeSnapshotEntry_truncate)
  qed
qed

text \<open>The entries of shard \<open>i\<close> as one step of the snapshot reads them.\<close>

abbreviation read_shard :: "map_order \<Rightarrow> nat \<Rightarrow> store \<Rightarrow> item list" where
  "read_shard orders i s \<equiv> shard_entries (shards s ! i) (orders i (shards s ! i))"

text \<open>
  What the other goroutines may do while a snapshot is written: keep an invariant of the store,
  and leave the temporary file alone, whose name nobody else knows.
\<close>

definition env_keeps :: "(store \<Rightarrow> bool) \<Rightarrow> handle \<Rightarrow> env \<Rightarrow> bool" where
  "env_keeps P f env \<longleftrightarrow> (\<forall>i st w st' w'. env i (st, w) = (st', w') \<longrightarrow> P st \<longrightarrow>
     P st' \<and> content (inodes w' (hino f)) = content (inodes w (hino f)))"

lemma env_keepsD:
  "env_keeps P f env \<Longrightarrow> env i (st, w) = (st', w') \<Longrightarrow> P st \<Longrightarrow> P st' \<and> appended f [] w w'"
  unfolding env_keeps_def appended_def by simp

text \<open>The states at which the shards were read, the sequences and the entries that were written.\<close>

lemma writeShards_appends:
  assumes "env_keeps P f env"
  shows "writeShards env orders f is st w = (Inr qs, st', w') \<Longrightarrow> P st \<Longrightarrow>
    \<exists>sts. length sts = length is \<and> (\<forall>s\<in>set sts. P s) \<and> P st' \<and> qs = map logSequence sts \<and>
      appended f (concat (map encodeSnapshotEntry
        (concat (map2 (read_shard orders) is sts)))) w w'"
proof (induction "is" arbitrary: st w qs)
  case Nil
  then show ?case by (simp add: appended_def)
next
  case (Cons i "is")
  obtain s w1 where e: "env i (st, w) = (s, w1)" by fastforce
  obtain r w2 where we: "writeEntries f (shards s ! i) (orders i (shards s ! i)) w1 = (r, w2)" by fastforce
  have r: "r = None" using Cons.prems(1) e we by (cases r) auto
  obtain x st2 w3 where ws: "writeShards env orders f is s w2 = (x, st2, w3)" by (metis prod_cases3)
  obtain qs' where q: "x = Inr qs'" "qs = logSequence s # qs'" "st2 = st'" "w3 = w'"
    using Cons.prems(1) e we r ws by (cases x) auto
  have s: "P s" "appended f [] w w1" using env_keepsD [OF assms e Cons.prems(2)] by blast+
  obtain sts where sts: "length sts = length is" "\<forall>s\<in>set sts. P s" "P st'" "qs' = map logSequence sts"
    "appended f (concat (map encodeSnapshotEntry
        (concat (map2 (read_shard orders) is sts)))) w2 w'"
    using Cons.IH [of s w2 qs'] ws q s(1) by auto
  have "appended f (concat (map encodeSnapshotEntry (read_shard orders i s))) w1 w2"
    using writeEntries_appends we r by simp
  from appended_trans [OF s(2) appended_trans [OF this sts(5)]]
  show ?case using sts s(1) q(2) by (intro exI [of _ "s # sts"]) auto
qed

lemma lowestOf_lowest: "qs \<noteq> [] \<Longrightarrow> lowestOf qs = lowest (newSnapshotState qs b)"
  by (cases qs) (simp_all add: lowestOf_def newSnapshotState_def)

lemma populateMemory_bytes:
  assumes env: "env_keeps P f env" and P: "P st" and new: "content (inodes w (hino f)) = []" "shards st \<noteq> []"
    and run: "populateMemory env orders f st w = (Inr low, st', w')"
  shows "\<exists>sts. length sts = length (shards st) \<and> (\<forall>s\<in>set sts. P s) \<and> P st' \<and>
    content (inodes w' (hino f)) = snap_bytes (map logSequence sts)
      (concat (map2 (read_shard orders) [0..<length (shards st)] sts)) \<and>
    low = lowest (newSnapshotState (map logSequence sts) True)"
proof -
  let ?h = "newSnapshotHeader (length (shards st))"
  obtain r w1 where h: "writeFull f ?h w = (r, w1)" by fastforce
  have r: "r = None" using run h by (cases r) (simp_all add: populateMemory_def Let_def)
  obtain x st2 w2 where ws: "writeShards env orders f [0..<length (shards st)] st w1 = (x, st2, w2)" by (metis prod_cases3)
  obtain qs where x: "x = Inr qs" using run h r ws by (cases x) (simp_all add: populateMemory_def Let_def)
  obtain sts where sts: "length sts = length (shards st)" "\<forall>s\<in>set sts. P s" "P st2" "qs = map logSequence sts"
    "appended f (concat (map encodeSnapshotEntry (concat (map2 (read_shard orders)
        [0..<length (shards st)] sts)))) w1 w2"
    using writeShards_appends [OF env ws [unfolded x] P] by auto
  let ?es = "concat (map2 (read_shard orders) [0..<length (shards st)] sts)"
  obtain y w3 where wa: "writeAtStart f (putSequences 0 qs ?h) w2 = (y, w3)" by fastforce
  have y: "y = None" "low = lowestOf qs" "st' = st2" "w' = w3"
    using run h r ws x wa by (cases y; simp add: populateMemory_def Let_def)+
  have hd: "putSequences 0 qs ?h = snapshotHeader qs" using putSequences_header [of qs] sts(1,4) by simp
  have len: "length ?h = length (snapshotHeader qs)"
    using sts(1,4) by (simp add: newSnapshotHeader_layout length_snapshotHeader snapshotMagic_def)
  have "content (inodes w2 (hino f)) = ?h @ concat (map encodeSnapshotEntry ?es)"
    using writeFull_appends [of f ?h w w1] h r new(1) sts(5) by (simp add: appended_def)
  then have "content (inodes w3 (hino f)) = snapshotHeader qs @ concat (map encodeSnapshotEntry ?es)"
  proof -
    obtain z w4 where c: "fileCall f w2 = (z, w4)" by fastforce
    have "z = None" using wa y(1) c by (cases z) (simp_all add: writeAtStart_def)
    then show ?thesis
      using wa c fileCall_keeps [OF c] \<open>content (inodes w2 (hino f)) = _\<close> hd len
      by (auto simp: writeAtStart_def putFile_def Let_def keeps_def)
  qed
  moreover have "qs \<noteq> []" using sts(1,4) new(2) by (cases sts) auto
  then have "low = lowest (newSnapshotState qs True)" using y(2) lowestOf_lowest by blast
  ultimately show ?thesis using sts y(3,4) by (auto simp: snap_bytes_def)
qed

section \<open>The memory and the log\<close>

text \<open>
  The memory mirrors the log through its sequence: it lacks at most items of the kind \<open>E\<close> (those that
  expired). It has \<open>n\<close> shards.
\<close>

definition mirrors :: "(item \<Rightarrow> bool) \<Rightarrow> logrec list \<Rightarrow> nat \<Rightarrow> store \<Rightarrow> bool" where
  "mirrors E H n st \<longleftrightarrow> wf_store st \<and> length (shards st) = n \<and>
     lacks E (contents st) (replay (filter (\<lambda>r. lseq r \<le> logSequence st) H) Map.empty)"

lemma shard_entries_find:
  assumes "\<And>k e. shard_image sh k = Some e \<Longrightarrow> ekey e = k"
  shows "List.find (\<lambda>e. ekey e = k) (rev (shard_entries sh order)) = (if k \<in> set order then shard_image sh k else None)"
proof (induction order)
  case Nil
  then show ?case by (simp add: shard_entries_def)
next
  case (Cons x order)
  have app: "List.find P (xs @ ys) = (case List.find P xs of None \<Rightarrow> List.find P ys | Some y \<Rightarrow> Some y)" for P and xs ys :: "item list"
    by (induction xs) auto
  show ?case
  proof (cases "entries sh x")
    case None
    then have "shard_entries sh (x # order) = shard_entries sh order" "shard_image sh x = None"
      by (simp_all add: shard_entries_def shard_image_def)
    then show ?thesis using Cons by auto
  next
    case (Some a)
    then obtain e where e: "shard_image sh x = Some e" "shard_entries sh (x # order) = e # shard_entries sh order"
      by (simp add: shard_entries_def shard_image_def)
    have "ekey e = x" using assms e(1) by blast
    then show ?thesis using Cons e by (auto simp: app split: option.splits)
  qed
qed

lemma shard_image_key: "wf_shard sh \<Longrightarrow> shard_image sh k = Some e \<Longrightarrow> ekey e = k"
  by (auto simp: wf_shard_def shard_ok_def shard_image_def item.truncate_def)

lemma wf_shard_finite: "wf_shard sh \<Longrightarrow> finite (dom (entries sh))"
proof -
  assume wf: "wf_shard sh"
  have "dom (entries sh) \<subseteq> ekey ` heap sh ` set (lruList sh)"
  proof
    fix k assume "k \<in> dom (entries sh)"
    then obtain a where "entries sh k = Some a" by blast
    then have "a \<in> set (lruList sh)" "ekey (heap sh a) = k" using wf by (simp_all add: wf_shard_def shard_ok_def)
    then show "k \<in> ekey ` heap sh ` set (lruList sh)" by blast
  qed
  then show ?thesis using finite_subset by blast
qed

lemma range_order_keys: "range_order orders \<Longrightarrow> wf_shard sh \<Longrightarrow> set (orders i sh) = dom (entries sh)"
  using wf_shard_finite unfolding range_order_def by blast

lemma find_concat_unique:
  assumes "\<And>i. i < length xss \<Longrightarrow> i \<noteq> j \<Longrightarrow> List.find P (rev (xss ! i)) = None" "j < length xss"
  shows "List.find P (rev (concat xss)) = List.find P (rev (xss ! j))"
proof -
  have app: "List.find P (xs @ ys) = (case List.find P xs of None \<Rightarrow> List.find P ys | Some y \<Rightarrow> Some y)" for xs ys :: "'a list"
    by (induction xs) auto
  show ?thesis using assms
  proof (induction xss arbitrary: j)
    case (Cons xs xss)
    have none: "List.find P (rev (concat xss)) = None" if "j = 0"
    proof -
      have "List.find P (rev ys) = None" if "ys \<in> set xss" for ys
        using Cons.prems(1) [of "Suc _"] that \<open>j = 0\<close> by (auto simp: in_set_conv_nth)
      then show ?thesis by (auto simp: find_None_iff)
    qed
    show ?case
    proof (cases j)
      case 0
      then show ?thesis using none by (simp add: app)
    next
      case (Suc m)
      have "List.find P (rev (concat xss)) = List.find P (rev (xss ! m))"
        using Cons.IH [of m] Cons.prems Suc by fastforce
      moreover have "List.find P (rev xs) = None" using Cons.prems(1) [of 0] Suc by simp
      ultimately show ?thesis using Suc by (simp add: app split: option.splits)
    qed
  qed simp
qed

text \<open>The entries of a snapshot hold each key as the store held it when its shard was read.\<close>

lemma entry_map_shards:
  assumes sts: "length sts = n" "\<forall>s\<in>set sts. mirrors E H n s" and n: "0 < n" "n < 2 ^ 63"
    and orders: "range_order orders"
  shows "entry_map (concat (map2 (read_shard orders) [0..<n] sts)) k =
    contents (sts ! snap_shard n k) k"
proof -
  let ?xss = "map2 (read_shard orders) [0..<n] sts" and ?j = "snap_shard n k"
  have j: "?j < n" by (rule snap_shard_less [OF n])
  have m: "mirrors E H n (sts ! i)" if "i < n" for i using sts that by (simp add: nth_mem)
  have nth: "?xss ! i = read_shard orders i (sts ! i)" if "i < n" for i
    using that sts(1) by simp
  have f: "List.find (\<lambda>e. ekey e = k) (rev (?xss ! i)) =
      shard_image (shards (sts ! i) ! i) k" if "i < n" for i
  proof -
    have wf: "wf_shard (shards (sts ! i) ! i)" using m [OF that] that by (auto simp: mirrors_def wf_store_def)
    show ?thesis
      unfolding nth [OF that]
      using shard_entries_find [where k = k, OF shard_image_key [OF wf]] range_order_keys [OF orders wf, of i]
      by (auto simp: shard_image_def)
  qed
  have "List.find (\<lambda>e. ekey e = k) (rev (?xss ! i)) = None" if i: "i < length ?xss" "i \<noteq> ?j" for i
  proof -
    have il: "i < n" using i sts(1) by simp
    have wf: "wf_store (sts ! i)" "length (shards (sts ! i)) = n" using m [OF il] by (auto simp: mirrors_def)
    then have "shardIndex (sts ! i) k \<noteq> i" using i(2) shardIndex_snap_shard by metis
    moreover have "homed (sts ! i) i (shards (sts ! i) ! i)" using wf il by (simp add: wf_store_def)
    ultimately have "entries (shards (sts ! i) ! i) k = None" unfolding homed_def by blast
    then show ?thesis using f [OF il] by (simp add: shard_image_def)
  qed
  then have "entry_map (concat ?xss) k = List.find (\<lambda>e. ekey e = k) (rev (?xss ! ?j))"
    unfolding entry_map_def using find_concat_unique [of ?xss ?j "\<lambda>e. ekey e = k"] j sts(1) by simp
  also have "\<dots> = shard_image (shards (sts ! ?j) ! ?j) k"
    using f [OF j] .
  also have "\<dots> = contents (sts ! ?j) k"
    using m [OF j] shardIndex_snap_shard by (metis contents_def mirrors_def shardFor_def)
  finally show ?thesis .
qed

lemma replay_item:
  assumes "replay rs Map.empty k = Some e"
  shows "\<exists>r\<in>set rs. lkey r = k \<and> lseq r = esequence e \<and> ekey e = k \<and> r = LSet k (evalue e) (edeadline e) (esequence e)"
proof -
  let ?X = "filter (\<lambda>r. lkey r = k) rs"
  have ne: "?X \<noteq> []" using assms replay_last [of rs Map.empty k] by (auto split: if_splits)
  then have e: "apply_rec (last ?X) Map.empty k = Some e" using assms by (simp add: replay_last)
  define x where "x = last ?X"
  have x: "x \<in> set rs" "lkey x = k" using last_in_set [OF ne] by (simp_all add: x_def)
  have "lseq x = esequence e \<and> ekey e = k \<and> x = LSet k (evalue e) (edeadline e) (esequence e)"
    by (cases x; use e [folded x_def] x(2) in auto)
  then show ?thesis using x by blast
qed

lemma mirrors_items:
  assumes "mirrors E H n s" "contents s k = Some e" "chain 0 H"
  shows "esequence e \<le> logSequence s" "length (ekey e) \<le> 65535" "22 + length (ekey e) + length (evalue e) < 2 ^ 32" "ekey e = k"
proof -
  have "replay (filter (\<lambda>r. lseq r \<le> logSequence s) H) Map.empty k = Some e"
    using assms(1,2) by (auto simp: mirrors_def lacks_def) (metis option.distinct(1))
  then obtain r where r: "r \<in> set H" "lseq r \<le> logSequence s" "lseq r = esequence e" "ekey e = k"
    "r = LSet k (evalue e) (edeadline e) (esequence e)"
    using replay_item by fastforce
  then have g: "good_rec r" using assms(3) chain_good by blast
  show "esequence e \<le> logSequence s" "ekey e = k" using r by simp_all
  show "length (ekey e) \<le> 65535" "22 + length (ekey e) + length (evalue e) < 2 ^ 32"
    using g r by (auto simp: good_rec_def recordSizeFor_def layout)
qed

lemma snapshot_covers:
  assumes sts: "length sts = n" "\<forall>s\<in>set sts. mirrors E H n s" and n: "0 < n" "n < 2 ^ 63" and H: "chain 0 H"
    and orders: "range_order orders"
  defines "qs \<equiv> map logSequence sts"
  defines "es \<equiv> concat (map2 (read_shard orders) [0..<n] sts)"
  shows "covers E (snap_seq qs) H (entry_map es)" "\<forall>e\<in>set es. good_item qs e"
proof -
  have m: "mirrors E H n (sts ! i)" if "i < n" for i using sts that by (simp add: nth_mem)
  have sq: "snap_seq qs k = logSequence (sts ! snap_shard n k)" for k
    using snap_shard_less [OF n, of k] sts(1) by (simp add: qs_def)
  show "covers E (snap_seq qs) H (entry_map es)"
    unfolding covers_def lacks_def
  proof
    fix k
    show "entry_map es k = replay (filter (\<lambda>r. lseq r \<le> snap_seq qs k) H) Map.empty k \<or>
      entry_map es k = None \<and> (\<exists>e. replay (filter (\<lambda>r. lseq r \<le> snap_seq qs k) H) Map.empty k = Some e \<and> E e)"
      using m [OF snap_shard_less [OF n, of k]] entry_map_shards [OF sts n orders, of k]
      unfolding mirrors_def lacks_def es_def sq by simp
  qed
  show "\<forall>e\<in>set es. good_item qs e"
  proof
    fix e assume "e \<in> set es"
    then obtain i where i: "i < n" "e \<in> set (read_shard orders i (sts ! i))"
      using sts(1) by (auto simp: es_def set_zip)
    then obtain k where k: "entries (shards (sts ! i) ! i) k \<noteq> None" "shard_image (shards (sts ! i) ! i) k = Some e"
    proof -
      obtain k where "entries (shards (sts ! i) ! i) k \<noteq> None" "e = the (shard_image (shards (sts ! i) ! i) k)"
        using i(2) by (auto simp: shard_entries_def)
      then show ?thesis using that [of k] by (auto simp: shard_image_def)
    qed
    have wf: "wf_store (sts ! i)" "length (shards (sts ! i)) = n" using m [OF i(1)] by (auto simp: mirrors_def)
    then have si: "shardIndex (sts ! i) k = i" using k(1) i(1) by (auto simp: wf_store_def homed_def)
    then have "contents (sts ! i) k = Some e" using k(2) by (simp add: contents_def shardFor_def)
    note it = mirrors_items [OF m [OF i(1)] this H]
    have "snap_shard n k = i" using shardIndex_snap_shard [OF wf(1), of k] wf(2) si by simp
    then show "good_item qs e" using it sts(1) sq [of k] by (simp add: good_item_def qs_def)
  qed
qed

end
