(* ===== verification/Cache_Snapshot_Install.thy ===== *)
theory Cache_Snapshot_Install
  imports Cache_Snapshot_Write
begin

text \<open>
  Installing a snapshot and pruning what it supersedes. Removing files in order keeps, at every
  point where it may stop, a log that ends where it ended and begins no later than the
  snapshot needs; and a snapshot that was published is the only one that recovery finds.
\<close>

section \<open>Removing files\<close>

text \<open>Some of the files whose names satisfy \<open>R\<close> are gone, nothing else has changed.\<close>

definition pruned :: "(string \<Rightarrow> bool) \<Rightarrow> world \<Rightarrow> world \<Rightarrow> bool" where
  "pruned R w w' \<longleftrightarrow>
     (\<forall>m. map_of (dir w') m = map_of (dir w) m \<or> map_of (dir w') m = None \<and> R m) \<and>
     (distinct (map fst (dir w)) \<longrightarrow> distinct (map fst (dir w'))) \<and>
     (\<forall>i. content (inodes w' i) = content (inodes w i) \<and> synced (inodes w i) \<le> synced (inodes w' i)) \<and>
     nextInode w' = nextInode w \<and> nextHandle w' = nextHandle w \<and> closedHandles w' = closedHandles w \<and>
     clock w' = clock w \<and> tick w' = tick w"

lemma pruned_refl [simp]: "pruned R w w"
  by (simp add: pruned_def)

lemma pruned_trans:
  assumes "pruned R w w'" "pruned R w' w''"
  shows "pruned R w w''"
proof -
  have "map_of (dir w'') m = map_of (dir w) m \<or> map_of (dir w'') m = None \<and> R m" for m
    using assms unfolding pruned_def by metis
  moreover have "synced (inodes w i) \<le> synced (inodes w'' i)" for i
    using assms unfolding pruned_def by (meson order_trans)
  ultimately show ?thesis using assms unfolding pruned_def by simp
qed

lemma pruned_mono: "pruned R w w' \<Longrightarrow> (\<And>m. R m \<Longrightarrow> R' m) \<Longrightarrow> pruned R' w w'"
  unfolding pruned_def by blast

lemma pruned_keeps: "keeps w w' \<Longrightarrow> closedHandles w' = closedHandles w \<Longrightarrow> pruned R w w'"
  by (simp add: pruned_def keeps_def)

lemma pruned_handles: "pruned R w w' \<Longrightarrow> handles_ok w' = handles_ok w"
  by (simp add: pruned_def handles_ok_def)

lemma removeFile_pruned:
  assumes "removeFile n w = (r, w')" "R n"
  shows "pruned R w w'" "r = None \<Longrightarrow> distinct (map fst (dir w)) \<Longrightarrow> map_of (dir w') n = None"
    "r \<noteq> None \<Longrightarrow> keeps w w'"
proof -
  obtain x w1 where sc: "sysCall w = (x, w1)" by fastforce
  note k = sysCall_keeps [OF sc]
  have w': "w' = (if r = None then w1\<lparr>dir := AList.delete n (dir w1)\<rparr> else w1)"
    using assms(1) sc by (auto simp: removeFile_def split: option.splits if_splits)
  have p: "pruned R w1 (w1\<lparr>dir := AList.delete n (dir w1)\<rparr>)"
    using assms(2) by (auto simp: pruned_def AList.delete_conv' AList.distinct_delete)
  show "pruned R w w'" using w' p pruned_trans [OF pruned_keeps p] k pruned_keeps by auto
  show "r = None \<Longrightarrow> distinct (map fst (dir w)) \<Longrightarrow> map_of (dir w') n = None"
    using w' by (simp add: AList.delete_conv')
  show "r \<noteq> None \<Longrightarrow> keeps w w'" using w' k by auto
qed

lemma segs_in_dir_same:
  assumes "segs_in_dir w S" "distinct (map fst (dir w'))" "nextInode w \<le> nextInode w'"
    and "\<And>m. HasSuffix m ''.seg'' \<Longrightarrow> map_of (dir w') m = map_of (dir w) m"
  shows "segs_in_dir w' S"
proof -
  have d: "distinct (map fst (dir w))" using assms(1) by (simp add: segs_in_dir_def)
  have "\<forall>m nd. map_of (dir w') m = Some nd \<and> listed ''.seg'' (m, nd) \<longleftrightarrow>
      map_of (dir w) m = Some nd \<and> listed ''.seg'' (m, nd)"
    using assms(4) by (auto simp: listed_def)
  then have "set (filter (listed ''.seg'') (dir w')) = (\<lambda>s. (sname s, NFile (sino s))) ` set S"
    using assms(1) segs_in_dir_map [OF d, of "''.seg''" S] segs_in_dir_map [OF assms(2), of "''.seg''" S]
    unfolding segs_in_dir_def by simp
  then show ?thesis using assms(1-3) by (fastforce simp: segs_in_dir_def)
qed

lemma disk_log_same:
  assumes d: "disk_log w base S t" and s: "segs_in_dir w' S"
    and c: "\<forall>i. content (inodes w' i) = content (inodes w i) \<and> synced (inodes w i) \<le> synced (inodes w' i)"
  shows "disk_log w' base S t"
  using d s c flushed_mono [of w S w'] by (simp add: disk_log_def)

lemma disk_log_pruned:
  assumes d: "disk_log w base S t" and p: "pruned R w w'" and R: "\<And>m. R m \<Longrightarrow> \<not> HasSuffix m ''.seg''"
  shows "disk_log w' base S t"
proof (rule disk_log_same [OF d])
  have s: "segs_in_dir w S" using d by (simp add: disk_log_def)
  show "segs_in_dir w' S"
    by (rule segs_in_dir_same [OF s]) (use p R s in \<open>auto simp: pruned_def segs_in_dir_def\<close>)
  show "\<forall>i. content (inodes w' i) = content (inodes w i) \<and> synced (inodes w i) \<le> synced (inodes w' i)"
    using p by (simp add: pruned_def)
qed

section \<open>Removing segments\<close>

lemma listSegments_any:
  assumes "listSegments w = (r, w')" "segs_in_dir w S" "seg_chain base S"
  shows "keeps w w' \<and> closedHandles w' = closedHandles w" "r = Inr fs \<Longrightarrow> fs = map seqfile_of S"
proof -
  obtain x w1 where sc: "sysCall w = (x, w1)" by fastforce
  note k = sysCall_keeps [OF sc]
  show "keeps w w' \<and> closedHandles w' = closedHandles w"
    using assms(1) sc k by (auto simp: listSegments_def readDir_def split: option.splits sum.splits)
  let ?w = "w\<lparr>faults := [], cancels := []\<rparr>"
  have c: "calm ?w" by (simp add: calm_def)
  have "listSegments ?w = (Inr (map seqfile_of S), ?w)"
    by (rule listSegments_disk [OF c]) (use assms in \<open>simp_all add: segs_in_dir_def\<close>)
  then have "\<exists>fs'. collectSequences ''.seg'' parseSegmentFilename Map.empty (sort_key fst (dir w)) = Inr fs' \<and>
      sort_key snd fs' = map seqfile_of S"
    using c by (auto simp: listSegments_def readDir_def split: sum.splits)
  then show "r = Inr fs \<Longrightarrow> fs = map seqfile_of S"
    using assms(1) sc k by (auto simp: listSegments_def readDir_def keeps_def split: option.splits)
qed

lemma coveredSegments_take:
  "S \<noteq> [] \<Longrightarrow> \<exists>k < length S. coveredSegments low (map seqfile_of S) = map sname (take k S) \<and>
     (0 < k \<longrightarrow> sfirst (S ! k) \<le> low)"
proof (induction S)
  case (Cons s S)
  show ?case
  proof (cases "S = [] \<or> low < sfirst (hd S)")
    case True
    then have "coveredSegments low (map seqfile_of (s # S)) = []" by (cases S) auto
    then show ?thesis by (intro exI [of _ 0]) simp
  next
    case False
    then obtain k where k: "k < length S" "coveredSegments low (map seqfile_of S) = map sname (take k S)"
      "0 < k \<longrightarrow> sfirst (S ! k) \<le> low"
      using Cons.IH by blast
    have "coveredSegments low (map seqfile_of (s # S)) = sname s # coveredSegments low (map seqfile_of S)"
      using False by (cases S) auto
    moreover have "sfirst (S ! k) \<le> low" using False k(3) by (cases k) (auto simp: hd_conv_nth not_less)
    ultimately show ?thesis using k by (intro exI [of _ "Suc k"]) simp
  qed
qed simp

lemma remove_first_segment:
  assumes d: "disk_log w base (s # S) t" "S \<noteq> []" and r: "removeFile (sname s) w = (None, w')"
  shows "disk_log w' (last_seq base (srecs s)) S t"
proof -
  note p = removeFile_pruned [OF r, of "\<lambda>m. m = sname s", OF refl]
  from d have s: "segs_in_dir w (s # S)" "seg_chain base (s # S)" by (auto simp: disk_log_def)
  then have dist: "distinct (map fst (dir w))" "distinct (map fst (dir w'))"
    using p(1) by (auto simp: segs_in_dir_def pruned_def)
  have gone: "map_of (dir w') (sname s) = None" using p(2) dist(1) by simp
  have other: "map_of (dir w') m = map_of (dir w) m" if "m \<noteq> sname s" for m
    using p(1) that by (auto simp: pruned_def)
  have ns: "sname s \<notin> sname ` set S" using s(1) by (simp add: segs_in_dir_def)
  have "set (filter (listed ''.seg'') (dir w')) = (\<lambda>s. (sname s, NFile (sino s))) ` set S"
    unfolding segs_in_dir_map [OF dist(2)]
  proof (intro allI)
    fix m nd
    have "map_of (dir w) m = Some nd \<and> listed ''.seg'' (m, nd) \<longleftrightarrow> (\<exists>x\<in>set (s # S). m = sname x \<and> nd = NFile (sino x))"
      using s(1) segs_in_dir_map [OF dist(1), of "''.seg''" "s # S"] unfolding segs_in_dir_def by blast
    then show "map_of (dir w') m = Some nd \<and> listed ''.seg'' (m, nd) \<longleftrightarrow> (\<exists>x\<in>set S. m = sname x \<and> nd = NFile (sino x))"
      using gone other [of m] ns by (cases "m = sname s") auto
  qed
  then have sd: "segs_in_dir w' S" using s(1) dist p(1) by (simp add: segs_in_dir_def pruned_def)
  have "flushed w S" using d by (auto simp: disk_log_def flushed_def)
  then have "flushed w' S" by (rule flushed_mono) (use p(1) in \<open>simp add: pruned_def\<close>)
  then show ?thesis using d sd p(1) by (simp add: disk_log_def pruned_def)
qed

lemma removeEach_segments:
  assumes "disk_log w base S t" "k < length S" "removeEach op (map sname (take k S)) w = (r, w')"
  shows "\<exists>j \<le> k. disk_log w' (last_seq base (all_recs (take j S))) (drop j S) t \<and>
    pruned (\<lambda>m. m \<in> sname ` set S) w w'"
  using assms
proof (induction k arbitrary: w base S)
  case 0
  then show ?case by simp
next
  case (Suc k)
  then obtain s S' where S: "S = s # S'" by (cases S) auto
  obtain x w1 where rm: "removeFile (sname s) w = (x, w1)" by fastforce
  have p: "pruned (\<lambda>m. m \<in> sname ` set S) w w1" by (rule removeFile_pruned(1) [OF rm]) (simp add: S)
  show ?case
  proof (cases x)
    case None
    have d: "disk_log w1 (last_seq base (srecs s)) S' t"
      using remove_first_segment [of w base s S' t w1] Suc.prems S rm None by fastforce
    obtain j where j: "j \<le> k" "disk_log w' (last_seq (last_seq base (srecs s)) (all_recs (take j S'))) (drop j S') t"
      "pruned (\<lambda>m. m \<in> sname ` set S') w1 w'"
      using Suc.IH [OF d] Suc.prems S rm None by auto
    have "pruned (\<lambda>m. m \<in> sname ` set S) w w'"
      using pruned_trans [OF p pruned_mono [OF j(3)]] S by auto
    then show ?thesis using j S by (intro exI [of _ "Suc j"]) simp
  next
    case (Some e)
    then have w': "w' = w1" using Suc.prems(3) S rm by simp
    have "keeps w w1" using removeFile_pruned(3) [OF rm, of "\<lambda>_. True"] Some by simp
    then show ?thesis using Suc.prems(1) p w' disk_log_keeps by (intro exI [of _ 0]) simp
  qed
qed

lemma deleteSegmentsBefore_log:
  assumes d: "disk_log w base S t" and r: "deleteSegmentsBefore low w = (r, w')"
  shows "\<exists>j base'. disk_log w' base' (drop j S) t \<and> base' = last_seq base (all_recs (take j S)) \<and>
    (0 < j \<longrightarrow> base' < low) \<and> pruned (\<lambda>m. HasSuffix m ''.seg'') w w'"
proof -
  from d have s: "segs_in_dir w S" "seg_chain base S" "S \<noteq> []" by (auto simp: disk_log_def)
  obtain x w1 where ls: "listSegments w = (x, w1)" by fastforce
  note l = listSegments_any [OF ls s(1,2)]
  have d1: "disk_log w1 base S t" using disk_log_keeps l(1) d by blast
  have p1: "pruned R w w1" for R using l(1) pruned_keeps by blast
  show ?thesis
  proof (cases x)
    case (Inl e)
    then show ?thesis using r ls d1 p1 by (intro exI [of _ 0] exI [of _ base]) (auto simp: deleteSegmentsBefore_def)
  next
    case (Inr fs)
    obtain k where k: "k < length S" "coveredSegments low (map seqfile_of S) = map sname (take k S)"
      "0 < k \<longrightarrow> sfirst (S ! k) \<le> low"
      using coveredSegments_take [OF s(3)] by blast
    have "removeEach ''remove superseded segment'' (map sname (take k S)) w1 = (r, w')"
      using r ls Inr l(2) k(2) by (simp add: deleteSegmentsBefore_def)
    then obtain j where j: "j \<le> k" "disk_log w' (last_seq base (all_recs (take j S))) (drop j S) t"
      "pruned (\<lambda>m. m \<in> sname ` set S) w1 w'"
      using removeEach_segments [OF d1 k(1)] by blast
    have suf: "HasSuffix (sname x) ''.seg''" if "x \<in> set S" for x
    proof -
      have "(sname x, NFile (sino x)) \<in> set (filter (listed ''.seg'') (dir w))"
        using s(1) that unfolding segs_in_dir_def by blast
      then show ?thesis by (simp add: listed_def)
    qed
    have p: "pruned (\<lambda>m. HasSuffix m ''.seg'') w w'"
      by (rule pruned_trans [OF p1 pruned_mono [OF j(3)]]) (use suf in auto)
    have "last_seq base (all_recs (take j S)) < low" if "0 < j"
    proof -
      have jS: "j < length S" using j(1) k(1) by simp
      have "seg_chain (last_seq base (all_recs (take j S))) (drop j S)"
        using seg_chain_suffix [of base "take j S" "drop j S"] s(2) by simp
      then have "last_seq base (all_recs (take j S)) < sfirst (S ! j)"
        using seg_chain_first [of _ "drop j S" "S ! j"] jS by (metis Cons_nth_drop_Suc list.set_intros(1))
      also have "sfirst (S ! j) \<le> sfirst (S ! k)"
        using seg_chain_sorted [OF s(2)] j(1) k(1)
        by (cases "j = k") (auto simp: sorted_wrt_iff_nth_less intro: less_imp_le)
      finally show ?thesis using k(3) that j(1) by auto
    qed
    then show ?thesis using j p by blast
  qed
qed

section \<open>Removing snapshots\<close>

lemma removeOtherSnapshots_loop_pruned:
  assumes "removeOtherSnapshots_loop retained es w = (r, w')"
  shows "pruned (\<lambda>m. HasSuffix m ''.snap'' \<and> m \<noteq> retained) w w'"
    and "r = None \<Longrightarrow> distinct (map fst (dir w)) \<Longrightarrow> (m, n) \<in> set es \<Longrightarrow> listed ''.snap'' (m, n) \<Longrightarrow> m \<noteq> retained \<Longrightarrow>
      map_of (dir w') m = None"
  using assms
proof (induction es arbitrary: w)
  case (Cons e es)
  obtain name nd where e: "e = (name, nd)" by fastforce
  let ?R = "\<lambda>m. HasSuffix m ''.snap'' \<and> m \<noteq> retained"
  {
    case 1
    show ?case
    proof (cases "listed ''.snap'' e \<and> name \<noteq> retained")
      case False
      then show ?thesis using 1 Cons.IH(1) e by (auto simp: listed_def split: if_splits sum.splits)
    next
      case True
      obtain x w1 where rm: "removeFile name w = (x, w1)" by fastforce
      have p: "pruned ?R w w1" by (rule removeFile_pruned(1) [OF rm]) (use True e in \<open>simp add: listed_def\<close>)
      then show ?thesis
        using 1 Cons.IH(1) [of w1] e rm pruned_trans [OF p] True
        by (auto simp: listed_def split: if_splits sum.splits option.splits)
    qed
  next
    case 2
    show ?case
    proof (cases "listed ''.snap'' e \<and> name \<noteq> retained")
      case False
      then have "(m, n) \<in> set es" using 2(3,4,5) e by auto
      then show ?thesis using 2 Cons.IH(2) [of w] False e by (auto simp: listed_def split: if_splits sum.splits)
    next
      case True
      obtain x w1 where rm: "removeFile name w = (x, w1)" by fastforce
      have x: "x = None" "removeOtherSnapshots_loop retained es w1 = (r, w')"
        using 2(1,6) True e rm by (auto simp: listed_def split: if_splits sum.splits option.splits)
      note p = removeFile_pruned [OF rm, of "\<lambda>_. True", OF TrueI]
      have d: "distinct (map fst (dir w1))" using p(1) 2(2) by (simp add: pruned_def)
      have p2: "pruned ?R w1 w'" by (rule Cons.IH(1) [OF x(2)])
      show ?thesis
      proof (cases "m = name")
        case True
        then show ?thesis using p(2) x(1) 2(2) p2 unfolding pruned_def by metis
      next
        case False
        then have "(m, n) \<in> set es" using 2(3) e by auto
        then show ?thesis using Cons.IH(2) [OF 2(1) d _ 2(4,5) x(2)] by simp
      qed
    qed
  }
qed simp_all

lemma removeOtherSnapshots_pruned:
  assumes "removeOtherSnapshots retained w = (r, w')"
  shows "pruned (\<lambda>m. HasSuffix m ''.snap'' \<and> m \<noteq> retained) w w'"
    and "r = None \<Longrightarrow> distinct (map fst (dir w)) \<Longrightarrow> map_of (dir w') m = Some n \<Longrightarrow> listed ''.snap'' (m, n) \<Longrightarrow> m = retained"
proof -
  let ?R = "\<lambda>m. HasSuffix m ''.snap'' \<and> m \<noteq> retained"
  obtain x w1 where sc: "sysCall w = (x, w1)" by fastforce
  note k = sysCall_keeps [OF sc]
  have k1: "pruned ?R w w1" using k pruned_keeps by blast
  have step: "(r, w') = (case x of Some e \<Rightarrow> (Some (ErrOs ''read directory'' e), w1)
      | None \<Rightarrow> removeOtherSnapshots_loop retained (sort_key fst (dir w1)) w1)"
    using assms sc by (simp add: removeOtherSnapshots_def readDir_def split: option.splits)
  show p: "pruned ?R w w'"
    using step [symmetric] k1 pruned_trans [OF k1] removeOtherSnapshots_loop_pruned(1) by (cases x) auto
  assume r: "r = None" "distinct (map fst (dir w))" and m: "map_of (dir w') m = Some n" "listed ''.snap'' (m, n)"
  have loop: "removeOtherSnapshots_loop retained (sort_key fst (dir w1)) w1 = (None, w')"
    using step r(1) by (cases x) auto
  have "map_of (dir w) m = Some n" using p m(1) unfolding pruned_def by (metis option.distinct(1))
  then have "(m, n) \<in> set (sort_key fst (dir w1))" using k by (simp add: keeps_def map_of_SomeD)
  then show "m = retained"
    using removeOtherSnapshots_loop_pruned(2) [OF loop refl _ _ m(2)] r(2) k m(1) by (fastforce simp: keeps_def)
qed

section \<open>Publishing\<close>

lemma renameFile_moves:
  assumes "renameFile from to w = (None, w')" "from \<noteq> to"
  shows "\<exists>nd. map_of (dir w) from = Some nd \<and> map_of (dir w') = (map_of (dir w))(from := None, to \<mapsto> nd)"
    "distinct (map fst (dir w)) \<Longrightarrow> distinct (map fst (dir w'))"
    "\<forall>i. content (inodes w' i) = content (inodes w i) \<and> synced (inodes w i) \<le> synced (inodes w' i)"
    "nextInode w' = nextInode w" "nextHandle w' = nextHandle w" "closedHandles w' = closedHandles w"
proof -
  obtain x w1 where sc: "sysCall w = (x, w1)" by fastforce
  note k = sysCall_keeps [OF sc]
  obtain nd where nd: "map_of (dir w) from = Some nd" "w' = w1\<lparr>dir := AList.update to nd (AList.delete from (dir w1))\<rparr>"
    using assms(1) sc k by (auto simp: renameFile_def keeps_def split: option.splits if_splits)
  show "\<exists>nd. map_of (dir w) from = Some nd \<and> map_of (dir w') = (map_of (dir w))(from := None, to \<mapsto> nd)"
    using nd k by (auto simp: AList.update_conv' AList.delete_conv' keeps_def)
  show "distinct (map fst (dir w)) \<Longrightarrow> distinct (map fst (dir w'))"
    using nd k by (simp add: AList.distinct_update AList.distinct_delete keeps_def)
  show "\<forall>i. content (inodes w' i) = content (inodes w i) \<and> synced (inodes w i) \<le> synced (inodes w' i)"
    "nextInode w' = nextInode w" "nextHandle w' = nextHandle w" "closedHandles w' = closedHandles w"
    using nd k by (simp_all add: keeps_def)
qed

lemma snapshotName_suffix: "HasSuffix (snapshotName q) ''.snap''" "\<not> HasSuffix (snapshotName q) ''.seg''"
  by (simp_all add: snapshotName_def HasSuffix_def)

lemma singleton_list: "set xs = {x} \<Longrightarrow> distinct xs \<Longrightarrow> xs = [x]"
proof (cases xs)
  case (Cons y ys)
  assume "set xs = {x}" "distinct xs"
  then have "y = x" "set ys \<subseteq> {x}" "y \<notin> set ys" using Cons by auto
  then have "ys = []" by (cases ys) auto
  then show ?thesis using Cons \<open>y = x\<close> by simp
qed simp

lemma listSnapshots_single:
  assumes "calm w" "distinct (map fst (dir w))" "map_of (dir w) (snapshotName q) = Some (NFile i)"
    and "\<And>m n. map_of (dir w) m = Some n \<Longrightarrow> listed ''.snap'' (m, n) \<Longrightarrow> m = snapshotName q"
  shows "listSnapshots w = (Inr [(snapshotName q, q)], w)"
proof -
  let ?es = "sort_key fst (dir w)" and ?x = "(snapshotName q, NFile i)"
  have d: "distinct ?es" using assms(2) by (simp add: distinct_map)
  have x: "?x \<in> set ?es" "listed ''.snap'' ?x"
    using assms(3) snapshotName_suffix by (auto simp: listed_def dest: map_of_SomeD)
  have "e = ?x" if e: "e \<in> set ?es" "listed ''.snap'' e" for e
  proof -
    have m: "map_of (dir w) (fst e) = Some (snd e)" using e(1) assms(2) by simp
    moreover have "fst e = snapshotName q" using assms(4) [OF m] e(2) by simp
    ultimately show ?thesis using assms(3) by (cases e) simp
  qed
  then have one: "set (filter (listed ''.snap'') ?es) = {?x}" using x unfolding set_filter by blast
  moreover have "distinct (filter (listed ''.snap'') ?es)" using d by simp
  ultimately have fe: "filter (listed ''.snap'') ?es = [?x]" by (rule singleton_list)
  have "collectSequences ''.snap'' parseSnapshotFilename Map.empty ?es =
      Inr (map (\<lambda>e. (fst e, q)) (filter (listed ''.snap'') ?es))"
  proof (rule collectSequences_ok [where sq = "\<lambda>_. q"])
    show "\<forall>e\<in>set ?es. listed ''.snap'' e \<longrightarrow> parseSnapshotFilename (fst e) = Inr q \<and> Map.empty q = None"
    proof (intro ballI impI)
      fix e assume "e \<in> set ?es" "listed ''.snap'' e"
      then have "e \<in> set (filter (listed ''.snap'') ?es)" by (simp only: set_filter mem_Collect_eq simp_thms)
      then have "e = ?x" unfolding one by simp
      then show "parseSnapshotFilename (fst e) = Inr q \<and> Map.empty q = None" using snap.parse_name by simp
    qed
  qed (simp add: fe)
  then show ?thesis using assms(1) fe by (simp add: listSnapshots_def readDir_def)
qed

text \<open>A snapshot that was published is the only one, and the log begins before its lowest sequence.\<close>

lemma publishSnapshot_installed:
  assumes d: "disk_log w base S t" and f: "map_of (dir w) (hname f) = Some (NFile (hino f))"
    "\<not> HasSuffix (hname f) ''.seg''" "\<not> HasSuffix (hname f) ''.snap''"
    and run: "publishSnapshot (evictionGeneration st) f low st w = (None, st', w')"
  shows "\<exists>j. disk_log w' (last_seq base (all_recs (take j S))) (drop j S) t \<and>
      (0 < j \<longrightarrow> last_seq base (all_recs (take j S)) < low)"
    "map_of (dir w') (snapshotName low) = Some (NFile (hino f))"
    "map_of (dir w') m = Some n \<Longrightarrow> listed ''.snap'' (m, n) \<Longrightarrow> m = snapshotName low"
    "distinct (map fst (dir w'))" "content (inodes w' i) = content (inodes w i)" "handles_ok w' = handles_ok w"
    "st' = addSnapshot st"
proof -
  let ?to = "snapshotName low"
  have ne: "hname f \<noteq> ?to" using f(3) snapshotName_suffix by auto
  have dist: "distinct (map fst (dir w))" using d by (simp add: disk_log_def segs_in_dir_def)
  obtain x1 w1 where r1: "renameFile (hname f) ?to w = (x1, w1)" by fastforce
  have x1: "x1 = None" using run r1 by (cases x1) (simp_all add: publishSnapshot_def)
  obtain x2 w2 where r2: "syncDirectory w1 = (x2, w2)" by fastforce
  have x2: "x2 = None" using run r1 x1 r2 by (cases x2) (simp_all add: publishSnapshot_def)
  obtain x3 w3 where r3: "removeOtherSnapshots ?to w2 = (x3, w3)" by fastforce
  have x3: "x3 = None" using run r1 x1 r2 x2 r3 by (cases x3) (simp_all add: publishSnapshot_def)
  obtain x4 w4 where r4: "deleteSegmentsBefore low w3 = (x4, w4)" by fastforce
  have x4: "x4 = None" "w' = w4" "st' = addSnapshot st"
    using run r1 x1 r2 x2 r3 x3 r4 by (cases x4; simp add: publishSnapshot_def)+
  note e1 = renameFile_moves [OF r1 [unfolded x1] ne] and k2 = syncDirectory_keeps [OF r2]
    and p3 = removeOtherSnapshots_pruned [OF r3]
  have d1: "disk_log w1 base S t"
  proof (rule disk_log_same [OF d _ e1(3)])
    show "segs_in_dir w1 S"
    proof (rule segs_in_dir_same)
      show "segs_in_dir w S" using d by (simp add: disk_log_def)
      show "map_of (dir w1) m = map_of (dir w) m" if "HasSuffix m ''.seg''" for m
        using e1(1) that f(2) snapshotName_suffix(2) by auto
    qed (use e1 dist in auto)
  qed
  have d2: "disk_log w2 base S t" using disk_log_keeps k2 d1 by blast
  have nsuf: "\<not> HasSuffix m ''.seg''" if "HasSuffix m ''.snap''" for m
  proof
    assume "HasSuffix m ''.seg''"
    then have "last m = CHR ''g''" "last m = CHR ''p''"
      using that by (metis HasSuffix_def append_take_drop_id last_appendR list.discI last.simps)+
    then show False by simp
  qed
  have d3: "disk_log w3 base S t" by (rule disk_log_pruned [OF d2 p3(1)]) (use nsuf in blast)
  obtain j where j: "disk_log w4 (last_seq base (all_recs (take j S))) (drop j S) t"
    "0 < j \<longrightarrow> last_seq base (all_recs (take j S)) < low" and p4: "pruned (\<lambda>m. HasSuffix m ''.seg'') w3 w4"
    using deleteSegmentsBefore_log [OF d3 r4] by blast
  then show "\<exists>j. disk_log w' (last_seq base (all_recs (take j S))) (drop j S) t \<and>
      (0 < j \<longrightarrow> last_seq base (all_recs (take j S)) < low)" using x4(2) by blast
  have dist2: "distinct (map fst (dir w2))" using e1(2) dist k2 by (simp add: keeps_def)
  then show "distinct (map fst (dir w'))" using p3(1) p4 x4(2) by (simp add: pruned_def)
  have "map_of (dir w2) ?to = Some (NFile (hino f))" using e1(1) f(1) k2 ne by (auto simp: keeps_def)
  then have "map_of (dir w3) ?to = Some (NFile (hino f))" using p3(1) unfolding pruned_def by metis
  then show "map_of (dir w') ?to = Some (NFile (hino f))"
    using p4 x4(2) snapshotName_suffix(2) unfolding pruned_def by metis
  show "m = ?to" if m: "map_of (dir w') m = Some n" "listed ''.snap'' (m, n)"
  proof -
    have "map_of (dir w3) m = Some n" using m(1) p4 x4(2) unfolding pruned_def by (metis option.distinct(1))
    then show ?thesis using p3(2) [OF x3 dist2 _ m(2)] by blast
  qed
  show "content (inodes w' i) = content (inodes w i)" "handles_ok w' = handles_ok w" "st' = addSnapshot st"
    using e1 k2 p3(1) p4 x4 by (simp_all add: pruned_def keeps_def handles_ok_def)
qed

end
