(* ===== verification/Cache_Snapshot_Props.thy ===== *)
theory Cache_Snapshot_Props
  imports Cache_Snapshot_Install Cache_Store_Props
begin

text \<open>
  The properties of snapshots: what their bytes hold, that recovery from a snapshot and the log
  behind it gives what the whole log gives, that writing and publishing one keeps that so,
  and that an eviction or a lost end of the log is noticed.
\<close>

section \<open>A sample\<close>

definition sample_item :: item where
  "sample_item = \<lparr>ekey = [1], evalue = [7], edeadline = 0, esequence = 1\<rparr>"

definition sample_seg :: segimg where
  "sample_seg = \<lparr>sname = segmentName 1, sfirst = 1, sino = 0, srecs = [LSet [1] [7] 0 1]\<rparr>"

text \<open>One segment with one record, and a snapshot of one shard that claims the sequence \<open>q\<close>.\<close>

definition snap_world :: "u64 \<Rightarrow> world" where
  "snap_world q = \<lparr>dir = [(segmentName 1, NFile 0), (snapshotName 1, NFile 1)],
     inodes = (\<lambda>_. \<lparr>content = [], synced = 0\<rparr>)
       (0 := \<lparr>content = seg_bytes [LSet [1] [7] 0 1], synced = 100\<rparr>,
        1 := \<lparr>content = snap_bytes [q] [sample_item], synced = 100\<rparr>),
     nextInode = 2, nextHandle = 0, closedHandles = [], faults = [], clock = (\<lambda>_. 0), tick = 0, cancels = []\<rparr>"

lemma snap_shard_1 [simp]: "snap_shard (Suc 0) k = 0"
  by (simp add: snap_shard_def)

lemma seg_snap_names [simp]: "segmentName q \<noteq> snapshotName p" "snapshotName p \<noteq> segmentName q"
  using snapshotName_suffix(2) HasSuffix_segmentName by metis+

lemma snap_world_calm: "calm (snap_world q)" "handles_ok (snap_world q)"
  by (simp_all add: snap_world_def calm_def handles_ok_def)

lemma snap_world_dir: "distinct (map fst (dir (snap_world q)))"
  "map_of (dir (snap_world q)) (snapshotName 1) = Some (NFile 1)"
  "map_of (dir (snap_world q)) m = Some n \<Longrightarrow> listed ''.snap'' (m, n) \<Longrightarrow> m = snapshotName 1"
  using segmentName_not_snap by (auto simp: snap_world_def listed_def split: if_splits)

lemma snap_world_snapshot:
  assumes "1 \<le> q"
  shows "snapshot_on_disk (snap_world q) [q] [sample_item]"
proof -
  have "fst (listSnapshots (snap_world q)) = Inr ([] @ [(snapshotName 1, 1)])"
    using listSnapshots_single [OF snap_world_calm(1) snap_world_dir(1,2)] snap_world_dir(3) by simp
  moreover have "content (inodes (snap_world q) 1) = snap_bytes [q] [sample_item]" by (simp add: snap_world_def)
  moreover have "good_item [q] sample_item" using assms by (simp add: good_item_def sample_item_def)
  moreover have "length [q] = 2 ^ 0 \<and> (0::nat) < 32" by simp
  ultimately show ?thesis using snap_world_dir(2) unfolding snapshot_on_disk_def by fastforce
qed

lemma snap_world_log: "disk_log (snap_world q) 0 [sample_seg] []"
  using snapshotName_suffix(2)
  by (auto simp: disk_log_def segs_in_dir_def snap_world_def sample_seg_def flushed_def listed_def HasSuffix_segmentName
      seg.parse_name maxSequence_def good_rec_def recordSizeFor_def layout)

section \<open>Properties\<close>

text \<open>C23. The bytes of a snapshot are read back to what was written: \<open>loadSnapshot\<close> on a file with the
  header of the sequences \<open>qs\<close> and the entries \<open>es\<close> returns the lowest and the highest of the
  sequences, the sequences themselves when the number of shards is the same, and a store that
  holds exactly the entries.\<close>

theorem snapshot_bytes_roundtrip:
  assumes "calm w" "is_open f w" "fileBytes f w = snap_bytes qs es" "length qs = 2 ^ j" "j < 32"
    "\<forall>e\<in>set es. good_item qs e" "0 < n" "n < 2 ^ 32"
  shows "\<exists>sn st'. loadFrom c f (newStoreState n cap) w = (Inr (sn, st'), w) \<and> loaded sn \<and>
    replaySequences sn = (if length qs = n then Some qs else None) \<and>
    (\<forall>q\<in>set qs. lowest sn \<le> q \<and> q \<le> highest sn) \<and> wf_store st' \<and> contents st' = entry_map es"
proof -
  have st: "wf_store (newStoreState n cap)" "contents (newStoreState n cap) = Map.empty"
    "recoveryShard (newStoreState n cap) = None" "length (shards (newStoreState n cap)) = n"
    using wf_newStoreState [of n cap] assms(7,8) by (simp_all add: newStoreState_def)
  have "loadFrom c f (newStoreState n cap) w =
      (Inr (newSnapshotState qs (length qs = n), fold load_one es (newStoreState n cap)), w)"
    using loadFrom_bytes [OF assms(1-6), of "newStoreState n cap" c] st(4) assms(8) by simp
  then show ?thesis using fold_load_one [OF st(1,3,2), of es] lowest_le highest_ge by auto
qed

theorem snapshot_bytes_roundtrip_witness:
  "\<exists>sn st' w'. loadFrom Background \<lparr>hname = snapshotName 1, hino = 1, hid = 0\<rparr> (newStoreState 4 500) (snap_world 1) =
     (Inr (sn, st'), w') \<and> contents st' [1] = Some sample_item"
proof -
  have "fileBytes \<lparr>hname = snapshotName 1, hino = 1, hid = 0\<rparr> (snap_world 1) = snap_bytes [1] [sample_item]"
    "is_open \<lparr>hname = snapshotName 1, hino = 1, hid = 0\<rparr> (snap_world 1)"
    "\<forall>e\<in>set [sample_item]. good_item [1] e"
    by (simp_all add: fileBytes_def snap_world_def is_open_def good_item_def sample_item_def)
  from snapshot_bytes_roundtrip [OF snap_world_calm(1) this(2,1) _ _ this(3), of 0 4 Background 500]
  show ?thesis by (auto simp: entry_map_def sample_item_def)
qed

text \<open>C9. Recovery from a snapshot and the log gives what the whole log gives. Let the newest snapshot
  hold, for each shard, the contents of the log through the sequence it names for that shard,
  lacking at most expired items; let the segments on disk begin no later than the lowest of
  these sequences and reach the highest. Then recovery succeeds, with any number of shards, on a
  log with a torn end too, and the store holds what replaying all records since the first
  would give, but for those items.\<close>

theorem snapshot_and_log_recover:
  assumes "calm w" "handles_ok w" "snapshot_on_disk w qs es" "disk_log w base S t"
    "chain 0 (old @ all_recs S)" "last_seq 0 old = base" "base \<le> lowest (newSnapshotState qs True)"
    "highest (newSnapshotState qs True) \<le> last_seq base (all_recs S)" "0 < n" "n < 2 ^ 32"
    "covers E (snap_seq qs) (old @ all_recs S) (entry_map es)"
  shows "\<exists>log st' w'. recoverLog c (newStoreState n cap) w = (Inr (log, st'), w') \<and> log_ok w' log base S \<and>
    wf_store st' \<and> lacks E (contents st') (replay (old @ all_recs S) Map.empty) \<and>
    logSequence st' = last_seq base (all_recs S)"
  using recoverLog_snapshot [OF assms(1-8) _ _ _ _ assms(11), of "newStoreState n cap" c]
    wf_newStoreState [of n cap] assms(9,10) by (simp add: newStoreState_def)

lemma snap_world_covers: "covers E (snap_seq [q]) [LSet [1] [7] 0 1] (entry_map [sample_item])" if "1 \<le> q"
  using that by (simp add: covers_def lacks_def entry_map_def sample_item_def)

lemma snap_world_states:
  "lowest (newSnapshotState [q] b) = q" "highest (newSnapshotState [q] b) = q"
  by (simp_all add: newSnapshotState_def)

theorem snapshot_and_log_recover_witness:
  "\<exists>log st' w'. recoverLog Background (newStoreState 4 500) (snap_world 1) = (Inr (log, st'), w') \<and>
     contents st' [1] = Some sample_item"
proof -
  have ch: "chain 0 ([] @ all_recs [sample_seg])"
    by (simp add: sample_seg_def maxSequence_def good_rec_def recordSizeFor_def layout)
  have cov: "covers (\<lambda>_. False) (snap_seq [1]) ([] @ all_recs [sample_seg]) (entry_map [sample_item])"
    using snap_world_covers by (simp add: sample_seg_def)
  show ?thesis
    using snapshot_and_log_recover [OF snap_world_calm snap_world_snapshot snap_world_log ch _ _ _ _ _ cov,
        of 4 Background 500]
    by (simp add: snap_world_states sample_seg_def lacks_def sample_item_def) fastforce
qed

text \<open>C18. A snapshot may outlive the end of the log. The writer does not flush the log before it
  installs a snapshot, so a loss of power can drop records that the snapshot already covers.
  Whenever the records that are left end below the highest sequence of the snapshot, recovery
  refuses the directory and names both sequences: the store can no longer be opened.\<close>

theorem log_behind_snapshot_refused:
  assumes "calm w" "handles_ok w" "snapshot_on_disk w qs es" "disk_log w base S t"
    "base \<le> lowest (newSnapshotState qs True)" "last_seq base (all_recs S) < highest (newSnapshotState qs True)"
    "n < 2 ^ 32"
  shows "\<exists>w'. recoverLog c (newStoreState n cap) w =
    (Inl (ErrGapAfterWAL (last_seq base (all_recs S)) (highest (newSnapshotState qs True))), w')"
proof -
  have "length (shards (newStoreState n cap)) < 2 ^ 32" using assms(7) by (simp add: newStoreState_def)
  then show ?thesis
    by (rule recoverLog_snapshot_run [OF assms(1-5), of _ c]) (subst (asm) if_P [OF assms(6)], blast)
qed

theorem log_behind_snapshot_refused_witness:
  "\<exists>w'. recoverLog Background (newStoreState 4 500) (snap_world 2) = (Inl (ErrGapAfterWAL 1 2), w')"
  using log_behind_snapshot_refused [OF snap_world_calm snap_world_snapshot snap_world_log, of 2 4 Background 500]
  by (simp add: snap_world_states sample_seg_def)


lemma writeFull_calm:
  assumes "calm w" "is_open f w"
  shows "\<exists>w'. writeFull f val w = (None, w') \<and> calm w' \<and> is_open f w'"
proof (cases "val = []")
  case True
  then show ?thesis using assms by (simp add: writeFull.simps [of f "[]"])
next
  case False
  obtain w1 where "writeFile f val w = ((length val, None), w1)" "calm w1" "is_open f w1"
    using assms by (auto simp: writeFile_def nextFault_def calm_def is_open_def putFile_def Let_def)
  then show ?thesis using False by (simp add: writeFull.simps [of f val] writeFull.simps [of f "[]"])
qed

lemma mirrors_empty: "0 < n \<Longrightarrow> n < 2 ^ 63 \<Longrightarrow> mirrors E [] n (newStoreState n cap)"
  using wf_newStoreState [of n cap]
  by (auto simp: mirrors_def lacks_def newStoreState_def new_shard_def)


text \<open>C10. Publishing a snapshot loses nothing. When a snapshot file that covers the log is published
  without an error, it is the only snapshot left, the superseded segments are gone, and a
  process that starts then recovers what replaying the whole log from its first record would
  give, the removed segments included.\<close>

theorem published_snapshot_recovers:
  assumes "disk_log w base S t" "handles_ok w" "map_of (dir w) (hname f) = Some (NFile (hino f))"
    "\<not> HasSuffix (hname f) ''.seg''" "\<not> HasSuffix (hname f) ''.snap''"
    and snap: "content (inodes w (hino f)) = snap_bytes qs es" "length qs = 2 ^ j" "j < 32" "\<forall>e\<in>set es. good_item qs e"
      "low = lowest (newSnapshotState qs True)"
    and H: "chain 0 (old @ all_recs S)" "last_seq 0 old = base" "base \<le> low"
      "highest (newSnapshotState qs True) \<le> last_seq base (all_recs S)"
      "covers E (snap_seq qs) (old @ all_recs S) (entry_map es)"
    and "publishSnapshot (evictionGeneration st) f low st w = (None, st', w')" "0 < n" "n < 2 ^ 32"
  shows "\<exists>log st2 w2. recoverLog c (newStoreState n cap) (restart w') = (Inr (log, st2), w2) \<and>
    lacks E (contents st2) (replay (old @ all_recs S) Map.empty)"
proof -
  note p = publishSnapshot_installed [OF assms(1,3,4,5) assms(16)]
  obtain k where k: "disk_log w' (last_seq base (all_recs (take k S))) (drop k S) t"
    "0 < k \<longrightarrow> last_seq base (all_recs (take k S)) < low" using p(1) by blast
  have rs: "all_recs (take k S) @ all_recs (drop k S) = all_recs S"
    by (metis append_take_drop_id concat_append map_append)
  have "listSnapshots (restart w') = (Inr [(snapshotName low, low)], restart w')"
    using p(2-4) by (intro listSnapshots_single) (auto simp: restart_def calm_def)
  then have ls: "fst (listSnapshots (restart w')) = Inr ([] @ [(snapshotName low, low)])" by simp
  have cal: "calm (restart w')" "handles_ok (restart w')" using p(6) assms(2) by simp_all
  have "snapshot_on_disk (restart w') qs es"
    using ls p(2,5) snap(1-4) unfolding snapshot_on_disk_def by (fastforce simp: restart_def)
  moreover have "last_seq base (all_recs (take k S)) \<le> lowest (newSnapshotState qs True)"
    using k(2) H(3) snap(5) by (cases k) auto
  moreover have hist: "(old @ all_recs (take k S)) @ all_recs (drop k S) = old @ all_recs S" using rs by simp
  moreover have "last_seq 0 (old @ all_recs (take k S)) = last_seq base (all_recs (take k S))" using H(2) by simp
  moreover have "last_seq (last_seq base (all_recs (take k S))) (all_recs (drop k S)) = last_seq base (all_recs S)"
    using rs by (metis last_seq_simps(3))
  ultimately show ?thesis
    using recoverLog_snapshot [OF cal, of qs es "last_seq base (all_recs (take k S))" "drop k S" t
        "old @ all_recs (take k S)" "newStoreState n cap" E c]
      k(1) H(1,4,5) wf_newStoreState [of n cap] assms(17,18)
    by (simp add: newStoreState_def) blast
qed

text \<open>The same directory before the snapshot is published, while it still has its temporary name.\<close>

definition temp_world :: world where
  "temp_world = (snap_world 1)\<lparr>dir := [(segmentName 1, NFile 0), (''t'', NFile 1)]\<rparr>"

lemma temp_names [simp]:
  "\<not> HasSuffix ''t'' ''.seg''" "\<not> HasSuffix ''t'' ''.snap''" "segmentName q \<noteq> ''t''" "snapshotName q \<noteq> ''t''"
  "''t'' \<noteq> segmentName q"
proof -
  show "\<not> HasSuffix ''t'' ''.seg''" "\<not> HasSuffix ''t'' ''.snap''" by (simp_all add: HasSuffix_def)
  then show "segmentName q \<noteq> ''t''" "snapshotName q \<noteq> ''t''" "''t'' \<noteq> segmentName q" using HasSuffix_segmentName snapshotName_suffix(1) by metis+
qed

lemma temp_world_ok: "calm temp_world" "handles_ok temp_world" "disk_log temp_world 0 [sample_seg] []"
proof -
  show "calm temp_world" "handles_ok temp_world" by (simp_all add: temp_world_def snap_world_def calm_def handles_ok_def)
  have "segs_in_dir temp_world [sample_seg]"
    by (auto simp: segs_in_dir_def temp_world_def sample_seg_def listed_def HasSuffix_segmentName seg.parse_name)
      (simp add: snap_world_def)
  moreover have "inodes temp_world = inodes (snap_world 1)" by (simp add: temp_world_def)
  ultimately show "disk_log temp_world 0 [sample_seg] []" using snap_world_log [of 1] by (simp add: disk_log_def flushed_def)
qed

lemma temp_world_published:
  "publishSnapshot 0 \<lparr>hname = ''t'', hino = 1, hid = 0\<rparr> 1 (newStoreState 4 500) temp_world =
     (None, addSnapshot (newStoreState 4 500), snap_world 1)"
proof -
  have r: "renameFile ''t'' (snapshotName 1) temp_world = (None, snap_world 1)"
    by (simp add: renameFile_def temp_world_ok(1)) (simp add: temp_world_def snap_world_def)
  have "removeOtherSnapshots (snapshotName 1) (snap_world 1) = (None, snap_world 1)"
    using snapshotName_suffix segmentName_not_snap
    by (simp add: removeOtherSnapshots_def readDir_def snap_world_calm) (simp add: snap_world_def snap.parse_name)
  moreover have "listSegments (snap_world 1) = (Inr [(segmentName 1, 1)], snap_world 1)"
    using listSegments_disk [OF snap_world_calm(1), of 1 "[sample_seg]" 0] snap_world_log [of 1]
    by (simp add: disk_log_def sample_seg_def)
  ultimately show ?thesis
    using r snap_world_calm by (simp add: publishSnapshot_def newStoreState_def syncDirectory_def deleteSegmentsBefore_def)
qed

theorem published_snapshot_recovers_witness:
  "\<exists>st' w' log st2 w2. publishSnapshot 0 \<lparr>hname = ''t'', hino = 1, hid = 0\<rparr> 1 (newStoreState 4 500) temp_world = (None, st', w') \<and>
     recoverLog Background (newStoreState 4 500) (restart w') = (Inr (log, st2), w2) \<and> contents st2 [1] = Some sample_item"
proof -
  let ?f = "\<lparr>hname = ''t'', hino = 1, hid = 0\<rparr>"
  have f: "map_of (dir temp_world) (hname ?f) = Some (NFile (hino ?f))" "\<not> HasSuffix (hname ?f) ''.seg''"
    "\<not> HasSuffix (hname ?f) ''.snap''" "content (inodes temp_world (hino ?f)) = snap_bytes [1] [sample_item]"
    by (simp_all add: temp_world_def snap_world_def)
  have p: "publishSnapshot (evictionGeneration (newStoreState 4 500)) ?f 1 (newStoreState 4 500) temp_world =
     (None, addSnapshot (newStoreState 4 500), snap_world 1)"
    using temp_world_published by (simp add: newStoreState_def)
  have ch: "chain 0 ([] @ all_recs [sample_seg])" "1 = lowest (newSnapshotState [1] True)"
    by (simp_all add: sample_seg_def maxSequence_def good_rec_def recordSizeFor_def layout newSnapshotState_def)
  have cov: "covers (\<lambda>_. False) (snap_seq [1]) ([] @ all_recs [sample_seg]) (entry_map [sample_item])"
    using snap_world_covers by (simp add: sample_seg_def)
  have g: "\<forall>e\<in>set [sample_item]. good_item [1] e" by (simp add: good_item_def sample_item_def)
  show ?thesis
    using published_snapshot_recovers [OF temp_world_ok(3,2) f(1-4) _ _ g ch(2,1) _ _ _ cov p, of 0 4 Background 500]
      temp_world_published
    by (simp add: snap_world_states sample_seg_def lacks_def sample_item_def) fastforce
qed



text \<open>C22. Pruning the log removes only what the snapshot has made superfluous. Whatever calls fail,
  \<open>deleteSegmentsBefore\<close> removes a first part of the segments in order, and only segments whose
  records all lie below \<open>lowest\<close>; what remains is a log that ends as it did, with the same torn
  end if it had one.\<close>

theorem pruning_keeps_needed_records:
  assumes "disk_log w base S t" "deleteSegmentsBefore low w = (r, w')"
  shows "\<exists>j. disk_log w' (last_seq base (all_recs (take j S))) (drop j S) t \<and>
    (\<forall>x\<in>set (all_recs (take j S)). lseq x < low) \<and> pruned (\<lambda>m. HasSuffix m ''.seg'') w w'"
proof -
  obtain j where j: "disk_log w' (last_seq base (all_recs (take j S))) (drop j S) t"
    "0 < j \<longrightarrow> last_seq base (all_recs (take j S)) < low" "pruned (\<lambda>m. HasSuffix m ''.seg'') w w'"
    using deleteSegmentsBefore_log [OF assms] by blast
  have "chain base (all_recs (take j S @ drop j S))" using assms(1) seg_chain_chain by (auto simp: disk_log_def)
  then have ch: "chain base (all_recs (take j S))" unfolding map_append concat_append chain_append by blast
  have "lseq x < low" if "x \<in> set (all_recs (take j S))" for x
    using chain_bounds [OF ch that] j(2) that by (cases j) auto
  then show ?thesis using j by blast
qed

theorem pruning_keeps_needed_records_witness:
  "\<exists>r w'. deleteSegmentsBefore 1 (snap_world 1) = (r, w') \<and> disk_log w' 0 [sample_seg] []"
proof -
  obtain r w' where d: "deleteSegmentsBefore 1 (snap_world 1) = (r, w')" by fastforce
  obtain j where j: "disk_log w' (last_seq 0 (all_recs (take j [sample_seg]))) (drop j [sample_seg]) []"
    "\<forall>x\<in>set (all_recs (take j [sample_seg])). lseq x < 1"
    using pruning_keeps_needed_records [OF snap_world_log d] by blast
  have "j = 0" using j(2) by (cases j) (auto simp: sample_seg_def)
  then show ?thesis using d j(1) by auto
qed

end
