(* ===== verification/Cache_Open_Props.thy ===== *)
theory Cache_Open_Props
  imports Cache_Snapshot_Props Cache_Entries_Props
begin

text \<open>
  \<open>Open\<close> on the directory of a store that was not closed: the lock is taken, stale temporary files
  go, the snapshot and the log are recovered, and the limits of the new options are enforced.
\<close>

section \<open>Temporary files\<close>

lemma delete_filter: "AList.delete k al = filter (\<lambda>e. fst e \<noteq> k) al"
  by (induction al) auto

lemma removeEach_calm:
  assumes "calm w" "distinct ns" "set ns \<subseteq> fst ` set (dir w)"
  shows "removeEach op ns w = (None, w\<lparr>dir := filter (\<lambda>e. fst e \<notin> set ns) (dir w)\<rparr>)"
  using assms
proof (induction ns arbitrary: w)
  case (Cons n ns)
  let ?w = "w\<lparr>dir := AList.delete n (dir w)\<rparr>"
  have "map_of (dir w) n \<noteq> None" using Cons.prems(3) by (simp add: map_of_eq_None_iff)
  then have "removeFile n w = (None, ?w)" using Cons.prems(1) by (simp add: removeFile_def)
  moreover have "set ns \<subseteq> fst ` set (dir ?w)" using Cons.prems(2,3) by (force simp: delete_filter)
  moreover have "calm ?w" using Cons.prems(1) by (simp add: calm_def)
  ultimately show ?case
    using Cons.IH [of ?w] Cons.prems(2) by (simp add: delete_filter conj_commute)
qed simp

text \<open>The directory without its stale temporary files.\<close>

definition tidied :: "world \<Rightarrow> world" where
  "tidied w = w\<lparr>dir := filter (\<lambda>(m, n). \<not> (isRegular n \<and> temporaryName m)) (dir w)\<rparr>"

lemma removeTemporaryFiles_calm:
  assumes "calm w" "distinct (map fst (dir w))"
  shows "removeTemporaryFiles w = (None, tidied w)"
proof -
  let ?T = "\<lambda>(m, n). isRegular n \<and> temporaryName m"
  let ?ns = "map fst (filter ?T (sort_key fst (dir w)))"
  have "distinct (map fst (sort_key fst (dir w)))" using assms(2) by (simp add: distinct_map)
  then have d: "distinct ?ns" by (simp add: distinct_map_filter)
  have "removeEach ''remove stale temporary file'' ?ns w = (None, w\<lparr>dir := filter (\<lambda>e. fst e \<notin> set ?ns) (dir w)\<rparr>)"
    by (rule removeEach_calm [OF assms(1) d]) auto
  moreover have "filter (\<lambda>e. fst e \<notin> set ?ns) (dir w) = filter (\<lambda>(m, n). \<not> (isRegular n \<and> temporaryName m)) (dir w)"
  proof (rule filter_cong [OF refl])
    fix e assume e: "e \<in> set (dir w)"
    have same: "e' = e" if "e' \<in> set (dir w)" "fst e' = fst e" for e'
      using assms(2) e that by (metis eq_key_imp_eq_value prod.collapse)
    have "fst e \<in> set ?ns \<longleftrightarrow> ?T e"
    proof
      assume "fst e \<in> set ?ns"
      then obtain e' where "e' \<in> set (filter ?T (sort_key fst (dir w)))" "fst e = fst e'" unfolding set_map by (rule imageE)
      then have "e' \<in> set (dir w)" "?T e'" "fst e' = fst e" by simp_all
      then show "?T e" using same by metis
    next
      assume "?T e"
      then have "e \<in> set (filter ?T (sort_key fst (dir w)))" using e by simp
      then show "fst e \<in> set ?ns" unfolding set_map by (rule imageI)
    qed
    then show "(fst e \<notin> set ?ns) = (case e of (m, n) \<Rightarrow> \<not> (isRegular n \<and> temporaryName m))"
      by (cases e) simp
  qed
  ultimately show ?thesis using assms(1) by (simp add: removeTemporaryFiles_def readDir_def tidied_def)
qed

lemma parsed_not_temporary:
  assumes "parseSequenceFilename m suf z = Inr q"
  shows "\<not> temporaryName m"
proof
  assume "temporaryName m"
  then obtain rest where m: "m = CHR ''.'' # rest" by (cases m) (auto simp: temporaryName_def HasPrefix_def)
  have "parse_digits 0 (TrimSuffix m suf) \<noteq> None" "length (TrimSuffix m suf) \<noteq> 0"
    using assms by (auto simp: parseSequenceFilename_def ParseUint_def Let_def split: if_splits option.splits)
  moreover have "TrimSuffix m suf = [] \<or> (\<exists>s. TrimSuffix m suf = CHR ''.'' # s)"
    using m by (auto simp: TrimSuffix_def take_Cons split: nat.splits)
  ultimately show False by auto
qed

lemma tidied_simps [simp]:
  "calm (tidied w) = calm w" "inodes (tidied w) = inodes w" "nextInode (tidied w) = nextInode w"
  "handles_ok (tidied w) = handles_ok w" "closedHandles (tidied w) = closedHandles w" "is_open f (tidied w) = is_open f w"
  by (simp_all add: tidied_def calm_def handles_ok_def is_open_def)

lemma map_of_filter_distinct:
  "distinct (map fst al) \<Longrightarrow> (\<forall>n. map_of al m = Some n \<longrightarrow> P (m, n)) \<Longrightarrow> map_of (filter P al) m = map_of al m"
  by (induction al) (auto simp: map_of_eq_None_iff split: if_splits)

lemma map_of_tidied:
  assumes "distinct (map fst (dir w))" "\<And>n. map_of (dir w) m = Some n \<Longrightarrow> isRegular n \<Longrightarrow> \<not> temporaryName m"
  shows "map_of (dir (tidied w)) m = map_of (dir w) m"
  using assms map_of_filter_distinct [of "dir w" m "\<lambda>(m, n). \<not> (isRegular n \<and> temporaryName m)"]
  by (auto simp: tidied_def)

lemma tidied_log:
  assumes d: "disk_log w base S t"
  shows "disk_log (tidied w) base S t"
proof (rule disk_log_same [OF d])
  have s: "segs_in_dir w S" and dist: "distinct (map fst (dir w))"
    using d by (simp_all add: disk_log_def segs_in_dir_def)
  show "segs_in_dir (tidied w) S"
  proof (rule segs_in_dir_same [OF s])
    show "distinct (map fst (dir (tidied w)))" using dist by (simp add: tidied_def distinct_map_filter)
    show "map_of (dir (tidied w)) m = map_of (dir w) m" if m: "HasSuffix m ''.seg''" for m
    proof (rule map_of_tidied [OF dist])
      fix n assume n: "map_of (dir w) m = Some n" "isRegular n"
      then have "(m, n) \<in> set (filter (listed ''.seg'') (dir w))"
        using m by (cases n) (auto simp: listed_def dest: map_of_SomeD)
      then have "(m, n) \<in> (\<lambda>s. (sname s, NFile (sino s))) ` set S" using s unfolding segs_in_dir_def by metis
      then obtain x where "x \<in> set S" "m = sname x" by auto
      then have "parseSegmentFilename m = Inr (sfirst x)" using s by (auto simp: segs_in_dir_def)
      then show "\<not> temporaryName m" unfolding parseSegmentFilename_def by (rule parsed_not_temporary)
    qed
  qed simp
qed simp

lemma collectSequences_parsed:
  "collectSequences suf parse seen es = Inr fs \<Longrightarrow> (m, q) \<in> set fs \<Longrightarrow> parse m = Inr q"
  by (induction suf parse seen es arbitrary: fs rule: collectSequences.induct)
    (auto split: if_splits sum.splits option.splits)

lemma collectSequences_filter:
  assumes "\<And>m n q. parse m = Inr q \<Longrightarrow> P (m, n)"
  shows "collectSequences suf parse seen es = Inr fs \<Longrightarrow> collectSequences suf parse seen (filter P es) = Inr fs"
  using assms
  by (induction suf parse seen es arbitrary: fs rule: collectSequences.induct)
    (auto split: if_splits sum.splits option.splits)

lemma tidied_snapshot:
  assumes w: "calm w" "distinct (map fst (dir w))" and s: "snapshot_on_disk w qs es"
  shows "snapshot_on_disk (tidied w) qs es"
proof -
  obtain older name q i where l: "fst (listSnapshots w) = Inr (older @ [(name, q)])"
    "map_of (dir w) name = Some (NFile i)" "content (inodes w i) = snap_bytes qs es"
    using s unfolding snapshot_on_disk_def by blast
  let ?P = "\<lambda>(m, n). \<not> (isRegular n \<and> temporaryName m)"
  obtain fs where c: "collectSequences ''.snap'' parseSnapshotFilename Map.empty (sort_key fst (dir w)) = Inr fs"
    and fs: "sort_key snd fs = older @ [(name, q)]"
    using l(1) w(1) by (auto simp: listSnapshots_def readDir_def split: sum.splits)
  have nt: "\<not> temporaryName m" if "parseSnapshotFilename m = Inr p" for m p
    using that unfolding parseSnapshotFilename_def by (rule parsed_not_temporary)
  have "collectSequences ''.snap'' parseSnapshotFilename Map.empty (filter ?P (sort_key fst (dir w))) = Inr fs"
    by (rule collectSequences_filter [OF _ c]) (use nt in auto)
  then have "fst (listSnapshots (tidied w)) = Inr (older @ [(name, q)])"
    using w(1) fs by (simp add: listSnapshots_def readDir_def tidied_def calm_def filter_sort)
  moreover have "(name, q) \<in> set fs" using fs by (metis in_set_conv_decomp set_sort)
  then have "map_of (dir (tidied w)) name = Some (NFile i)"
    using map_of_tidied [OF w(2), of name] nt collectSequences_parsed [OF c] l(2) by metis
  ultimately show ?thesis using s l(3) unfolding snapshot_on_disk_def by fastforce
qed

lemma tidied_no_snapshots: "no_snapshots w \<Longrightarrow> no_snapshots (tidied w)"
  by (simp add: no_snapshots_def tidied_def filter_filter conj_commute) (metis (no_types, lifting) filter_False filter_empty_conv)

section \<open>Opening\<close>

lemma calm_lock:
  assumes "calm w" "handles_ok w" "map_of (dir w) ''LOCK'' = Some (NFile l)"
  obtains lock where "openLock w = (Inr lock, w\<lparr>nextHandle := Suc (nextHandle w)\<rparr>)"
    "acquireDirectoryLock lock (w\<lparr>nextHandle := Suc (nextHandle w)\<rparr>) = Some (None, w\<lparr>nextHandle := Suc (nextHandle w)\<rparr>)"
proof -
  let ?w = "w\<lparr>nextHandle := Suc (nextHandle w)\<rparr>" and ?f = "\<lparr>hname = ''LOCK'', hino = l, hid = nextHandle w\<rparr>"
  have "openLock w = (Inr ?f, ?w)" using assms(1,3) by (simp add: openLock_def openHandle_def)
  moreover have "fileCall ?f ?w = (None, ?w)"
    using assms(1,2) by (intro calm_calls) (auto simp: calm_def is_open_def handles_ok_def)
  then have "retryEINTR (fileCall ?f) ?w = Some (None, ?w)" by (subst retryEINTR.simps) simp
  then have "acquireDirectoryLock ?f ?w = Some (None, ?w)" by (simp add: acquireDirectoryLock_def)
  ultimately show ?thesis using that by blast
qed

lemma Open_run:
  assumes w: "calm w" "handles_ok w" "distinct (map fst (dir w))" "map_of (dir w) ''LOCK'' = Some (NFile l)"
    and opts: "applyOptions 0 supplied (defaultOptions procs) = Inr opts" "capacityError opts = None"
    and rec: "recoverLog Caller (newStoreState (nat (oshards opts)) (ocapacity opts div of_int (oshards opts)))
        (tidied (w\<lparr>nextHandle := Suc (nextHandle w)\<rparr>)) = (Inr (log, rc), w2)"
    and e: "now w2 = (t, w3)" "enforceRecoveredState rc t (orders rc) = Some st"
  shows "\<exists>lock. Open True procs supplied orders w = Some (Inr (opts, lock, st, log), w3)"
proof -
  let ?w = "w\<lparr>nextHandle := Suc (nextHandle w)\<rparr>"
  obtain lock where l: "openLock w = (Inr lock, ?w)" "acquireDirectoryLock lock ?w = Some (None, ?w)"
    using calm_lock [OF w(1,2,4)] by blast
  have "removeTemporaryFiles ?w = (None, tidied ?w)"
    using w by (intro removeTemporaryFiles_calm) (simp_all add: calm_def)
  then have "openLocked opts orders lock ?w = Some (Inr (st, log), w3)"
    using rec e by (simp add: openLocked_def Let_def)
  then show ?thesis using l opts w(1) by (simp add: Open_def)
qed

text \<open>A \<open>range\<close> over the map of a shard meets every key.\<close>

definition ranges :: "(store \<Rightarrow> key list list) \<Rightarrow> bool" where
  "ranges orders \<longleftrightarrow> (\<forall>st. wf_store st \<longrightarrow> length (orders st) = length (shards st) \<and>
     (\<forall>i < length (shards st). dom (entries (shards st ! i)) \<subseteq> set (orders st ! i)))"

lemma snapshot_fits_handle:
  assumes "calm w"
  shows "snapshot_fits (w\<lparr>nextHandle := h\<rparr>) = snapshot_fits w"
proof -
  have "calm (w\<lparr>nextHandle := h\<rparr>)" using assms by (simp add: calm_def)
  then have "fst (listSnapshots (w\<lparr>nextHandle := h\<rparr>)) = fst (listSnapshots w)"
    using assms by (simp add: listSnapshots_def readDir_def split: sum.splits)
  then show ?thesis by (simp add: snapshot_fits_def snapshot_on_disk_def fun_eq_iff)
qed

lemma recoverLog_either:
  assumes "calm w" "handles_ok w" "disk_log w base S t" "chain 0 (old @ all_recs S)" "last_seq 0 old = base"
    "no_snapshots w \<and> old = [] \<or> snapshot_fits w qs es E (old @ all_recs S) base (last_seq base (all_recs S))"
    "0 < n" "n < 2 ^ 32"
  shows "\<exists>log rc w'. recoverLog c (newStoreState n cap) w = (Inr (log, rc), w') \<and> log_ok w' log base S \<and> wf_store rc \<and>
    lacks E (contents rc) (replay (old @ all_recs S) Map.empty)"
proof -
  have st: "wf_store (newStoreState n cap)" "recoveryShard (newStoreState n cap) = None"
    "contents (newStoreState n cap) = Map.empty" "length (shards (newStoreState n cap)) < 2 ^ 32"
    using wf_newStoreState [of n cap] assms(7,8) by (simp_all add: newStoreState_def)
  from assms(6) show ?thesis
  proof
    assume a: "no_snapshots w \<and> old = []"
    then have "disk_log w 0 S t" "base = 0" using assms(3,5) by simp_all
    then show ?thesis
      using recoverLog_disk [OF assms(1,2), of S t "newStoreState n cap" c] a st by (fastforce simp: lacks_def)
  next
    assume "snapshot_fits w qs es E (old @ all_recs S) base (last_seq base (all_recs S))"
    then show ?thesis
      using recoverLog_snapshot [OF assms(1,2) _ assms(3-5) _ _ st] unfolding snapshot_fits_def by blast
  qed
qed


text \<open>The sample directory with its lock file and a temporary file, and a range in the order of use.\<close>

definition crash_world :: world where
  "crash_world = (snap_world 1)\<lparr>dir := (''LOCK'', NFile 2) # (''.segment-1'', NFile 3) # dir (snap_world 1), nextInode := 4\<rparr>"

definition recency_orders :: "store \<Rightarrow> key list list" where
  "recency_orders st = map (\<lambda>sh. map ekey (items sh)) (shards st)"

lemma recency_ranges: "ranges recency_orders"
proof -
  have "dom (entries sh) \<subseteq> ekey ` set (items sh)" if "wf_shard sh" for sh
  proof
    fix k assume "k \<in> dom (entries sh)"
    then have "lru_find k (items sh) \<noteq> None" using lru_find_items [OF that, of k] by auto
    then show "k \<in> ekey ` set (items sh)" unfolding lru_find_None by auto
  qed
  then show ?thesis by (auto simp: ranges_def recency_orders_def wf_store_def)
qed

lemma crash_names [simp]:
  "segmentName q \<noteq> ''LOCK''" "snapshotName q \<noteq> ''LOCK''" "segmentName q \<noteq> ''.segment-1''" "snapshotName q \<noteq> ''.segment-1''"
  "''LOCK'' \<noteq> segmentName q" "''LOCK'' \<noteq> snapshotName q" "''.segment-1'' \<noteq> segmentName q" "''.segment-1'' \<noteq> snapshotName q"
  "\<not> HasSuffix ''LOCK'' ''.seg''" "\<not> HasSuffix ''LOCK'' ''.snap''"
  "\<not> HasSuffix ''.segment-1'' ''.seg''" "\<not> HasSuffix ''.segment-1'' ''.snap''"
proof -
  show n: "\<not> HasSuffix ''LOCK'' ''.seg''" "\<not> HasSuffix ''LOCK'' ''.snap''"
    "\<not> HasSuffix ''.segment-1'' ''.seg''" "\<not> HasSuffix ''.segment-1'' ''.snap''" by (simp_all add: HasSuffix_def)
  show "segmentName q \<noteq> ''LOCK''" "snapshotName q \<noteq> ''LOCK''" "segmentName q \<noteq> ''.segment-1''" "snapshotName q \<noteq> ''.segment-1''"
    "''LOCK'' \<noteq> segmentName q" "''LOCK'' \<noteq> snapshotName q" "''.segment-1'' \<noteq> segmentName q" "''.segment-1'' \<noteq> snapshotName q"
    using n HasSuffix_segmentName [of q] snapshotName_suffix(1) [of q] by metis+
qed

lemma crash_world_dir: "calm crash_world" "handles_ok crash_world" "distinct (map fst (dir crash_world))"
  "map_of (dir crash_world) (snapshotName 1) = Some (NFile 1)" "map_of (dir crash_world) ''LOCK'' = Some (NFile 2)"
  "map_of (dir crash_world) m = Some n \<Longrightarrow> listed ''.snap'' (m, n) \<Longrightarrow> m = snapshotName 1"
proof -
  show "calm crash_world" "handles_ok crash_world" by (simp_all add: crash_world_def snap_world_def calm_def handles_ok_def)
  have d: "dir crash_world = [(''LOCK'', NFile 2), (''.segment-1'', NFile 3), (segmentName 1, NFile 0), (snapshotName 1, NFile 1)]"
    by (simp add: crash_world_def snap_world_def)
  show "distinct (map fst (dir crash_world))" "map_of (dir crash_world) (snapshotName 1) = Some (NFile 1)"
    "map_of (dir crash_world) ''LOCK'' = Some (NFile 2)" unfolding d by simp_all
  show "m = snapshotName 1" if "map_of (dir crash_world) m = Some n" "listed ''.snap'' (m, n)"
  proof -
    have "m \<in> {''LOCK'', ''.segment-1'', segmentName 1, snapshotName 1}"
      using map_of_SomeD [OF that(1)] unfolding d by auto
    moreover have "HasSuffix m ''.snap''" using that(2) by (simp add: listed_def)
    ultimately show ?thesis using crash_names(10,12) segmentName_not_snap by blast
  qed
qed

lemma crash_world_log: "disk_log crash_world 0 [sample_seg] []"
proof -
  have "segs_in_dir crash_world [sample_seg]"
    by (rule segs_in_dir_same [of "snap_world 1"])
      (use snap_world_log [of 1] crash_world_dir(3) in \<open>auto simp: disk_log_def crash_world_def snap_world_def\<close>)
  then show ?thesis
    by (rule disk_log_same [OF snap_world_log [of 1]]) (simp add: crash_world_def)
qed

lemma crash_world_snapshot: "snapshot_on_disk (restart crash_world) [1] [sample_item]"
proof -
  have "restart crash_world = crash_world" using crash_world_dir(1) by (simp add: restart_def calm_def)
  moreover have "fst (listSnapshots crash_world) = Inr ([] @ [(snapshotName 1, 1)])"
    using listSnapshots_single [OF crash_world_dir(1,3,4)] crash_world_dir(6) by simp
  moreover have "content (inodes crash_world 1) = snap_bytes [1] [sample_item]" by (simp add: crash_world_def snap_world_def)
  moreover have "good_item [1] sample_item" by (simp add: good_item_def sample_item_def)
  moreover have "length [1::u64] = 2 ^ 0 \<and> (0::nat) < 32" by simp
  ultimately show ?thesis using crash_world_dir(4) unfolding snapshot_on_disk_def by fastforce
qed


end
