(* ===== verification/Cache_Client.thy ===== *)
theory Cache_Client
  imports Cache_Store
begin

text \<open>
  The public operations of a store as its only client sees them, \<open>store.go\<close>: a call builds its
  request, puts it into the channel and waits for the answer of the writer. With one client
  the channel is empty between calls, so the next turn of the writer answers the call. What the
  other goroutines do during the turn is the argument \<open>sch\<close>. \<open>None\<close> is a call that never
  returns.
\<close>

section \<open>One turn of the writer\<close>

definition takeTurn :: "options \<Rightarrow> schedule \<Rightarrow> system \<Rightarrow> (answer list \<times> system) option" where
  "takeTurn opts sch y =
     (case yqueue y of
        [] \<Rightarrow> None
      | r # waiting \<Rightarrow>
          do {
            (stop, answers, rest, job, st, log, w) \<leftarrow>
              writerTurn (nat (segmentSize opts)) (nat (snapshotThreshold opts)) sch (yjob y) r waiting (ystore y) (ylog y) (yworld y);
            Some (answers, y\<lparr>ystore := st, ylog := log, yworld := w, yqueue := rest,
                             yanswers := yanswers y @ answers, ydone := stop,
                             yjob := jobAfter stop job st (yjob y)\<rparr>)
          })"

text \<open>\<open>submit\<close> with the wait for the answer: \<open>return <-request.result\<close>.\<close>

definition awaitSubmit :: "options \<Rightarrow> schedule \<Rightarrow> writeRequest \<Rightarrow> system \<Rightarrow> (go_error option \<times> system) option" where
  "awaitSubmit opts sch request y =
     do {
       sent \<leftarrow> submit request y;
       (case sent of
          Inl e \<Rightarrow> Some (Some e, y)
        | Inr y1 \<Rightarrow>
            do {
              (answers, y2) \<leftarrow> takeTurn opts sch y1;
              Some (snd (last answers), y2)
            })
     }"

section \<open>The operations\<close>

text \<open>The channel \<open>result\<close> of a request is new with every call: it is named by the number of requests so far.\<close>

abbreviation newResult :: "system \<Rightarrow> nat" where
  "newResult y \<equiv> length (yaccepted y)"

definition Set :: "options \<Rightarrow> schedule \<Rightarrow> key \<Rightarrow> bytes \<Rightarrow> system \<Rightarrow> (go_error option \<times> system) option" where
  "Set opts sch key val y =
     (case setRequest (ystore y) (newResult y) key val of
        Inl e \<Rightarrow> Some (Some e, y)
      | Inr request \<Rightarrow> awaitSubmit opts sch request y)"

definition SetTTL :: "options \<Rightarrow> schedule \<Rightarrow> key \<Rightarrow> bytes \<Rightarrow> i64 \<Rightarrow> system \<Rightarrow> (go_error option \<times> system) option" where
  "SetTTL opts sch key val ttl y =
     (case now (yworld y) of
        (t, w) \<Rightarrow>
          (case setTTLRequest (ystore y) (newResult y) key val ttl t of
             Inl e \<Rightarrow> Some (Some e, y)
           | Inr request \<Rightarrow> awaitSubmit opts sch request (y\<lparr>yworld := w\<rparr>)))"

definition Delete :: "options \<Rightarrow> schedule \<Rightarrow> key \<Rightarrow> system \<Rightarrow> (go_error option \<times> system) option" where
  "Delete opts sch key y =
     (case deleteRequest (newResult y) key of
        Inl e \<Rightarrow> Some (Some e, y)
      | Inr request \<Rightarrow> awaitSubmit opts sch request y)"

definition Sync :: "options \<Rightarrow> schedule \<Rightarrow> system \<Rightarrow> (go_error option \<times> system) option" where
  "Sync opts sch y = awaitSubmit opts sch (syncRequest (newResult y)) y"

text \<open>\<open>Get\<close> is \<open>getInto\<close> with the time of the call.\<close>

definition Get :: "key \<Rightarrow> system \<Rightarrow> (bytes \<times> bool) \<times> system" where
  "Get key y =
     (case now (yworld y) of
        (t, w) \<Rightarrow>
          (case getInto (ystore y) key t of
             (res, st) \<Rightarrow> (res, y\<lparr>ystore := st, yworld := w\<rparr>)))"

text \<open>The first call of \<open>Close\<close>, from \<open>closeOnce\<close> to the error it returns.\<close>

definition Close :: "options \<Rightarrow> schedule \<Rightarrow> system \<Rightarrow> (go_error option \<times> system) option" where
  "Close opts sch y =
     do {
       (answers, y1) \<leftarrow> takeTurn opts sch (sendClose (newResult y) (beginClose y));
       finishClose (snd (last answers)) y1
     }"

text \<open>The store that \<open>Open\<close> returns, with its goroutines started.\<close>

definition startStore :: "handle \<Rightarrow> store \<Rightarrow> logState \<Rightarrow> world \<Rightarrow> system" where
  "startStore lock st log w =
     \<lparr>ystore = st, ylog = log, yworld = w, yclosed = False, ycloseSent = False, yqueue = [], yanswers = [],
      ydone = False, ylock = lock, yreleased = False, yaccepted = [], ysweep = 0, yjob = None\<rparr>"

end
