(* ===== verification/Cache_Client_Props.thy ===== *)
theory Cache_Client_Props
  imports Cache_Client Cache_Store_Props
begin

text \<open>
  What a client of the store may rely on, as a locale: a write that is acknowledged is seen by the
  reads after it. The operations of \<open>Cache_Client\<close> satisfy it.
\<close>

section \<open>The contract\<close>

locale key_value =
  fixes ok :: "'s \<Rightarrow> bool" and holds :: "'s \<Rightarrow> key \<Rightarrow> bytes \<Rightarrow> bool" and absent :: "'s \<Rightarrow> key \<Rightarrow> bool"
    and put :: "key \<Rightarrow> bytes \<Rightarrow> 's \<Rightarrow> ('e option \<times> 's) option"
    and del :: "key \<Rightarrow> 's \<Rightarrow> ('e option \<times> 's) option"
    and get :: "key \<Rightarrow> 's \<Rightarrow> (bytes \<times> bool) \<times> 's"
  assumes put_acked: "ok s \<Longrightarrow> put k v s = Some (None, s') \<Longrightarrow> ok s' \<and> holds s' k v"
    and put_refused: "ok s \<Longrightarrow> put k v s = Some (Some e, s') \<Longrightarrow>
      ok s' \<and> (\<forall>k' v'. holds s' k' v' = holds s k' v') \<and> (\<forall>k'. absent s' k' = absent s k')"
    and del_acked: "ok s \<Longrightarrow> del k s = Some (None, s') \<Longrightarrow>
      ok s' \<and> absent s' k \<and> (\<forall>k' v'. k' \<noteq> k \<longrightarrow> holds s' k' v' = holds s k' v')"
    and get_held: "ok s \<Longrightarrow> holds s k v \<Longrightarrow> get k s = (r, s') \<Longrightarrow>
      r = (v, True) \<and> ok s' \<and> (\<forall>k' v'. holds s k' v' \<longrightarrow> holds s' k' v')"
    and get_absent: "ok s \<Longrightarrow> absent s k \<Longrightarrow> get k s = (r, s') \<Longrightarrow>
      r = ([], False) \<and> ok s' \<and> (\<forall>k' v'. holds s k' v' \<longrightarrow> holds s' k' v')"
begin

lemma read_your_write: "ok s \<Longrightarrow> put k v s = Some (None, s') \<Longrightarrow> fst (get k s') = (v, True)"
  using put_acked get_held by (metis surjective_pairing)

lemma read_after_delete: "ok s \<Longrightarrow> del k s = Some (None, s') \<Longrightarrow> fst (get k s') = ([], False)"
  using del_acked get_absent by (metis surjective_pairing)

lemma read_again:
  assumes "ok s" "put k v s = Some (None, s')"
  shows "fst (get k (snd (get k s'))) = (v, True)"
proof -
  obtain r s'' where g: "get k s' = (r, s'')" by fastforce
  then have "ok s'' \<and> holds s'' k v" using put_acked [OF assms] get_held by blast
  then show ?thesis using g get_held by (metis snd_conv surjective_pairing)
qed

lemma refused_write_invisible:
  assumes "ok s" "holds s k' v'" "put k v s = Some (Some e, s')"
  shows "fst (get k' s') = (v', True)"
  using assms put_refused get_held by (metis surjective_pairing)

end

section \<open>A batch of one request\<close>

definition same_data :: "store \<Rightarrow> store \<Rightarrow> bool" where
  "same_data st st' \<longleftrightarrow> shards st' = shards st \<and> shardMask st' = shardMask st \<and>
     entryTotal st' = entryTotal st \<and> byteTotal st' = byteTotal st"

lemma same_data_refl [simp]: "same_data st st"
  by (simp add: same_data_def)

lemma same_data_trans: "same_data a b \<Longrightarrow> same_data b c \<Longrightarrow> same_data a c"
  by (simp add: same_data_def)

lemma same_data_facts:
  assumes "same_data st st'"
  shows "wf_store st' = wf_store st" "contents st' = contents st" "shardFor st' k = shardFor st k"
  using assms wf_store_cong [of st' st] contents_cong [of st' st]
  by (simp_all add: same_data_def shardFor_def shardIndex_def)

lemma same_data_updates [simp]:
  "same_data st (addFsync st)" "same_data st (addRecord st)" "same_data st (addBytesWritten n st)"
  "same_data st (snd (latch st e))" "same_data st (st\<lparr>snapshotRunning := b\<rparr>)"
  by (auto simp: same_data_def addFsync_def addRecord_def addBytesWritten_def latch_def split: option.splits)

lemma rollSegment_data: "rollSegment st log q w = (r, st', log', w') \<Longrightarrow> same_data st st'"
  by (auto simp: rollSegment_def split: prod.splits option.splits sum.splits)

lemma rollIfFull_data: "rollIfFull n req st log w = (r, st', log', w') \<Longrightarrow> same_data st st'"
  by (auto simp: rollIfFull_def dest: rollSegment_data split: if_splits)

lemma maybeSnapshot_data:
  assumes "maybeSnapshot threshold st log w = (job, st', log', w')"
  shows "same_data st st'"
proof -
  have "same_data st st1" if "startSnapshot st log w = (j, st1, log1, w1)" for j st1 log1 w1
  proof -
    have "same_data st st2" if "rollSegment (st\<lparr>snapshotRunning := True\<rparr>) log q w = (r, st2, log2, w2)" for q r st2 log2 w2
      using rollSegment_data [OF that] by (simp add: same_data_def)
    then show ?thesis
      using that by (auto simp: startSnapshot_def split: if_splits prod.splits option.splits)
        (metis same_data_trans same_data_updates(4,5))
  qed
  then show ?thesis using assms by (auto simp: maybeSnapshot_def split: if_splits prod.splits)
qed

text \<open>The request was applied, to a store that differs from \<open>st\<close> in counters only, and nothing else happened.\<close>

definition applied :: "writeRequest \<Rightarrow> store \<Rightarrow> store \<Rightarrow> bool" where
  "applied r st st' \<longleftrightarrow>
     (\<exists>st1 q w1 st2 w2. same_data st st1 \<and> applyRequest st1 r q w1 = Some (st2, w2) \<and> same_data st2 st')"

lemma same_data_applied: "same_data st st1 \<Longrightarrow> applied r st1 st' \<Longrightarrow> applied r st st'"
  unfolding applied_def by (meson same_data_trans)

lemma applied_same_data: "applied r st st1 \<Longrightarrow> same_data st1 st' \<Longrightarrow> applied r st st'"
  unfolding applied_def by (meson same_data_trans)

lemma failBatch_data: "same_data st (fst (failBatch st log e rs w))"
  by (simp add: failBatch_def split: prod.splits) (metis same_data_updates(4) snd_conv)

lemma failBatch_one: "snd (last (fst (snd (snd (failBatch st log e [r] w))))) \<noteq> None"
  by (simp add: failBatch_def respondAll_def split: prod.splits)

definition one_outcome :: "writeRequest \<Rightarrow> store \<Rightarrow> writeRequest list \<Rightarrow> store \<times> logState \<times> answer list \<times> world \<Rightarrow> bool" where
  "one_outcome r st rs out \<longleftrightarrow>
     (rs = [] \<longrightarrow> same_data st (fst out) \<and> fst (snd (snd out)) = []) \<and>
     (rs = [r] \<longrightarrow> fst (snd (snd out)) \<noteq> [] \<and>
        (if snd (last (fst (snd (snd out)))) = None then applied r st (fst out) else same_data st (fst out)))"

lemma failBatch_outcome_one:
  assumes "same_data st st1"
  shows "one_outcome r st rs (failBatch st1 log e rs w)"
  using failBatch_one [of st1 log e r w] same_data_trans [OF assms failBatch_data]
  by (auto simp: one_outcome_def) (auto simp: failBatch_def respondAll_def split: prod.splits)

lemma writeLoop_one:
  assumes "writeLoop segSize st log rs w = Some out"
  shows "one_outcome r st rs out"
proof (rule writeLoop_induct [OF assms, where P = "\<lambda>st log rs w out. one_outcome r st rs out"])
  show "one_outcome r st [] (st, log, [], w)" for st log w by (simp add: one_outcome_def)
next
  fix st :: store and log rs w st1 log1 w1 payload n e w2 log2 k st3 log3 ans3 w3 st4 log4 ans4 w4
  assume roll: "rollIfFull segSize (hd rs) st log w = (None, st1, log1, w1)"
    and ap: "applyBatch st1 log2 (take k rs) w2 = Some (st3, log3, ans3, w3)"
    and IH: "one_outcome r (addBytesWritten n st3) (drop k rs) (st4, log4, ans4, w4)"
  have d: "same_data st st1" using rollIfFull_data [OF roll] .
  show "one_outcome r st rs (st4, log4, ans3 @ ans4, w4)"
  proof (cases "take k rs = []")
    case True
    then have "drop k rs = rs" "st3 = st1" "ans3 = []" using ap by (auto simp: take_eq_Nil)
    then have "one_outcome r (addBytesWritten n st1) rs (st4, log4, ans4, w4)" "same_data st (addBytesWritten n st1)"
      using IH same_data_trans [OF d same_data_updates(3)] by simp_all
    then show ?thesis using \<open>ans3 = []\<close> same_data_trans same_data_applied unfolding one_outcome_def by auto
  next
    case False
    show ?thesis
    proof (cases "rs = [r]")
      case True
      then have k: "take k rs = [r]" "drop k rs = []" using False by (cases k; simp)+
      then obtain st2 w' where a: "applyRequest st1 r (logSeq log2 + 1) w2 = Some (st2, w')" "st3 = addRecord st2"
        "ans3 = [(rid r, None)]" using ap by (auto split: bind_splits)
      have "same_data (addBytesWritten n st3) st4" "ans4 = []" using IH k by (simp_all add: one_outcome_def)
      then have "same_data st2 st4" using a(2) same_data_trans same_data_updates(2,3) by metis
      then have "applied r st st4" using d a(1) unfolding applied_def by blast
      then show ?thesis using a \<open>ans4 = []\<close> True by (simp add: one_outcome_def)
    qed (use False in \<open>simp add: one_outcome_def\<close>)
  qed
qed (auto intro: failBatch_outcome_one dest: rollIfFull_data)

lemma writeBatch_one:
  assumes "writeBatch segSize st log [r] w = Some (st', log', ans, w')"
  shows "ans \<noteq> [] \<and> (if snd (last ans) = None then applied r st st' else same_data st st')"
proof (cases "lastError (stats st)")
  case None
  then show ?thesis using assms writeLoop_one [of segSize st log "[r]" w _ r] by (auto simp: writeBatch_def one_outcome_def)
qed (use assms in \<open>auto simp: writeBatch_def respondAll_def\<close>)

section \<open>Calls of the only client\<close>

lemma awaitSubmit_write:
  assumes r: "\<not> isControl r" and y: "yqueue y = []" and run: "awaitSubmit opts sch r y = Some (err, y')"
  shows "yqueue y' = [] \<and> (if err = None then applied r (ystore y) (ystore y') else same_data (ystore y) (ystore y'))"
proof (cases "yclosed y")
  case True
  then show ?thesis using run y by (auto simp: awaitSubmit_def submit_def)
next
  case False
  let ?n = "nat (segmentSize opts)" and ?t = "nat (snapshotThreshold opts)"
  have dr: "drainWrites r [] = ([r], None, [])" by (simp add: drainWrites_def)
  obtain st1 log1 ans w1 where wb: "writeBatch ?n (ystore y) (ylog y) [r] (yworld y) = Some (st1, log1, ans, w1)"
    using run False y r dr
    by (auto simp: awaitSubmit_def submit_def channelCapacity_def takeTurn_def writerTurn_def split: bind_splits)
  obtain job st2 log2 w2 where ms: "maybeSnapshot ?t st1 log1 w1 = (job, st2, log2, w2)" by (metis prod_cases4)
  have y': "err = snd (last ans)" "ystore y' = st2" "yqueue y' = []"
    using run False y r dr wb ms
    by (auto simp: awaitSubmit_def submit_def channelCapacity_def takeTurn_def writerTurn_def)
  then show ?thesis
    using writeBatch_one [OF wb] maybeSnapshot_data [OF ms] applied_same_data same_data_trans by (auto split: if_splits)
qed

lemma lru_evict_keeps_first: "entrySize i \<le> cap \<Longrightarrow> \<exists>L'. lru_evict cap (i # L) = i # L'"
proof -
  assume fits: "entrySize i \<le> cap"
  obtain n where n: "lru_evict cap (i # L) = take n (i # L)"
    "\<forall>m. n < m \<and> m \<le> length (i # L) \<longrightarrow> cap < charge (take m (i # L))"
    using lru_evict_take by blast
  have "n \<noteq> 0"
  proof
    assume "n = 0"
    then have "cap < charge (take 1 (i # L))" using n(2) [rule_format, of 1] by simp
    then show False using fits by (simp add: charge_def)
  qed
  then show ?thesis using n(1) by (cases n) auto
qed

lemma applied_set:
  assumes wf: "wf_store st" and r: "rkind r = requestSet" "rdeadline r = 0"
    and fits: "entryOverhead + of_nat (length (rkey r)) + of_nat (length (rvalue r)) \<le> capacity (shardFor st (rkey r))"
    and a: "applied r st st'"
  shows "wf_store st' \<and> (\<exists>i. contents st' (rkey r) = Some i \<and> evalue i = rvalue r \<and> edeadline i = 0)"
proof -
  obtain st1 q w1 st2 w2 where d: "same_data st st1" "applyRequest st1 r q w1 = Some (st2, w2)" "same_data st2 st'"
    using a unfolding applied_def by blast
  let ?i = "mk_item (rkey r) (rvalue r) 0 q"
  obtain t w3 where t: "now w1 = (t, w3)" by fastforce
  have wf1: "wf_store st1" using wf same_data_facts(1) [OF d(1)] by simp
  obtain st3 where st3: "applySet st1 (rkey r) (rvalue r) 0 q t = Some st3" "wf_store st3"
    "items (shardFor st3 (rkey r)) =
       lru_evict (capacity (shardFor st1 (rkey r))) (lru_put ?i (items (shardFor st1 (rkey r))))"
    using applySet_correct [OF wf1, of "rkey r" "rvalue r" 0 q t] by (auto simp: deadlinePassed_def)
  have "st3 = st2" using d(2) st3(1) t r by (simp add: applyRequest_def)
  have "entrySize ?i \<le> capacity (shardFor st1 (rkey r))"
    using fits same_data_facts(3) [OF d(1)] by (simp add: entrySize_def)
  then obtain L where "items (shardFor st3 (rkey r)) = ?i # L"
    using st3(3) lru_evict_keeps_first unfolding lru_put_def by metis
  then have "contents st3 (rkey r) = Some ?i"
    using contents_shardFor [OF st3(2) refl, of "rkey r"] by (simp add: lru_find_def)
  then show ?thesis using \<open>st3 = st2\<close> st3(2) same_data_facts(1,2) [OF d(3)] by simp
qed

lemma applied_delete:
  assumes wf: "wf_store st" and r: "rkind r \<noteq> requestSet" and a: "applied r st st'"
  shows "wf_store st' \<and> contents st' = (contents st)(rkey r := None)"
proof -
  obtain st1 q w1 st2 w2 where d: "same_data st st1" "applyRequest st1 r q w1 = Some (st2, w2)" "same_data st2 st'"
    using a unfolding applied_def by blast
  have "st2 = applyDelete st1 (rkey r) q" using d(2) r by (simp add: applyRequest_def)
  then show ?thesis
    using applyDelete_correct [of st1 "rkey r" q] wf same_data_facts(1,2) [OF d(1)] same_data_facts(1,2) [OF d(3)] by simp
qed

text \<open>The state of a store between two calls of its only client, and what its keys hold for good.\<close>

definition idle :: "system \<Rightarrow> bool" where
  "idle y \<longleftrightarrow> wf_store (ystore y) \<and> yqueue y = []"

definition lasting :: "system \<Rightarrow> key \<Rightarrow> bytes \<Rightarrow> bool" where
  "lasting y k v \<longleftrightarrow> (\<exists>i. contents (ystore y) k = Some i \<and> evalue i = v \<and> edeadline i = 0)"

definition missing :: "system \<Rightarrow> key \<Rightarrow> bool" where
  "missing y k \<longleftrightarrow> contents (ystore y) k = None"

lemma lasting_cong: "same_data (ystore y) (ystore y') \<Longrightarrow> lasting y' = lasting y \<and> missing y' = missing y"
  using same_data_facts(2) [of "ystore y" "ystore y'"] by (simp add: lasting_def missing_def fun_eq_iff)

lemma Set_effect:
  assumes "idle y" "Set opts sch k v y = Some (err, y')"
  shows "idle y' \<and> (if err = None then lasting y' k v else same_data (ystore y) (ystore y'))"
proof (cases "setRequest (ystore y) (newResult y) k v")
  case (Inl e)
  then show ?thesis using assms by (auto simp: Set_def)
next
  case (Inr r)
  then have r: "rkind r = requestSet" "rdeadline r = 0" "rkey r = k" "rvalue r = v" "\<not> isControl r"
    "entryOverhead + of_nat (length k) + of_nat (length v) \<le> capacity (shardFor (ystore y) k)"
    by (auto simp: setRequest_def validateEntrySize_def Let_def isControl_def split: option.splits if_splits)
  have w: "yqueue y' = []" "if err = None then applied r (ystore y) (ystore y') else same_data (ystore y) (ystore y')"
    using awaitSubmit_write [OF r(5), of y opts sch err y'] assms Inr by (auto simp: Set_def idle_def split: if_splits)
  show ?thesis
  proof (cases "err = None")
    case True
    then show ?thesis using applied_set [of "ystore y" r "ystore y'"] r w assms(1) by (simp add: idle_def lasting_def)
  next
    case False
    then have "same_data (ystore y) (ystore y')" using w(2) by simp
    then show ?thesis using False w(1) assms(1) same_data_facts(1) by (auto simp: idle_def)
  qed
qed

lemma Delete_effect:
  assumes "idle y" "Delete opts sch k y = Some (None, y')"
  shows "idle y' \<and> contents (ystore y') = (contents (ystore y))(k := None)"
proof (cases "deleteRequest (newResult y) k")
  case (Inl e)
  then show ?thesis using assms by (auto simp: Delete_def)
next
  case (Inr r)
  then have r: "rkind r \<noteq> requestSet" "rkey r = k" "\<not> isControl r"
    by (auto simp: deleteRequest_def isControl_def split: option.splits)
  then show ?thesis
    using awaitSubmit_write [OF r(3), of y opts sch None y'] applied_delete [of "ystore y" r "ystore y'"] assms Inr
    by (auto simp: Delete_def idle_def)
qed

lemma Get_effect:
  assumes "idle y" "Get k y = (res, y')"
  shows "idle y' \<and> (\<forall>k' v'. lasting y k' v' \<longrightarrow> lasting y' k' v') \<and>
    (\<forall>v. lasting y k v \<longrightarrow> res = (v, True)) \<and> (missing y k \<longrightarrow> res = ([], False))"
proof -
  obtain t w where t: "now (yworld y) = (t, w)" by fastforce
  obtain st where g: "getInto (ystore y) k t = (res, st)" "y' = y\<lparr>ystore := st, yworld := w\<rparr>"
    using assms(2) t by (auto simp: Get_def split: prod.splits)
  have wf: "wf_store (ystore y)" using assms(1) by (simp add: idle_def)
  show ?thesis
    using getInto_correct [OF wf g(1)] g(2) assms(1)
    by (auto simp: idle_def lasting_def missing_def deadlinePassed_def split: if_splits option.splits)
qed

interpretation kv: key_value idle lasting missing "Set opts sch" "Delete opts sch" Get for opts sch
proof
  show "idle s' \<and> lasting s' k v" if "idle s" "Set opts sch k v s = Some (None, s')" for s s' k v
    using Set_effect [OF that] by simp
  show "idle s' \<and> (\<forall>k' v'. lasting s' k' v' = lasting s k' v') \<and> (\<forall>k'. missing s' k' = missing s k')"
    if "idle s" "Set opts sch k v s = Some (Some e, s')" for s s' k v e
    using Set_effect [OF that] lasting_cong [of s s'] by simp
  show "idle s' \<and> missing s' k \<and> (\<forall>k' v'. k' \<noteq> k \<longrightarrow> lasting s' k' v' = lasting s k' v')"
    if "idle s" "Delete opts sch k s = Some (None, s')" for s s' k
    using Delete_effect [OF that] by (auto simp: missing_def lasting_def)
  show "r = (v, True) \<and> idle s' \<and> (\<forall>k' v'. lasting s k' v' \<longrightarrow> lasting s' k' v')"
    if "idle s" "lasting s k v" "Get k s = (r, s')" for s s' k v r
    using Get_effect [OF that(1,3)] that(2) by auto
  show "r = ([], False) \<and> idle s' \<and> (\<forall>k' v'. lasting s k' v' \<longrightarrow> lasting s' k' v')"
    if "idle s" "missing s k" "Get k s = (r, s')" for s s' k r
    using Get_effect [OF that(1,3)] that(2) by auto
qed

section \<open>Calls return\<close>

lemma awaitSubmit_returns:
  assumes "idle y" "log_ok (yworld y) (ylog y) base S" "good_request r" "\<not> isControl r"
  shows "\<exists>err y'. awaitSubmit opts sch r y = Some (err, y')"
proof (cases "yclosed y")
  case True
  then show ?thesis by (simp add: awaitSubmit_def submit_def)
next
  case False
  have "\<exists>out. writeBatch (nat (segmentSize opts)) (ystore y) (ylog y) [r] (yworld y) = Some out"
  proof (cases "lastError (stats (ystore y))")
    case None
    then show ?thesis
      using writeLoop_correct [OF assms(2), of "ystore y" "[r]" "nat (segmentSize opts)"] assms(1,3)
      by (auto simp: writeBatch_def idle_def)
  qed (simp add: writeBatch_def)
  then obtain st1 log1 ans w1 where wb: "writeBatch (nat (segmentSize opts)) (ystore y) (ylog y) [r] (yworld y) =
      Some (st1, log1, ans, w1)" by (metis prod_cases4)
  obtain job st2 log2 w2 where "maybeSnapshot (nat (snapshotThreshold opts)) st1 log1 w1 = (job, st2, log2, w2)"
    by (metis prod_cases4)
  then show ?thesis
    using wb False assms
    by (simp add: awaitSubmit_def submit_def channelCapacity_def takeTurn_def writerTurn_def drainWrites_def idle_def)
qed

lemma Set_returns:
  assumes "idle y" "log_ok (yworld y) (ylog y) base S"
  shows "\<exists>err y'. Set opts sch k v y = Some (err, y')"
proof (cases "setRequest (ystore y) (newResult y) k v")
  case (Inr r)
  have "good_request r \<and> \<not> isControl r"
    using Inr by (auto simp: setRequest_def good_request_def isControl_def dest: validateEntrySize_record split: option.splits)
  then show ?thesis using awaitSubmit_returns [OF assms] Inr by (simp add: Set_def)
qed (simp add: Set_def)

text \<open>C12. A client that is alone with the store reads what it wrote. On a store with a sound log, whatever
  system calls fail, \<open>Set\<close> returns; when it returns without an error, \<open>Get\<close> gives the value, and
  gives it again; when it returns an error, every lasting entry is still read as before. After
  a \<open>Delete\<close> without an error, \<open>Get\<close> reports a miss.\<close>

theorem read_your_writes:
  assumes "idle y" "log_ok (yworld y) (ylog y) base S"
  shows "(\<exists>err y'. Set opts sch k v y = Some (err, y') \<and> idle y' \<and>
      (err = None \<longrightarrow> fst (Get k y') = (v, True) \<and> fst (Get k (snd (Get k y'))) = (v, True)) \<and>
      (err \<noteq> None \<longrightarrow> (\<forall>k' v'. lasting y k' v' \<longrightarrow> fst (Get k' y') = (v', True)))) \<and>
    (\<forall>y'. Delete opts sch k y = Some (None, y') \<longrightarrow> fst (Get k y') = ([], False))"
proof -
  obtain err y' where s: "Set opts sch k v y = Some (err, y')" using Set_returns [OF assms] by blast
  then have "idle y'" using Set_effect [OF assms(1)] by blast
  moreover have "err = None \<longrightarrow> fst (Get k y') = (v, True) \<and> fst (Get k (snd (Get k y'))) = (v, True)"
    using s kv.read_your_write [OF assms(1)] kv.read_again [OF assms(1)] by blast
  moreover have "err \<noteq> None \<longrightarrow> (\<forall>k' v'. lasting y k' v' \<longrightarrow> fst (Get k' y') = (v', True))"
    using s kv.refused_write_invisible [OF assms(1)] by blast
  ultimately show ?thesis using s kv.read_after_delete [OF assms(1)] by blast
qed

theorem read_your_writes_witness:
  "\<exists>err y'. Set (defaultOptions 2) quiet [1] [7] sample_system =
     Some (err, y') \<and> (case err of None \<Rightarrow> fst (Get [1] y') = ([7], True) | Some e \<Rightarrow> idle y')"
proof -
  have "idle sample_system" "log_ok (yworld sample_system) (ylog sample_system) 0 [new_seg 1 0]"
    using sample_log_ok sample_store_healthy by (simp_all add: idle_def sample_system_def)
  from read_your_writes [OF this, of "defaultOptions 2" "quiet" "[1]" "[7]"]
  obtain err y' where "Set (defaultOptions 2) quiet [1] [7]
      sample_system = Some (err, y')" "idle y'" "err = None \<longrightarrow> fst (Get [1] y') = ([7], True)" by blast
  then show ?thesis by (intro exI [of _ err] exI [of _ y']) (simp split: option.splits)
qed

end
