(* ===== verification/Cache_Cli.thy ===== *)
theory Cache_Cli
  imports Cache_Client
begin

text \<open>
  The command line tool \<open>src/cache/cmd/cached/main.go\<close>: the flags of its two modes, the
  interactive mode and the load generator. Arguments, input and output are bytes. The number
  and duration parsers of the standard library are arguments, with nothing assumed of them, and
  so is the text of an error in the statistics.
\<close>

section \<open>Text\<close>

definition str :: "string \<Rightarrow> bytes" where
  "str s = map (\<lambda>c. word_of_nat (of_char c)) s"

definition decimalBytes :: "u64 \<Rightarrow> bytes" where
  "decimalBytes n = str (decimal (unat n))"

text \<open>
  \<open>unicode.IsSpace\<close> on the first character of a text: its length in UTF-8 when it is white space,
  otherwise 0. The first byte of each of these sequences never occurs inside another character,
  so it is enough to look at the bytes.
\<close>

definition spaceLen :: "bytes \<Rightarrow> nat" where
  "spaceLen s =
     (if take 1 s \<in> set [[9], [10], [11], [12], [13], [32]] then 1
      else if take 2 s \<in> set [[0xC2, 0x85], [0xC2, 0xA0]] then 2
      else if take 3 s \<in> set [[0xE1, 0x9A, 0x80], [0xE2, 0x80, 0x80], [0xE2, 0x80, 0x81], [0xE2, 0x80, 0x82],
                [0xE2, 0x80, 0x83], [0xE2, 0x80, 0x84], [0xE2, 0x80, 0x85], [0xE2, 0x80, 0x86], [0xE2, 0x80, 0x87],
                [0xE2, 0x80, 0x88], [0xE2, 0x80, 0x89], [0xE2, 0x80, 0x8A], [0xE2, 0x80, 0xA8], [0xE2, 0x80, 0xA9],
                [0xE2, 0x80, 0xAF], [0xE2, 0x81, 0x9F], [0xE3, 0x80, 0x80]] then 3
      else 0)"

text \<open>\<open>strings.Fields\<close>; \<open>word\<close> is the field read so far.\<close>

function fieldsFrom :: "bytes \<Rightarrow> bytes \<Rightarrow> bytes list" where
  "fieldsFrom word s =
     (if s = [] then (if word = [] then [] else [word])
      else if 0 < spaceLen s then (if word = [] then [] else [word]) @ fieldsFrom [] (drop (spaceLen s) s)
      else fieldsFrom (word @ [hd s]) (tl s))"
  by pat_completeness auto
termination
  by (relation "measure (\<lambda>(word, s). length s)") auto

declare fieldsFrom.simps [simp del]

definition Fields :: "bytes \<Rightarrow> bytes list" where
  "Fields s = fieldsFrom [] s"

text \<open>
  \<open>bufio.Scanner\<close> with its lines: a carriage return before the line feed is dropped, a last line
  needs no line feed, and a line that fills the buffer of 64 KiB ends the scan with an error.
\<close>

definition maxScanTokenSize :: nat where
  "maxScanTokenSize = 65536"

definition dropCR :: "bytes \<Rightarrow> bytes" where
  "dropCR s = (if s \<noteq> [] \<and> last s = 13 then butlast s else s)"

function scanLines :: "bytes \<Rightarrow> bytes list \<times> bool" where
  "scanLines s =
     (if s = [] then ([], False)
      else
        let line = takeWhile (\<lambda>b. b \<noteq> 10) s
        in if maxScanTokenSize \<le> length line then ([], True)
           else case scanLines (drop (Suc (length line)) s) of (ls, long) \<Rightarrow> (dropCR line # ls, long))"
  by pat_completeness auto
termination
  by (relation "measure length") auto

declare scanLines.simps [simp del]

section \<open>Writers and errors\<close>

text \<open>
  An \<open>io.Writer\<close>: what was written to it, and for its next calls whether they fail, after how
  many bytes and how.
\<close>

record console =
  printed :: bytes
  wfaults :: "(nat \<times> errno) option list"

definition Fprint :: "bytes \<Rightarrow> console \<Rightarrow> errno option \<times> console" where
  "Fprint s out =
     (case wfaults out of
        [] \<Rightarrow> (None, out\<lparr>printed := printed out @ s\<rparr>)
      | None # fs \<Rightarrow> (None, out\<lparr>printed := printed out @ s, wfaults := fs\<rparr>)
      | Some (n, e) # fs \<Rightarrow> (Some e, out\<lparr>printed := printed out @ take n s, wfaults := fs\<rparr>))"

definition Fprintln :: "bytes \<Rightarrow> console \<Rightarrow> errno option \<times> console" where
  "Fprintln s out = Fprint (s @ [10]) out"

datatype flagError = FlagHelp | FlagSyntax bytes | FlagUndefined bytes | FlagNeedsArgument bytes | FlagInvalid bytes bytes

datatype cliError =
    UsageError string
  | UnknownMode bytes
  | UnknownCommand bytes
  | FlagFailed flagError
  | LoadOption string
  | ParseTTL bytes
  | StoreError go_error
  | InMode string cliError
  | CloseFailed go_error
  | OutputError errno
  | ScanTooLong
  | ReadError errno
  | SetFailed key go_error
  | AckFailed key errno
  | CliJoined "cliError list"

definition joinErrors :: "cliError option list \<Rightarrow> cliError option" where
  "joinErrors es = (let real = [the e. e \<leftarrow> es, e \<noteq> None] in if real = [] then None else Some (CliJoined real))"

section \<open>Flags\<close>

text \<open>A flag is its name and what its value does to the configuration; \<open>None\<close> is a value it refuses.\<close>

type_synonym 'c flagSet = "(bytes \<times> (bytes \<Rightarrow> 'c \<Rightarrow> 'c option)) list"

text \<open>\<open>FlagSet.Parse\<close>: \<open>-name=value\<close> or \<open>-name value\<close>, with one or two dashes; the first other argument or \<open>--\<close> ends the flags.\<close>

fun parseFlags :: "'c flagSet \<Rightarrow> bytes list \<Rightarrow> 'c \<Rightarrow> flagError + 'c" where
  "parseFlags formal [] config = Inr config"
| "parseFlags formal (s # args) config =
     (if length s < 2 \<or> hd s \<noteq> 45 then Inr config
      else if s = [45, 45] then Inr config
      else
        let name = (if s ! 1 = 45 then drop 2 s else drop 1 s)
        in if name = [] \<or> hd name = 45 \<or> hd name = 61 then Inl (FlagSyntax s)
           else
             let flag = takeWhile (\<lambda>b. b \<noteq> 61) name
             in case map_of formal flag of
                  None \<Rightarrow> Inl (if flag \<in> {str ''help'', str ''h''} then FlagHelp else FlagUndefined flag)
                | Some put \<Rightarrow>
                    if flag \<noteq> name then
                      (case put (drop (Suc (length flag)) name) config of
                         None \<Rightarrow> Inl (FlagInvalid (drop (Suc (length flag)) name) flag)
                       | Some config' \<Rightarrow> parseFlags formal args config')
                    else
                      case args of
                        [] \<Rightarrow> Inl (FlagNeedsArgument flag)
                      | val # args' \<Rightarrow>
                          (case put val config of
                             None \<Rightarrow> Inl (FlagInvalid val flag)
                           | Some config' \<Rightarrow> parseFlags formal args' config'))"

text \<open>\<open>strconv.ParseUint\<close> and \<open>strconv.ParseInt\<close> as the flags call them, and \<open>time.ParseDuration\<close>.\<close>

record parsers =
  parseUint64 :: "bytes \<Rightarrow> u64 option"
  parseInt :: "bytes \<Rightarrow> int option"
  ParseDuration :: "bytes \<Rightarrow> i64 option"

record storeFlags =
  fdir :: bytes
  fcapacity :: u64
  fshards :: int
  fsnapshotThreshold :: int

definition addStoreFlags :: "parsers \<Rightarrow> ('a storeFlags_scheme) flagSet" where
  "addStoreFlags ps =
     [(str ''dir'', \<lambda>v config. Some (config\<lparr>fdir := v\<rparr>)),
      (str ''capacity'', \<lambda>v config. map_option (\<lambda>n. config\<lparr>fcapacity := n\<rparr>) (parseUint64 ps v)),
      (str ''shards'', \<lambda>v config. map_option (\<lambda>n. config\<lparr>fshards := n\<rparr>) (parseInt ps v)),
      (str ''snapshot-threshold'', \<lambda>v config. map_option (\<lambda>n. config\<lparr>fsnapshotThreshold := n\<rparr>) (parseInt ps v))]"

definition storeOptions :: "('a storeFlags_scheme) \<Rightarrow> option_arg option list" where
  "storeOptions config =
     (if fcapacity config \<noteq> 0 then [Some (WithCapacity (fcapacity config))] else []) @
     (if fshards config \<noteq> 0 then [Some (WithShards (fshards config))] else []) @
     (if fsnapshotThreshold config \<noteq> 0 then [Some (WithSnapshotThreshold (fsnapshotThreshold config))] else [])"

text \<open>\<open>storeFlags.open\<close>; \<open>procs\<close> is \<open>GOMAXPROCS\<close>.\<close>

definition openStore :: "int \<Rightarrow> (store \<Rightarrow> key list list) \<Rightarrow> ('a storeFlags_scheme) \<Rightarrow> world \<Rightarrow>
    ((cliError + options \<times> system) \<times> world) option" where
  "openStore procs orders config w =
     (if fdir config = [] then Some (Inl (UsageError ''-dir is required''), w)
      else
        do {
          (r, w1) \<leftarrow> Open True procs (storeOptions config) orders w;
          Some (case r of
                  Inl e \<Rightarrow> Inl (StoreError e)
                | Inr (opts, lock, st, log) \<Rightarrow> Inr (opts, startStore lock st log w1), w1)
        })"

definition closeStore :: "options \<Rightarrow> schedule \<Rightarrow> console \<Rightarrow> system \<Rightarrow> (cliError option \<times> console \<times> system) option" where
  "closeStore opts sch diagnostics y =
     do {
       (err, y1) \<leftarrow> Close opts sch y;
       Some (case err of
               Some e \<Rightarrow> (Some (CloseFailed e), diagnostics, y1)
             | None \<Rightarrow>
                 (case Fprintln (str ''cached: store closed cleanly'') diagnostics of
                    (e, diag) \<Rightarrow> (map_option OutputError e, diag, y1)))
     }"

section \<open>The interactive mode\<close>

text \<open>What a run is given beside its input: options, parsers and the text of \<open>last_error\<close>, quoted.\<close>

record replEnv =
  ropts :: options
  rparsers :: parsers
  rquote :: "go_error option \<Rightarrow> bytes"

definition statsLine :: "(go_error option \<Rightarrow> bytes) \<Rightarrow> store \<Rightarrow> bytes" where
  "statsLine quote st =
     str ''entries='' @ decimalBytes (Len st) @ str '' bytes='' @ decimalBytes (Bytes st) @
     str '' hits='' @ decimalBytes (Hits (Stats st)) @ str '' misses='' @ decimalBytes (Misses (Stats st)) @
     str '' expiries='' @ decimalBytes (Expiries (Stats st)) @
     str '' evictions='' @ decimalBytes (Evictions (Stats st)) @
     str '' records='' @ decimalBytes (RecordsWritten (Stats st)) @
     str '' bytes_written='' @ decimalBytes (BytesWritten (Stats st)) @
     str '' fsyncs='' @ decimalBytes (Fsyncs (Stats st)) @
     str '' snapshots='' @ decimalBytes (Snapshots (Stats st)) @
     str '' last_error='' @ quote (LastError (Stats st))"

text \<open>The answer \<open>OK\<close> of a write, or its error.\<close>

definition replyOK :: "console \<Rightarrow> go_error option \<times> system \<Rightarrow> (bool \<times> cliError option) \<times> console \<times> system" where
  "replyOK output = (\<lambda>(err, y).
     case err of
       Some e \<Rightarrow> ((False, Some (StoreError e)), output, y)
     | None \<Rightarrow>
         (case Fprintln (str ''OK'') output of
            (e, out) \<Rightarrow> ((False, map_option OutputError e), out, y)))"

definition replyLine :: "bytes \<Rightarrow> console \<Rightarrow> system \<Rightarrow> (bool \<times> cliError option) \<times> console \<times> system" where
  "replyLine line output y =
     (case Fprintln line output of (e, out) \<Rightarrow> ((False, map_option OutputError e), out, y))"

text \<open>\<open>executeREPL\<close>: whether to stop, the error, and the state; \<open>None\<close> is a call to the store that never returns.\<close>

definition executeREPL :: "replEnv \<Rightarrow> schedule \<Rightarrow> bytes \<Rightarrow> console \<Rightarrow> system \<Rightarrow>
    ((bool \<times> cliError option) \<times> console \<times> system) option" where
  "executeREPL re sch line output y =
     (let fields = Fields line; opts = ropts re;
          fail = (\<lambda>e. Some ((False, Some e), output, y))
      in if fields = [] then Some ((False, None), output, y)
         else if hd fields = str ''set'' then
           (if length fields \<noteq> 3 \<and> length fields \<noteq> 4 then fail (UsageError ''set KEY VALUE [TTL]'')
            else if length fields = 4 then
              (case ParseDuration (rparsers re) (fields ! 3) of
                 None \<Rightarrow> fail (ParseTTL (fields ! 3))
               | Some ttl \<Rightarrow> map_option (replyOK output) (SetTTL opts sch (fields ! 1) (fields ! 2) ttl y))
            else map_option (replyOK output) (Set opts sch (fields ! 1) (fields ! 2) y))
         else if hd fields = str ''get'' then
           (if length fields \<noteq> 2 then fail (UsageError ''get KEY'')
            else
              case Get (fields ! 1) y of
                ((val, ok), y1) \<Rightarrow> Some (replyLine (if ok then val else str ''(nil)'') output y1))
         else if hd fields = str ''delete'' then
           (if length fields \<noteq> 2 then fail (UsageError ''delete KEY'')
            else map_option (replyOK output) (Delete opts sch (fields ! 1) y))
         else if hd fields = str ''stats'' then
           (if length fields \<noteq> 1 then fail (UsageError ''stats'')
            else Some (replyLine (statsLine (rquote re) (ystore y)) output y))
         else if hd fields = str ''sync'' then
           (if length fields \<noteq> 1 then fail (UsageError ''sync'')
            else map_option (replyOK output) (Sync opts sch y))
         else if hd fields = str ''quit'' \<or> hd fields = str ''exit'' then Some ((True, None), output, y)
         else fail (UnknownCommand (hd fields)))"

text \<open>
  What happens next while \<open>serveREPL\<close> waits: the context is cancelled, the other goroutines of the
  store do something, or the scanner delivers (the next line, or its result after the last).
\<close>

datatype choice = Cancel | Others "system \<Rightarrow> system" | Deliver schedule

text \<open>
  \<open>serveREPL\<close>. The error of a command goes to \<open>diagnostics\<close>, as \<open>text\<close> renders it. \<open>None\<close> is a
  loop that is still waiting when the choices are used up, or a call that never returns.
\<close>

fun serveREPL :: "replEnv \<Rightarrow> (cliError \<Rightarrow> bytes) \<Rightarrow> bytes list \<Rightarrow> cliError option \<Rightarrow> choice list \<Rightarrow> console \<Rightarrow> console \<Rightarrow>
    system \<Rightarrow> (cliError option \<times> console \<times> console \<times> system) option" where
  "serveREPL re text lines scanResult [] output diagnostics y = None"
| "serveREPL re text lines scanResult (Cancel # cs) output diagnostics y = Some (None, output, diagnostics, y)"
| "serveREPL re text lines scanResult (Others f # cs) output diagnostics y =
     serveREPL re text lines scanResult cs output diagnostics (f y)"
| "serveREPL re text lines scanResult (Deliver sch # cs) output diagnostics y =
     (case lines of
        [] \<Rightarrow> Some (scanResult, output, diagnostics, y)
      | line # rest \<Rightarrow>
          do {
            ((stop, err), out, y1) \<leftarrow> executeREPL re sch line output y;
            (case err of
               None \<Rightarrow>
                 if stop then Some (None, out, diagnostics, y1)
                 else serveREPL re text rest scanResult cs out diagnostics y1
             | Some e \<Rightarrow>
                 (case Fprint (str ''error: '' @ text e @ [10]) diagnostics of
                    (Some we, diag) \<Rightarrow> Some (Some (OutputError we), out, diag, y1)
                  | (None, diag) \<Rightarrow>
                      if stop then Some (None, out, diag, y1)
                      else serveREPL re text rest scanResult cs out diag y1))
          })"

text \<open>The scanner goroutine of \<open>runREPL\<close>: the lines it delivers and its result.\<close>

definition scanInput :: "bytes \<Rightarrow> errno option \<Rightarrow> bytes list \<times> cliError option" where
  "scanInput input readErr =
     (case scanLines input of
        (ls, long) \<Rightarrow> (ls, if long then Some ScanTooLong else map_option ReadError readErr))"

record cliInput =
  iparsers :: parsers
  iquote :: "go_error option \<Rightarrow> bytes"
  itext :: "cliError \<Rightarrow> bytes"
  iprocs :: int
  iorders :: "store \<Rightarrow> key list list"
  iclose :: schedule

definition runREPL :: "cliInput \<Rightarrow> bytes list \<Rightarrow> bytes \<Rightarrow> errno option \<Rightarrow> choice list \<Rightarrow> console \<Rightarrow> console \<Rightarrow> world \<Rightarrow>
    (cliError option \<times> console \<times> console \<times> world) option" where
  "runREPL ci args input readErr cs output diagnostics w =
     (case parseFlags (addStoreFlags (iparsers ci)) args
             \<lparr>fdir = [], fcapacity = 0, fshards = 0, fsnapshotThreshold = 0\<rparr> of
        Inl FlagHelp \<Rightarrow> Some (None, output, diagnostics, w)
      | Inl e \<Rightarrow> Some (Some (FlagFailed e), output, diagnostics, w)
      | Inr config \<Rightarrow>
          do {
            (r, w1) \<leftarrow> openStore (iprocs ci) (iorders ci) config w;
            (case r of
               Inl e \<Rightarrow> Some (Some (InMode ''cached repl'' e), output, diagnostics, w1)
             | Inr (opts, y) \<Rightarrow>
                 (case scanInput input readErr of
                    (ls, scanResult) \<Rightarrow>
                      do {
                        (runErr, out, diag, y1) \<leftarrow>
                          serveREPL \<lparr>ropts = opts, rparsers = iparsers ci, rquote = iquote ci\<rparr> (itext ci) ls scanResult cs
                            output diagnostics y;
                        (closeErr, diag2, y2) \<leftarrow> closeStore opts (iclose ci) diag y1;
                        Some (joinErrors [runErr, closeErr], out, diag2, yworld y2)
                      }))
          })"

end
