(* ===== verification/Cache_Load.thy ===== *)
theory Cache_Load
  imports Cache_Cli
begin

text \<open>
  The load generator of \<open>src/cache/cmd/cached/main.go\<close>: its flags and their checks, the workers,
  and the end of a run. The workers, the writer and the other goroutines run as the steps of
  a relation; a worker that has sent a write waits until the writer has answered it.
\<close>

section \<open>Keys and values\<close>

definition loadKey :: "u64 \<Rightarrow> key" where
  "loadKey sequence = str (''key-'' @ pad20 (unat sequence))"

record loadFlags = storeFlags +
  readPercent :: int
  workers :: int
  keyspace :: u64
  valueBytes :: int
  ttl :: i64

text \<open>The key of the write with the number \<open>n\<close>, and the key of a read from a random number below \<open>keyspace\<close>.\<close>

definition writeKey :: "loadFlags \<Rightarrow> u64 \<Rightarrow> key" where
  "writeKey config n = loadKey ((n - 1) mod keyspace config + 1)"

definition readKey :: "u64 \<Rightarrow> key" where
  "readKey random = loadKey (random + 1)"

text \<open>The key itself, or a slice of \<open>valueBytes\<close> zero bytes with the key copied into it.\<close>

definition loadValue :: "loadFlags \<Rightarrow> key \<Rightarrow> bytes" where
  "loadValue config key =
     (if valueBytes config \<noteq> 0 then take (nat (valueBytes config)) (key @ replicate (nat (valueBytes config)) 0)
      else key)"

section \<open>Before the run\<close>

definition addLoadFlags :: "parsers \<Rightarrow> loadFlags flagSet" where
  "addLoadFlags ps =
     addStoreFlags ps @
     [(str ''read-percent'', \<lambda>v config. map_option (\<lambda>n. config\<lparr>readPercent := n\<rparr>) (parseInt ps v)),
      (str ''workers'', \<lambda>v config. map_option (\<lambda>n. config\<lparr>workers := n\<rparr>) (parseInt ps v)),
      (str ''keyspace'', \<lambda>v config. map_option (\<lambda>n. config\<lparr>keyspace := n\<rparr>) (parseUint64 ps v)),
      (str ''value-bytes'', \<lambda>v config. map_option (\<lambda>n. config\<lparr>valueBytes := n\<rparr>) (parseInt ps v)),
      (str ''ttl'', \<lambda>v config. map_option (\<lambda>n. config\<lparr>ttl := n\<rparr>) (ParseDuration ps v))]"

definition defaultLoadFlags :: loadFlags where
  "defaultLoadFlags =
     \<lparr>fdir = [], fcapacity = 0, fshards = 0, fsnapshotThreshold = 0,
      readPercent = 0, workers = 1, keyspace = 10000, valueBytes = 0, ttl = 0\<rparr>"

definition checkLoadFlags :: "loadFlags \<Rightarrow> cliError option" where
  "checkLoadFlags config =
     (if readPercent config < 0 \<or> 100 < readPercent config
      then Some (LoadOption ''-read-percent must be between 0 and 100'')
      else if workers config \<le> 0 then Some (LoadOption ''-workers must be positive'')
      else if keyspace config = 0 then Some (LoadOption ''-keyspace must be positive'')
      else if valueBytes config < 0 then Some (LoadOption ''-value-bytes must not be negative'')
      else if ttl config <s 0 then Some (LoadOption ''-ttl must not be negative'')
      else None)"

text \<open>\<open>runLoad\<close> up to the open store: its early result, or the flags, options and store of the run.\<close>

definition beginLoad :: "cliInput \<Rightarrow> bytes list \<Rightarrow> world \<Rightarrow>
    ((cliError option + loadFlags \<times> options \<times> system) \<times> world) option" where
  "beginLoad ci args w =
     (case parseFlags (addLoadFlags (iparsers ci)) args defaultLoadFlags of
        Inl FlagHelp \<Rightarrow> Some (Inl None, w)
      | Inl e \<Rightarrow> Some (Inl (Some (FlagFailed e)), w)
      | Inr config \<Rightarrow>
          (case checkLoadFlags config of
             Some e \<Rightarrow> Some (Inl (Some e), w)
           | None \<Rightarrow>
               do {
                 (r, w1) \<leftarrow> openStore (iprocs ci) (iorders ci) config w;
                 Some (case r of
                         Inl e \<Rightarrow> Inl (Some (InMode ''cached load'' e))
                       | Inr (opts, y) \<Rightarrow> Inr (config, opts, y), w1)
               }))"

section \<open>The workers\<close>

text \<open>
  A worker loops, waits for the answer to a request, or has returned. \<open>lsequence\<close> is the atomic
  counter, \<open>lfailures\<close> the channel of capacity one, \<open>lcancelled\<close> whether \<open>workCtx\<close> is done.
\<close>

datatype phase = Looping | Waiting writeRequest | Returned

record load =
  lsys :: system
  lsequence :: u64
  loutput :: console
  lfailures :: "cliError option"
  lcancelled :: bool
  lphase :: "nat \<Rightarrow> phase"

definition startLoad :: "console \<Rightarrow> system \<Rightarrow> load" where
  "startLoad output y =
     \<lparr>lsys = y, lsequence = 0, loutput = output, lfailures = None, lcancelled = False, lphase = \<lambda>_. Looping\<rparr>"

text \<open>\<open>reportLoadFailure\<close>: the first failure stays in the channel, later ones are dropped.\<close>

definition reportLoadFailure :: "cliError \<Rightarrow> load \<Rightarrow> load" where
  "reportLoadFailure err l =
     l\<lparr>lfailures := (case lfailures l of None \<Rightarrow> Some err | Some e \<Rightarrow> Some e), lcancelled := True\<rparr>"

definition failWorker :: "nat \<Rightarrow> cliError \<Rightarrow> load \<Rightarrow> load" where
  "failWorker i err l = (reportLoadFailure err l)\<lparr>lphase := (lphase l)(i := Returned)\<rparr>"

text \<open>The branch of a read.\<close>

definition workerRead :: "u64 \<Rightarrow> load \<Rightarrow> load" where
  "workerRead random l = l\<lparr>lsys := snd (Get (readKey random) (lsys l))\<rparr>"

text \<open>The request of the next write, with the clock read as \<open>SetTTL\<close> does.\<close>

definition loadRequest :: "loadFlags \<Rightarrow> key \<Rightarrow> system \<Rightarrow> writeRequest res \<times> system" where
  "loadRequest config key y =
     (let val = loadValue config key
      in if ttl config = 0 then (setRequest (ystore y) (newResult y) key val, y)
         else case now (yworld y) of
                (t, w) \<Rightarrow> (setTTLRequest (ystore y) (newResult y) key val (ttl config) t, y\<lparr>yworld := w\<rparr>))"

text \<open>The branch of a write up to the wait for the answer; \<open>None\<close> while the channel is full.\<close>

definition workerSend :: "loadFlags \<Rightarrow> nat \<Rightarrow> load \<Rightarrow> load option" where
  "workerSend config i l =
     (let n = lsequence l + 1; key = writeKey config n; l1 = l\<lparr>lsequence := n\<rparr>
      in case loadRequest config key (lsys l) of
           (Inl e, y) \<Rightarrow> Some (failWorker i (SetFailed key e) l1)
         | (Inr request, y) \<Rightarrow>
             (case submit request y of
                None \<Rightarrow> None
              | Some (Inl e) \<Rightarrow> Some (failWorker i (SetFailed key e) (l1\<lparr>lsys := y\<rparr>))
              | Some (Inr y1) \<Rightarrow> Some (l1\<lparr>lsys := y1, lphase := (lphase l)(i := Waiting request)\<rparr>)))"

text \<open>The rest of the branch, with the answer: the key is printed when the write succeeded.\<close>

definition workerAnswer :: "nat \<Rightarrow> writeRequest \<Rightarrow> go_error option \<Rightarrow> load \<Rightarrow> load" where
  "workerAnswer i request writeErr l =
     (case writeErr of
        Some e \<Rightarrow> failWorker i (SetFailed (rkey request) e) l
      | None \<Rightarrow>
          (case Fprintln (rkey request) (loutput l) of
             (Some e, out) \<Rightarrow> failWorker i (AckFailed (rkey request) e) (l\<lparr>loutput := out\<rparr>)
           | (None, out) \<Rightarrow> l\<lparr>loutput := out, lphase := (lphase l)(i := Looping)\<rparr>))"

text \<open>
  A step of the run: an interrupt, the next step of a worker, or a step of the store's own
  goroutines, which accept no requests. The two draws of a worker are open.
\<close>

inductive load_step :: "loadFlags \<Rightarrow> nat \<Rightarrow> nat \<Rightarrow> load \<Rightarrow> load \<Rightarrow> bool" for config segSize threshold where
  interrupt: "load_step config segSize threshold l (l\<lparr>lcancelled := True\<rparr>)"
| stop: "int i < workers config \<Longrightarrow> lphase l i = Looping \<Longrightarrow> lcancelled l \<Longrightarrow>
     load_step config segSize threshold l (l\<lparr>lphase := (lphase l)(i := Returned)\<rparr>)"
| read: "int i < workers config \<Longrightarrow> lphase l i = Looping \<Longrightarrow> \<not> lcancelled l \<Longrightarrow> 0 \<le> draw \<Longrightarrow> draw < 100 \<Longrightarrow>
     draw < readPercent config \<Longrightarrow> random < keyspace config \<Longrightarrow>
     load_step config segSize threshold l (workerRead random l)"
| send: "int i < workers config \<Longrightarrow> lphase l i = Looping \<Longrightarrow> \<not> lcancelled l \<Longrightarrow> 0 \<le> draw \<Longrightarrow> draw < 100 \<Longrightarrow>
     \<not> draw < readPercent config \<Longrightarrow> workerSend config i l = Some l' \<Longrightarrow>
     load_step config segSize threshold l l'"
| answer: "int i < workers config \<Longrightarrow> lphase l i = Waiting request \<Longrightarrow>
     (rid request, writeErr) \<in> set (yanswers (lsys l)) \<Longrightarrow>
     load_step config segSize threshold l (workerAnswer i request writeErr l)"
| system: "sys_step segSize threshold (lsys l) y \<Longrightarrow> yaccepted y = yaccepted (lsys l) \<Longrightarrow>
     load_step config segSize threshold l (l\<lparr>lsys := y\<rparr>)"

section \<open>After the run\<close>

text \<open>
  The end of \<open>runLoad\<close>, when the workers have returned. \<open>interrupted\<close>: the \<open>select\<close> took the
  cancelled context and not a failure.
\<close>

definition loadReport :: "store \<Rightarrow> bytes" where
  "loadReport st =
     str ''cached load: reads='' @ decimalBytes (hits (stats st) + misses (stats st)) @
     str '' writes='' @ decimalBytes (recordsWritten (stats st)) @
     str '' hits='' @ decimalBytes (hits (stats st)) @ str '' misses='' @ decimalBytes (misses (stats st)) @ [10]"

definition finishLoad :: "options \<Rightarrow> schedule \<Rightarrow> bool \<Rightarrow> console \<Rightarrow> load \<Rightarrow>
    (cliError option \<times> console \<times> system) option" where
  "finishLoad opts sch interrupted diagnostics l =
     (case Fprint (loadReport (ystore (lsys l))) diagnostics of
        (reportErr, diag) \<Rightarrow>
          do {
            (closeErr, diag2, y) \<leftarrow> closeStore opts sch diag (lsys l);
            Some (joinErrors [if interrupted then None else lfailures l, map_option OutputError reportErr, closeErr],
                  diag2, y)
          })"

section \<open>Dispatch\<close>

datatype cliMode = ReplMode "bytes list" | LoadMode "bytes list"

text \<open>\<open>run\<close> up to the call of the mode.\<close>

fun runMode :: "bytes list \<Rightarrow> cliError + cliMode" where
  "runMode [] = Inl (UsageError ''cached repl -dir DIRECTORY | cached load -dir DIRECTORY [options]'')"
| "runMode (mode # args) =
     (if mode = str ''repl'' then Inr (ReplMode args)
      else if mode = str ''load'' then Inr (LoadMode args)
      else Inl (UnknownMode mode))"

end
