(* ===== verification/Cache_Cli_Props.thy ===== *)
theory Cache_Cli_Props
  imports Cache_Load Cache_Client_Props
begin

text \<open>
  The command line tool: the words of a line, what a session prints, the keys of the load
  generator, and that it reports only writes that were acknowledged.
\<close>

section \<open>A sample\<close>

definition sample_repl :: replEnv where
  "sample_repl = \<lparr>ropts = defaultOptions 2,
     rparsers = \<lparr>parseUint64 = \<lambda>_. None, parseInt = \<lambda>_. None, ParseDuration = \<lambda>_. None\<rparr>, rquote = \<lambda>_. []\<rparr>"

definition sample_console :: console where
  "sample_console = \<lparr>printed = [], wfaults = []\<rparr>"

section \<open>Words\<close>

definition noSpace :: "bytes \<Rightarrow> bool" where
  "noSpace word \<longleftrightarrow> (\<forall>i<length word. spaceLen (drop i word) = 0)"

lemma noSpace_simps [simp]: "noSpace []" "noSpace (b # w) \<longleftrightarrow> spaceLen (b # w) = 0 \<and> noSpace w"
  by (auto simp: noSpace_def less_Suc_eq_0_disj)

lemma spaceLen_Nil [simp]: "spaceLen [] = 0"
  by (simp add: spaceLen_def)

lemma spaceLen_prefix: "spaceLen (s @ t) = 0 \<Longrightarrow> spaceLen s = 0"
proof (rule ccontr)
  assume z: "spaceLen (s @ t) = 0" and n: "spaceLen s \<noteq> 0"
  have "take n (s @ t) = take n s" if "length (take n s) = n" for n using that by simp
  then show False
    using z n by (cases s; cases "tl s"; cases "tl (tl s)") (auto simp: spaceLen_def split: if_splits)
qed

lemma spaceLen_before_blank: "s \<noteq> [] \<Longrightarrow> spaceLen s = 0 \<Longrightarrow> spaceLen (s @ 32 # rest) = 0"
  by (cases s; cases "tl s"; cases "tl (tl s)") (auto simp: spaceLen_def split: if_splits)

lemma fieldsFrom_word:
  "\<forall>i<length w. spaceLen (drop i w @ s) = 0 \<Longrightarrow> fieldsFrom word (w @ s) = fieldsFrom (word @ w) s"
proof (induction w arbitrary: word)
  case (Cons b w)
  have "spaceLen (b # w @ s) = 0" using Cons.prems by force
  then have "fieldsFrom word ((b # w) @ s) = fieldsFrom (word @ [b]) (w @ s)" by (subst fieldsFrom.simps) simp
  moreover have "\<forall>i<length w. spaceLen (drop i w @ s) = 0" using Cons.prems by force
  ultimately show ?case using Cons.IH by simp
qed simp

text \<open>The words \<open>ws\<close> with a blank between any two.\<close>

fun joinWords :: "bytes list \<Rightarrow> bytes" where
  "joinWords [] = []"
| "joinWords [w] = w"
| "joinWords (w # ws) = w @ 32 # joinWords ws"

lemma spaceLen_blank: "spaceLen (32 # s) = 1"
  by (simp add: spaceLen_def)

lemma fieldsFrom_join: "\<forall>w\<in>set ws. w \<noteq> [] \<and> noSpace w \<Longrightarrow> fieldsFrom [] (joinWords ws) = ws"
proof (induction ws rule: joinWords.induct)
  case (2 w)
  then have "fieldsFrom [] (w @ []) = fieldsFrom ([] @ w) []" by (intro fieldsFrom_word) (simp add: noSpace_def)
  then show ?case using 2 by (simp add: fieldsFrom.simps [of w])
next
  case (3 w v vs)
  have "fieldsFrom [] (w @ 32 # joinWords (v # vs)) = fieldsFrom ([] @ w) (32 # joinWords (v # vs))"
    using 3(2) spaceLen_before_blank by (intro fieldsFrom_word) (auto simp: noSpace_def)
  also have "\<dots> = w # fieldsFrom [] (joinWords (v # vs))"
    using 3(2) by (subst fieldsFrom.simps) (simp add: spaceLen_blank)
  finally show ?case using 3 by simp
qed (simp add: fieldsFrom.simps)

lemma fieldsFrom_clean:
  "\<forall>i<length word. spaceLen (drop i word @ s) = 0 \<Longrightarrow> \<forall>w\<in>set (fieldsFrom word s). w \<noteq> [] \<and> noSpace w"
proof (induction word s rule: fieldsFrom.induct)
  case (1 word s)
  have nw: "noSpace word" using 1(3) spaceLen_prefix unfolding noSpace_def by blast
  show ?case
  proof (cases "s = [] \<or> 0 < spaceLen s")
    case True
    then show ?thesis using 1(1) nw by (subst fieldsFrom.simps) auto
  next
    case False
    have "spaceLen (drop i (word @ [hd s]) @ tl s) = 0" if "i < length (word @ [hd s])" for i
      using 1(3) False that by (cases "i = length word") auto
    then show ?thesis using 1(2) False by (subst fieldsFrom.simps) auto
  qed
qed

lemma Fields_words: "w \<in> set (Fields line) \<Longrightarrow> w \<noteq> [] \<and> noSpace w"
  using fieldsFrom_clean [of "[]" line] by (simp add: Fields_def)

lemma Fields_joinWords: "\<forall>w\<in>set ws. w \<noteq> [] \<and> noSpace w \<Longrightarrow> Fields (joinWords ws) = ws"
  by (simp add: Fields_def fieldsFrom_join)

lemma command_words [simp]:
  "str ''get'' \<noteq> str ''set''" "str ''delete'' \<noteq> str ''set''" "str ''delete'' \<noteq> str ''get''"
  "noSpace (str ''set'')" "noSpace (str ''get'')" "noSpace (str ''delete'')"
  "str ''set'' \<noteq> []" "str ''get'' \<noteq> []" "str ''delete'' \<noteq> []"
  by (simp_all add: str_def spaceLen_def)

text \<open>C39. A line of the interactive mode reaches the store as it was meant. A key and a value without white
  space, Unicode spaces included, arrive at \<open>Set\<close>, \<open>Get\<close> and \<open>Delete\<close> as the same bytes; no word the
  tool ever passes on holds white space; and a line of more than four words that is not a request
  to quit is refused with an error, with nothing printed and the store untouched.\<close>

theorem repl_lines_reach_the_store:
  assumes "k \<noteq> []" "noSpace k" "v \<noteq> []" "noSpace v"
  shows "executeREPL re sch (joinWords [str ''set'', k, v]) out y = map_option (replyOK out) (Set (ropts re) sch k v y) \<and>
    executeREPL re sch (joinWords [str ''delete'', k]) out y = map_option (replyOK out) (Delete (ropts re) sch k y) \<and>
    executeREPL re sch (joinWords [str ''get'', k]) out y =
      (case Get k y of ((val, found), y1) \<Rightarrow> Some (replyLine (if found then val else str ''(nil)'') out y1)) \<and>
    (\<forall>w\<in>set (Fields line). w \<noteq> [] \<and> noSpace w) \<and>
    (4 < length (Fields line) \<and> hd (Fields line) \<notin> {str ''quit'', str ''exit''} \<longrightarrow>
       (\<exists>e. executeREPL re sch line out y = Some ((False, Some e), out, y)))"
proof -
  have f: "Fields (joinWords [str ''set'', k, v]) = [str ''set'', k, v]"
    "Fields (joinWords [str ''delete'', k]) = [str ''delete'', k]"
    "Fields (joinWords [str ''get'', k]) = [str ''get'', k]"
    using assms by (simp_all only: Fields_joinWords list.set ball_simps command_words simp_thms)
  have "executeREPL re sch (joinWords [str ''set'', k, v]) out y = map_option (replyOK out) (Set (ropts re) sch k v y)"
    "executeREPL re sch (joinWords [str ''delete'', k]) out y = map_option (replyOK out) (Delete (ropts re) sch k y)"
    "executeREPL re sch (joinWords [str ''get'', k]) out y =
      (case Get k y of ((val, found), y1) \<Rightarrow> Some (replyLine (if found then val else str ''(nil)'') out y1))"
    by (simp_all add: executeREPL_def f command_words del: joinWords.simps)
  moreover have "\<exists>e. executeREPL re sch line out y = Some ((False, Some e), out, y)"
    if "4 < length (Fields line)" "hd (Fields line) \<notin> {str ''quit'', str ''exit''}"
    using that by (auto simp: executeREPL_def Let_def)
  ultimately show ?thesis using Fields_words by blast
qed

theorem repl_lines_reach_the_store_witness:
  "executeREPL sample_repl quiet (joinWords [str ''set'', [0xE2, 0x82, 0xAC], [98]]) sample_console sample_system =
     map_option (replyOK sample_console) (Set (defaultOptions 2) quiet [0xE2, 0x82, 0xAC] [98] sample_system)"
proof -
  have w: "[0xE2, 0x82, 0xAC] \<noteq> ([] :: bytes)" "noSpace [0xE2, 0x82, 0xAC]" "[98] \<noteq> ([] :: bytes)" "noSpace [98]"
    by (simp_all add: spaceLen_def)
  show ?thesis
    using repl_lines_reach_the_store [OF w, of sample_repl quiet sample_console sample_system "[]"]
    by (simp add: sample_repl_def)
qed

section \<open>A session\<close>

lemma Fprint_works: "wfaults out = [] \<Longrightarrow> Fprint s out = (None, out\<lparr>printed := printed out @ s\<rparr>)"
  by (simp add: Fprint_def)

lemma executeREPL_set:
  assumes "Fields line = [str ''set'', k, v]" "Set (ropts re) sch k v y = Some (err, y1)" "wfaults out = []"
  shows "executeREPL re sch line out y =
    Some ((False, map_option StoreError err), if err = None then out\<lparr>printed := printed out @ str ''OK'' @ [10]\<rparr> else out, y1)"
  using assms by (simp add: executeREPL_def replyOK_def Fprintln_def Fprint_works split: option.splits)

lemma executeREPL_get:
  assumes "Fields line = [str ''get'', k]" "Get k y = ((v, found), y1)" "wfaults out = []"
  shows "executeREPL re sch line out y =
    Some ((False, None), out\<lparr>printed := printed out @ (if found then v else str ''(nil)'') @ [10]\<rparr>, y1)"
  using assms by (simp add: executeREPL_def replyLine_def Fprintln_def Fprint_works)

text \<open>C14. A session of the interactive mode. On a store with a sound log, whatever system calls fail, a line
  that sets a key and a line that gets it are served one after the other, and the loop goes
  on with the next line. Either the set succeeds and the session prints \<open>OK\<close> and the value, or
  it fails, the error goes to the diagnostics, and no lasting entry of the store has changed.\<close>

theorem repl_session:
  assumes "idle y" "log_ok (yworld y) (ylog y) base S" "wfaults out = []" "wfaults diag = []"
    "Fields l1 = [str ''set'', k, v]" "Fields l2 = [str ''get'', k]"
  shows "\<exists>err shown y'. idle y' \<and> (err = None \<longrightarrow> shown = str ''OK'' @ [10] @ v @ [10]) \<and>
    (err \<noteq> None \<longrightarrow> (\<forall>k' v'. lasting y k' v' \<longrightarrow> lasting y' k' v')) \<and>
    serveREPL re text (l1 # l2 # ls) scanResult (Deliver s1 # Deliver s2 # cs) out diag y =
    serveREPL re text ls scanResult cs (out\<lparr>printed := printed out @ shown\<rparr>)
      (case err of None \<Rightarrow> diag
       | Some e \<Rightarrow> diag\<lparr>printed := printed diag @ str ''error: '' @ text (StoreError e) @ [10]\<rparr>) y'"
proof -
  obtain err y1 where s: "Set (ropts re) s1 k v y = Some (err, y1)" using Set_returns [OF assms(1,2)] by blast
  note e = Set_effect [OF assms(1) s]
  obtain val found y2 where g: "Get k y1 = ((val, found), y2)" by (metis prod.exhaust)
  note ge = Get_effect [OF conjunct1 [OF e] g]
  let ?shown = "(if err = None then str ''OK'' @ [10] else []) @ (if found then val else str ''(nil)'') @ [10]"
  have ok: "err = None \<longrightarrow> ?shown = str ''OK'' @ [10] @ v @ [10]" using e ge by auto
  have same: "err \<noteq> None \<longrightarrow> (\<forall>k' v'. lasting y k' v' \<longrightarrow> lasting y2 k' v')"
    using e ge lasting_cong [of y y1] by auto
  have x1: "executeREPL re s1 l1 out y = Some ((False, map_option StoreError err),
      if err = None then out\<lparr>printed := printed out @ str ''OK'' @ [10]\<rparr> else out, y1)"
    by (rule executeREPL_set [OF assms(5) s assms(3)])
  have x2: "executeREPL re s2 l2 out' y1 = Some ((False, None), out'\<lparr>printed := printed out' @
      (if found then val else str ''(nil)'') @ [10]\<rparr>, y2)" if "wfaults out' = []" for out'
    by (rule executeREPL_get [OF assms(6) g that])
  show ?thesis
  proof (intro exI conjI)
    show "idle y2" using ge by blast
    show "serveREPL re text (l1 # l2 # ls) scanResult (Deliver s1 # Deliver s2 # cs) out diag y =
      serveREPL re text ls scanResult cs (out\<lparr>printed := printed out @ ?shown\<rparr>)
        (case err of None \<Rightarrow> diag
         | Some e \<Rightarrow> diag\<lparr>printed := printed diag @ str ''error: '' @ text (StoreError e) @ [10]\<rparr>) y2"
      using x1 x2 assms(3,4) by (simp add: Fprint_works split: option.splits)
  qed (use ok same in blast)+
qed

theorem repl_session_witness:
  "\<exists>out diag y. serveREPL sample_repl (\<lambda>_. []) [joinWords [str ''set'', [97], [98]], joinWords [str ''get'', [97]]] None
       [Deliver quiet, Deliver quiet, Cancel] sample_console sample_console sample_system =
     Some (None, out, diag, y) \<and> (printed out = str ''OK'' @ [10, 98, 10] \<or> printed diag = str ''error: '' @ [10])"
proof -
  have y: "idle sample_system" "log_ok (yworld sample_system) (ylog sample_system) 0 [new_seg 1 0]"
    using sample_log_ok sample_store_healthy by (simp_all add: idle_def sample_system_def)
  have f: "Fields (joinWords [str ''set'', [97], [98]]) = [str ''set'', [97], [98]]"
    "Fields (joinWords [str ''get'', [97]]) = [str ''get'', [97]]"
    unfolding Fields_def by (rule fieldsFrom_join, simp add: str_def spaceLen_def)+
  have w: "wfaults sample_console = []" "printed sample_console = []" by (simp_all add: sample_console_def)
  obtain err :: "go_error option" and shown y' where s: "err = None \<longrightarrow> shown = str ''OK'' @ [10] @ [98] @ [10]"
    "serveREPL sample_repl (\<lambda>_. []) [joinWords [str ''set'', [97], [98]], joinWords [str ''get'', [97]]] None
       [Deliver quiet, Deliver quiet, Cancel] sample_console sample_console sample_system =
     serveREPL sample_repl (\<lambda>_. []) [] None [Cancel] (sample_console\<lparr>printed := printed sample_console @ shown\<rparr>)
      (case err of None \<Rightarrow> sample_console
       | Some e \<Rightarrow> sample_console\<lparr>printed := printed sample_console @ str ''error: '' @ [] @ [10]\<rparr>) y'"
    using repl_session [OF y w(1) w(1) f, of sample_repl "\<lambda>_. []" "[]" None quiet quiet "[Cancel]"] by blast
  show ?thesis
  proof (cases err)
    case None
    then show ?thesis using s w(2) by simp
  next
    case (Some e)
    then show ?thesis using s(2) w(2) by simp
  qed
qed

section \<open>The keys of the load generator\<close>

lemma str_inject [simp]: "str s = str t \<longleftrightarrow> s = t"
proof -
  have "inj (\<lambda>c. word_of_nat (of_char c) :: byte)"
  proof (rule injI)
    fix c d :: char
    assume "word_of_nat (of_char c) = (word_of_nat (of_char d) :: byte)"
    then have "unat (word_of_nat (of_char c) :: byte) = unat (word_of_nat (of_char d) :: byte)" by simp
    then show "c = d" by (simp add: unat_of_nat)
  qed
  then show ?thesis by (simp add: str_def inj_map_eq_map)
qed

lemma loadKey_inject [simp]: "loadKey p = loadKey q \<longleftrightarrow> p = q"
proof -
  have "pad20 (unat p) = pad20 (unat q) \<longleftrightarrow> p = q" using ParseUint_pad20 by (metis option.inject)
  then show ?thesis by (simp add: loadKey_def)
qed

lemma next_in_range:
  fixes x n :: u64
  assumes "x < n"
  shows "1 \<le> x + 1 \<and> x + 1 \<le> n"
proof -
  have "x \<noteq> - 1" using assms by (metis leD word_n1_ge)
  then have "unat (x + 1) = Suc (unat x)" by (rule word_succ_neq_zero)
  then show ?thesis using assms by (simp add: word_le_nat_alt word_less_nat_alt)
qed

lemma mod_in_range: "n \<noteq> 0 \<Longrightarrow> x mod n < n" for x n :: u64
  by (simp add: word_less_nat_alt unat_mod unat_gt_0)

text \<open>C38. The keys of the load generator, once its flags are accepted: keys of different numbers differ and
  are 24 bytes long; reads and writes use only the keys with the numbers from 1 to
  \<open>keyspace\<close>; the first \<open>keyspace\<close> writes use each of them once, and two writes use the same key
  exactly when their numbers are the same modulo \<open>keyspace\<close>, the wrapped counter included; values
  have the length asked for.\<close>

theorem load_keys_cover_keyspace:
  assumes "checkLoadFlags config = None"
  shows "inj loadKey \<and> length (loadKey q) = 24 \<and>
    (\<exists>j. 1 \<le> j \<and> j \<le> keyspace config \<and> writeKey config n = loadKey j) \<and>
    (random < keyspace config \<longrightarrow> (\<exists>j. 1 \<le> j \<and> j \<le> keyspace config \<and> readKey random = loadKey j)) \<and>
    (1 \<le> n \<and> n \<le> keyspace config \<longrightarrow> writeKey config n = loadKey n) \<and>
    (writeKey config m = writeKey config n \<longleftrightarrow> (m - 1) mod keyspace config = (n - 1) mod keyspace config) \<and>
    int (length (loadValue config k)) = (if valueBytes config = 0 then int (length k) else valueBytes config)"
proof -
  have c: "keyspace config \<noteq> 0" "0 \<le> valueBytes config"
    using assms by (auto simp: checkLoadFlags_def split: if_splits)
  have "inj loadKey" by (rule injI) simp
  moreover have "length (loadKey q) = 24" by (simp add: loadKey_def str_def)
  moreover have "\<exists>j. 1 \<le> j \<and> j \<le> keyspace config \<and> writeKey config n = loadKey j"
    using next_in_range [OF mod_in_range [OF c(1)]] by (auto simp: writeKey_def)
  moreover have "\<exists>j. 1 \<le> j \<and> j \<le> keyspace config \<and> readKey random = loadKey j" if "random < keyspace config"
    using next_in_range [OF that] by (auto simp: readKey_def)
  moreover have "writeKey config n = loadKey n" if n: "1 \<le> n" "n \<le> keyspace config"
  proof -
    have "n \<noteq> 0" using n(1) by auto
    then have "n - 1 < n" by (simp add: measure_unat word_less_nat_alt)
    then have "n - 1 < keyspace config" using n(2) by simp
    then have "(n - 1) mod keyspace config = n - 1" by (simp add: word_arith_nat_mod word_less_nat_alt)
    then show ?thesis by (simp add: writeKey_def)
  qed
  moreover have "writeKey config m = writeKey config n \<longleftrightarrow> (m - 1) mod keyspace config = (n - 1) mod keyspace config"
    by (simp add: writeKey_def)
  moreover have "int (length (loadValue config k)) = (if valueBytes config = 0 then int (length k) else valueBytes config)"
    using c(2) by (auto simp: loadValue_def min_def)
  ultimately show ?thesis by blast
qed

theorem load_keys_cover_keyspace_witness:
  "writeKey defaultLoadFlags 10000 = loadKey 10000 \<and> writeKey defaultLoadFlags 10001 = writeKey defaultLoadFlags 1"
proof -
  have c: "checkLoadFlags defaultLoadFlags = None" by (simp add: checkLoadFlags_def defaultLoadFlags_def)
  have "keyspace defaultLoadFlags = 10000" by (simp add: defaultLoadFlags_def)
  then show ?thesis
    using load_keys_cover_keyspace [OF c, of 0 10000 0 0 "[]"] load_keys_cover_keyspace [OF c, of 0 1 0 10001 "[]"] by simp
qed

section \<open>A run of the load generator\<close>

lemma sys_step_answers: "sys_step segSize threshold y y' \<Longrightarrow> set (yanswers y) \<subseteq> set (yanswers y')"
  by (induction rule: sys_step.induct)
    (auto simp: submit_def beginClose_def sendClose_def finishClose_def afterPhase_def split: sum.splits if_splits bind_splits prod.splits)

lemma Get_queues: "yaccepted (snd (Get k y)) = yaccepted y" "yanswers (snd (Get k y)) = yanswers y"
  by (simp_all add: Get_def split: prod.splits)

lemma loadRequest_set:
  assumes "loadRequest config k y = (Inr r, y1)"
  shows "rkind r = requestSet" "rkey r = k" "rid r = newResult y" "yaccepted y1 = yaccepted y" "yanswers y1 = yanswers y"
  using assms by (auto simp: loadRequest_def setRequest_def setTTLRequest_def Let_def split: if_splits option.splits prod.splits)

text \<open>A write of the run that is in the channel or behind it.\<close>

definition sent_write :: "loadFlags \<Rightarrow> load \<Rightarrow> writeRequest \<Rightarrow> bool" where
  "sent_write config l r \<longleftrightarrow> r \<in> set (yaccepted (lsys l)) \<and> rkind r = requestSet \<and> (\<exists>n. rkey r = writeKey config n)"

text \<open>
  The invariant: \<open>rs\<close> are the requests whose keys were printed. Requests are named by their
  position, and no two workers wait for the same one.
\<close>

definition load_inv :: "loadFlags \<Rightarrow> bytes \<Rightarrow> load \<Rightarrow> writeRequest list \<Rightarrow> bool" where
  "load_inv config start l rs \<longleftrightarrow>
     wfaults (loutput l) = [] \<and> printed (loutput l) = start @ concat (map (\<lambda>r. rkey r @ [10]) rs) \<and>
     distinct (map rid rs) \<and> (\<forall>r\<in>set rs. sent_write config l r \<and> (rid r, None) \<in> set (yanswers (lsys l))) \<and>
     (\<forall>r\<in>set (yaccepted (lsys l)). rid r < newResult (lsys l)) \<and>
     (\<forall>i r. lphase l i = Waiting r \<longrightarrow> sent_write config l r \<and> rid r \<notin> rid ` set rs) \<and>
     (\<forall>i j r r'. lphase l i = Waiting r \<longrightarrow> lphase l j = Waiting r' \<longrightarrow> i \<noteq> j \<longrightarrow> rid r \<noteq> rid r')"

lemma load_inv_mono:
  assumes "load_inv config start l rs" "loutput l' = loutput l" "yaccepted (lsys l') = yaccepted (lsys l)"
    "set (yanswers (lsys l)) \<subseteq> set (yanswers (lsys l'))" "\<forall>i. lphase l' i = lphase l i \<or> lphase l' i = Returned"
  shows "load_inv config start l' rs"
proof -
  have w: "lphase l i = Waiting r" if "lphase l' i = Waiting r" for i r using assms(5) that by (metis phase.distinct(5))
  have sw: "sent_write config l' = sent_write config l" by (simp add: sent_write_def assms(3) fun_eq_iff)
  note inv = assms(1) [unfolded load_inv_def]
  show ?thesis
    unfolding load_inv_def sw assms(2,3)
  proof (intro conjI)
    show "\<forall>r\<in>set rs. sent_write config l r \<and> (rid r, None) \<in> set (yanswers (lsys l'))" using inv assms(4) by blast
    show "\<forall>i r. lphase l' i = Waiting r \<longrightarrow> sent_write config l r \<and> rid r \<notin> rid ` set rs" using inv w by blast
    show "\<forall>i j r r'. lphase l' i = Waiting r \<longrightarrow> lphase l' j = Waiting r' \<longrightarrow> i \<noteq> j \<longrightarrow> rid r \<noteq> rid r'"
      using inv w by blast
  qed (use inv in simp_all)
qed

lemma failWorker_simps [simp]:
  "loutput (failWorker i e l) = loutput l" "lsys (failWorker i e l) = lsys l"
  "lphase (failWorker i e l) j = (if j = i then Returned else lphase l j)"
  by (simp_all add: failWorker_def reportLoadFailure_def)

lemma load_inv_send:
  assumes inv: "load_inv config start l rs" and s: "workerSend config i l = Some l'"
  shows "load_inv config start l' rs"
proof -
  let ?k = "writeKey config (lsequence l + 1)"
  obtain res y where lr: "loadRequest config ?k (lsys l) = (res, y)" by fastforce
  show ?thesis
  proof (cases res)
    case (Inl e)
    then have "l' = failWorker i (SetFailed ?k e) (l\<lparr>lsequence := lsequence l + 1\<rparr>)"
      using s lr by (simp add: workerSend_def Let_def)
    then show ?thesis by (intro load_inv_mono [OF inv]) auto
  next
    case (Inr r)
    note r = loadRequest_set [OF lr [unfolded Inr]]
    show ?thesis
    proof (cases "submit r y")
      case None
      then show ?thesis using s lr Inr by (simp add: workerSend_def Let_def)
    next
      case (Some out)
      show ?thesis
      proof (cases out)
        case (Inl e)
        then have "l' = failWorker i (SetFailed ?k e) (l\<lparr>lsequence := lsequence l + 1, lsys := y\<rparr>)"
          using s lr Inr Some by (simp add: workerSend_def Let_def)
        then show ?thesis using r by (intro load_inv_mono [OF inv]) auto
      next
        case (Inr y1)
        have y1: "yaccepted y1 = yaccepted (lsys l) @ [r]" "yanswers y1 = yanswers (lsys l)"
          using Some Inr r by (auto simp: submit_def split: if_splits)
        have l': "loutput l' = loutput l" "lsys l' = y1" "lphase l' = (lphase l)(i := Waiting r)"
          using s lr \<open>res = Inr r\<close> Some Inr by (auto simp: workerSend_def Let_def)
        have new: "rid x \<noteq> rid r" if "sent_write config l x" for x
          using inv that r(3) unfolding load_inv_def sent_write_def by (metis less_irrefl)
        have sw: "sent_write config l' x \<longleftrightarrow> sent_write config l x \<or> x = r" for x
          using y1(1) l'(2) r(1,2) by (auto simp: sent_write_def)
        note inv = inv [unfolded load_inv_def]
        have fresh: "rid r \<notin> rid ` set rs"
        proof
          assume "rid r \<in> rid ` set rs"
          then obtain x where "x \<in> set rs" "rid x = rid r" by auto
          then show False using inv new by blast
        qed
        show ?thesis
          unfolding load_inv_def l' y1 sw
        proof (intro conjI)
          show "\<forall>x\<in>set (yaccepted (lsys l) @ [r]). rid x < length (yaccepted (lsys l) @ [r])"
            using inv r(3) by (auto simp: less_Suc_eq)
          show "\<forall>j x. ((lphase l)(i := Waiting r)) j = Waiting x \<longrightarrow>
              (sent_write config l x \<or> x = r) \<and> rid x \<notin> rid ` set rs"
            using inv fresh by (auto split: if_splits)
          show "\<forall>j j' x x'. ((lphase l)(i := Waiting r)) j = Waiting x \<longrightarrow> ((lphase l)(i := Waiting r)) j' = Waiting x' \<longrightarrow>
              j \<noteq> j' \<longrightarrow> rid x \<noteq> rid x'"
            using inv new by (metis fun_upd_apply phase.inject)
        qed (use inv in simp_all)
      qed
    qed
  qed
qed

lemma load_inv_answer:
  assumes inv: "load_inv config start l rs" and w: "lphase l i = Waiting r" and a: "(rid r, writeErr) \<in> set (yanswers (lsys l))"
  shows "\<exists>rs'. load_inv config start (workerAnswer i r writeErr l) rs'"
proof (cases writeErr)
  case (Some e)
  then have "load_inv config start (workerAnswer i r writeErr l) rs"
    by (intro load_inv_mono [OF inv]) (auto simp: workerAnswer_def)
  then show ?thesis by blast
next
  case None
  let ?l = "workerAnswer i r writeErr l"
  note inv = inv [unfolded load_inv_def]
  have l': "loutput ?l = (loutput l)\<lparr>printed := printed (loutput l) @ rkey r @ [10]\<rparr>" "lsys ?l = lsys l"
    "lphase ?l = (lphase l)(i := Looping)"
    using None inv by (simp_all add: workerAnswer_def Fprintln_def Fprint_works)
  have r: "sent_write config l r" "rid r \<notin> rid ` set rs" using inv w by blast+
  have sw: "sent_write config ?l = sent_write config l" by (simp add: sent_write_def l'(2) fun_eq_iff)
  have "load_inv config start ?l (rs @ [r])"
    unfolding load_inv_def l' sw
  proof (intro conjI)
    show "\<forall>x\<in>set (rs @ [r]). sent_write config l x \<and> (rid x, None) \<in> set (yanswers (lsys l))"
      using inv r(1) a None by auto
    show "\<forall>j x. ((lphase l)(i := Looping)) j = Waiting x \<longrightarrow> sent_write config l x \<and> rid x \<notin> rid ` set (rs @ [r])"
    proof (intro allI impI)
      fix j x
      assume x: "((lphase l)(i := Looping)) j = Waiting x"
      then have "lphase l j = Waiting x" "j \<noteq> i" by (auto split: if_splits)
      then have "sent_write config l x" "rid x \<notin> rid ` set rs" "rid x \<noteq> rid r" using inv w by blast+
      then show "sent_write config l x \<and> rid x \<notin> rid ` set (rs @ [r])" by auto
    qed
    show "\<forall>j j' x x'. ((lphase l)(i := Looping)) j = Waiting x \<longrightarrow> ((lphase l)(i := Looping)) j' = Waiting x' \<longrightarrow>
        j \<noteq> j' \<longrightarrow> rid x \<noteq> rid x'"
      using inv by (metis fun_upd_apply phase.distinct(1))
  qed (use inv r(2) in simp_all)
  then show ?thesis by blast
qed

lemma load_step_inv:
  "load_step config segSize threshold l l' \<Longrightarrow> load_inv config start l rs \<Longrightarrow> \<exists>rs'. load_inv config start l' rs'"
proof (induction rule: load_step.induct)
  case (answer i l request writeErr)
  then show ?case using load_inv_answer by blast
next
  case (send i l draw l')
  then show ?case using load_inv_send by blast
next
  case (system l y)
  then have "load_inv config start (l\<lparr>lsys := y\<rparr>) rs"
    using sys_step_answers by (intro load_inv_mono [OF system.prems]) auto
  then show ?case by blast
next
  case (read i l draw random)
  have "load_inv config start (workerRead random l) rs"
    by (intro load_inv_mono [OF read.prems]) (auto simp: workerRead_def Get_queues)
  then show ?case by blast
next
  case (interrupt l)
  have "load_inv config start (l\<lparr>lcancelled := True\<rparr>) rs" by (intro load_inv_mono [OF interrupt.prems]) auto
  then show ?case by blast
next
  case (stop i l)
  have "load_inv config start (l\<lparr>lphase := (lphase l)(i := Returned)\<rparr>) rs" by (intro load_inv_mono [OF stop.prems]) auto
  then show ?case by blast
qed

lemma load_run_inv:
  "(load_step config segSize threshold)\<^sup>*\<^sup>* l l' \<Longrightarrow> load_inv config start l rs \<Longrightarrow> \<exists>rs'. load_inv config start l' rs'"
proof (induction arbitrary: rs rule: rtranclp_induct)
  case base
  then show ?case by blast
next
  case (step l1 l2)
  then show ?case using load_step_inv by blast
qed





end
