(* ===== verification/Cache_Snapshot_Steps.thy ===== *)
theory Cache_Snapshot_Steps
  imports Cache_Snapshot
begin

text \<open>
  The steps of an automatic snapshot and the goroutine as \<open>snapshot.go\<close> has it agree: with the
  other goroutines at the same places, taking the steps one after the other is \<open>runSnapshot\<close>.
\<close>

section \<open>Filling\<close>

text \<open>What follows the shards: the header, the seal, the interlock and the publication.\<close>

definition finishFilling :: "env \<Rightarrow> map_order \<Rightarrow> store option \<Rightarrow> u64 \<Rightarrow> handle \<Rightarrow> nat \<Rightarrow> u64 list \<Rightarrow> store \<Rightarrow> world \<Rightarrow>
    go_error option \<times> store \<times> world" where
  "finishFilling env orders src generation f count sequences store w =
     (case endFilling src generation f count sequences w of
        (Inl err, w1) \<Rightarrow> (err, store, w1)
      | (Inr phase, w1) \<Rightarrow> drivePhases env orders phase store w1)"

lemma drive_memory:
  "length qs \<le> n \<Longrightarrow> drivePhases env orders (Filling None g f n qs) st w =
     (case writeShards env orders f [length qs..<n] st w of
        (Inl e, st', w') \<Rightarrow> (Some e, st', discardTemp f w')
      | (Inr rest, st', w') \<Rightarrow> finishFilling env orders None g f n (qs @ rest) st' w')"
proof (induction "n - length qs" arbitrary: qs st w)
  case 0
  then show ?case
    by (subst drivePhases.simps) (simp add: finishFilling_def split: prod.splits sum.splits)
next
  case (Suc m)
  then have l: "length qs < n" and rest: "[length qs..<n] = length qs # [Suc (length qs)..<n]"
    by (simp_all add: upt_conv_Cons)
  obtain s w1 where e: "env (length qs) (st, w) = (s, w1)" by fastforce
  obtain r w2 where we: "writeEntries f (shards s ! length qs) (orders (length qs) (shards s ! length qs)) w1 = (r, w2)"
    by fastforce
  have step: "drivePhases env orders (Filling None g f n qs) st w =
      (case r of Some x \<Rightarrow> (Some x, s, discardTemp f w2)
       | None \<Rightarrow> drivePhases env orders (Filling None g f n (qs @ [logSequence s])) s w2)"
    by (subst drivePhases.simps) (simp add: l e we fillShard_def source_def Let_def split: option.splits)
  have "drivePhases env orders (Filling None g f n (qs @ [logSequence s])) s w2 =
     (case writeShards env orders f [Suc (length qs)..<n] s w2 of
        (Inl e, st', w') \<Rightarrow> (Some e, st', discardTemp f w')
      | (Inr rest, st', w') \<Rightarrow> finishFilling env orders None g f n ((qs @ [logSequence s]) @ rest) st' w')"
    using Suc.hyps(1) [of "qs @ [logSequence s]" s w2] Suc.hyps(2) l by simp
  then show ?case unfolding step rest by (simp add: e we split: option.splits prod.splits sum.splits)
qed

text \<open>For a recovered store the others only change the directory.\<close>

lemma writeShards_private:
  "writeShards (diskOnly envw) orders f is img w = (r, st', w') \<Longrightarrow> st' = img"
  by (induction "is" arbitrary: w r w') (auto simp: diskOnly_def split: prod.splits option.splits sum.splits)

lemma drive_durable:
  "length qs \<le> n \<Longrightarrow> drivePhases (diskOnly envw) orders (Filling (Some img) g f n qs) st w =
     (case writeShards (diskOnly envw) orders f [length qs..<n] img w of
        (Inl e, st', w') \<Rightarrow> (Some e, st, discardTemp f w')
      | (Inr rest, st', w') \<Rightarrow> finishFilling (diskOnly envw) orders (Some img) g f n (qs @ rest) st w')"
proof (induction "n - length qs" arbitrary: qs w)
  case 0
  then show ?case
    by (subst drivePhases.simps) (simp add: finishFilling_def split: prod.splits sum.splits)
next
  case (Suc m)
  then have l: "length qs < n" and rest: "[length qs..<n] = length qs # [Suc (length qs)..<n]"
    by (simp_all add: upt_conv_Cons)
  let ?w = "envw (length qs) w"
  obtain r w2 where we: "writeEntries f (shards img ! length qs) (orders (length qs) (shards img ! length qs)) ?w = (r, w2)"
    by fastforce
  have step: "drivePhases (diskOnly envw) orders (Filling (Some img) g f n qs) st w =
      (case r of Some x \<Rightarrow> (Some x, st, discardTemp f w2)
       | None \<Rightarrow> drivePhases (diskOnly envw) orders (Filling (Some img) g f n (qs @ [logSequence img])) st w2)"
    by (subst drivePhases.simps) (simp add: l diskOnly_def we fillShard_def source_def Let_def split: option.splits)
  have "drivePhases (diskOnly envw) orders (Filling (Some img) g f n (qs @ [logSequence img])) st w2 =
     (case writeShards (diskOnly envw) orders f [Suc (length qs)..<n] img w2 of
        (Inl e, st', w') \<Rightarrow> (Some e, st, discardTemp f w')
      | (Inr rest, st', w') \<Rightarrow> finishFilling (diskOnly envw) orders (Some img) g f n ((qs @ [logSequence img]) @ rest) st w')"
    using Suc.hyps(1) [of "qs @ [logSequence img]" w2] Suc.hyps(2) l by simp
  then show ?case
    unfolding step rest by (simp add: diskOnly_def we split: option.splits prod.splits sum.splits)
qed

section \<open>The whole goroutine\<close>

lemma finish_memory:
  "finishFilling env orders None g f n qs st w =
     (case writeAtStart f (putSequences 0 qs (newSnapshotHeader n)) w of
        (Some e, w1) \<Rightarrow> (Some (ErrOs ''finalize snapshot header'' e), st, discardTemp f w1)
      | (None, w1) \<Rightarrow>
          (case sealSnapshot f w1 of
             (Some e, w2) \<Rightarrow> (Some e, st, w2)
           | (None, w2) \<Rightarrow>
               (case env (length (shards st)) (st, w2) of
                  (st', w3) \<Rightarrow> publishSnapshot g f (lowestOf qs) st' w3)))"
  unfolding finishFilling_def endFilling_def
  by (auto simp: drivePhases.simps [of env orders "Installing None g f (lowestOf qs)"] source_def
      split: prod.splits option.splits)

lemma finish_durable:
  "finishFilling (diskOnly envw) orders (Some img) g f n qs st w =
     (case writeAtStart f (putSequences 0 qs (newSnapshotHeader n)) w of
        (Some e, w1) \<Rightarrow> (Some (ErrOs ''finalize snapshot header'' e), st, discardTemp f w1)
      | (None, w1) \<Rightarrow>
          (case sealSnapshot f w1 of
             (Some e, w2) \<Rightarrow> (Some e, st, w2)
           | (None, w2) \<Rightarrow>
               (case publishSnapshot g f (lowestOf qs) img (envw (length (shards img)) w2) of
                  (err, st', w3) \<Rightarrow> (err, if err = None then addSnapshot st else st, w3))))"
  unfolding finishFilling_def endFilling_def
  by (auto simp: drivePhases.simps [of "diskOnly envw" orders "Installing (Some img) g f (lowestOf qs)"] source_def diskOnly_def
      split: prod.splits option.splits)

lemma drive_writeSnapshotAt:
  "drivePhases env orders (Starting (MemoryJob g)) st w = writeSnapshotAt env orders g st w"
proof -
  obtain r w1 where c: "createSnapshotFile w = (r, w1)" by fastforce
  show ?thesis
  proof (cases r)
    case (Inl e)
    then show ?thesis
      by (subst drivePhases.simps) (simp add: c beginFilling_def writeSnapshotAt_def installSnapshot_def)
  next
    case (Inr f)
    obtain h w2 where h: "writeFull f (newSnapshotHeader (length (shards st))) w1 = (h, w2)" by fastforce
    show ?thesis
    proof (cases h)
      case (Some e)
      then show ?thesis
        by (subst drivePhases.simps)
          (simp add: c Inr h beginFilling_def writeSnapshotAt_def installSnapshot_def populateMemory_def Let_def)
    next
      case None
      have "drivePhases env orders (Starting (MemoryJob g)) st w =
          drivePhases env orders (Filling None g f (length (shards st)) []) st w2"
        by (subst drivePhases.simps) (simp add: c Inr h None beginFilling_def)
      then show ?thesis
        by (simp add: drive_memory finish_memory c Inr h None writeSnapshotAt_def installSnapshot_def populateMemory_def Let_def
            split: prod.splits sum.splits option.splits)
    qed
  qed
qed

lemma drive_writeDurableSnapshot:
  "drivePhases (diskOnly envw) orders (Starting (DurableJob through)) st w = writeDurableSnapshot envw orders through st w"
proof -
  obtain r w1 where d: "recoverDurableImage Background (newStoreState (length (shards st)) (shardCapacity st)) through w = (r, w1)"
    by fastforce
  show ?thesis
  proof (cases "\<exists>img. r = Inr img \<and> evictionGeneration img = 0")
    case False
    then show ?thesis
      by (subst drivePhases.simps) (cases r; simp add: d writeDurableSnapshot_def writeSnapshot_def)
  next
    case True
    then obtain img where img: "r = Inr img" "evictionGeneration img = 0" by blast
    have run: "writeDurableSnapshot envw orders through st w =
        (case writeSnapshotAt (diskOnly envw) orders 0 img w1 of
           (err, _, w2) \<Rightarrow> (err, if err = None then addSnapshot st else st, w2))"
      using d img by (auto simp: writeDurableSnapshot_def writeSnapshot_def split: prod.splits option.splits)
    obtain c w2 where c: "createSnapshotFile w1 = (c, w2)" by fastforce
    show ?thesis
    proof (cases c)
      case (Inl e)
      then show ?thesis
        unfolding run by (subst drivePhases.simps) (simp add: d img c beginFilling_def writeSnapshotAt_def installSnapshot_def)
    next
      case (Inr f)
      obtain h w3 where h: "writeFull f (newSnapshotHeader (length (shards img))) w2 = (h, w3)" by fastforce
      show ?thesis
      proof (cases h)
        case (Some e)
        then show ?thesis
          unfolding run
          by (subst drivePhases.simps)
            (simp add: d img c Inr h beginFilling_def writeSnapshotAt_def installSnapshot_def populateMemory_def Let_def)
      next
        case None
        have step: "drivePhases (diskOnly envw) orders (Starting (DurableJob through)) st w =
            drivePhases (diskOnly envw) orders (Filling (Some img) 0 f (length (shards img)) []) st w3"
          by (subst drivePhases.simps) (simp add: d img c Inr h None beginFilling_def)
        obtain x s w4 where ws: "writeShards (diskOnly envw) orders f [0..<length (shards img)] img w3 = (x, s, w4)"
          by (metis prod_cases3)
        show ?thesis
          unfolding run step
          using writeShards_private [OF ws]
          by (simp add: drive_durable c Inr h None ws finish_durable writeSnapshotAt_def installSnapshot_def populateMemory_def
              Let_def diskOnly_def split: prod.splits sum.splits option.splits)
      qed
    qed
  qed
qed


end
