(* ===== verification/Cache_Reads.thy ===== *)
theory Cache_Reads
  imports Cache_Durability Cache_Snapshot_Load
begin

unbundle bit_operations_syntax

text \<open>
  Reading the directory while calls may fail. A read changes no file; and when it succeeds, it
  has returned what it returns when nothing fails. So what is known of recovery without faults
  holds of every recovery that succeeds.
\<close>

section \<open>Reads change no file\<close>

definition reads :: "world \<Rightarrow> world \<Rightarrow> bool" where
  "reads w w' \<longleftrightarrow> dir w' = dir w \<and> inodes w' = inodes w \<and> nextInode w' = nextInode w \<and> clock w' = clock w \<and>
     tick w' = tick w \<and> nextHandle w \<le> nextHandle w' \<and>
     (\<forall>h\<in>set (closedHandles w'). h \<in> set (closedHandles w) \<or> nextHandle w \<le> h \<and> h < nextHandle w')"

lemma reads_refl [simp]: "reads w w"
  by (simp add: reads_def)

lemma reads_trans [trans]: "reads u v \<Longrightarrow> reads v w \<Longrightarrow> reads u w"
  unfolding reads_def by (auto dest: order_trans)

section \<open>Success does not depend on the faults\<close>

lemma restart_idem [simp]: "restart (restart w) = restart w"
  by (simp add: restart_def)

lemma restart_frame [simp]:
  "dir (restart w) = dir w" "inodes (restart w) = inodes w" "nextInode (restart w) = nextInode w"
  "nextHandle (restart w) = nextHandle w" "closedHandles (restart w) = closedHandles w" "clock (restart w) = clock w"
  "tick (restart w) = tick w" "is_open f (restart w) = is_open f w" "fileBytes f (restart w) = fileBytes f w"
  by (simp_all add: restart_def is_open_def fileBytes_def)

text \<open>Two worlds that differ only in the faults to come.\<close>

lemma same_reads:
  assumes "restart w' = restart w"
  shows "reads w w'" "nextHandle w' = nextHandle w" "dir w' = dir w" "fileBytes f w' = fileBytes f w" "is_open f w' = is_open f w"
proof -
  have "w'\<lparr>faults := [], cancels := []\<rparr> = w\<lparr>faults := [], cancels := []\<rparr>" using assms by (simp add: restart_def)
  then show "reads w w'" "nextHandle w' = nextHandle w" "dir w' = dir w" "fileBytes f w' = fileBytes f w" "is_open f w' = is_open f w"
    by (cases w; cases w'; simp add: reads_def fileBytes_def is_open_def)+
qed

lemma sysCall_same: "sysCall w = (r, w') \<Longrightarrow> restart w' = restart w"
  by (auto simp: sysCall_def nextFault_def restart_def split: list.splits fault.splits)

lemma fileCall_same: "fileCall f w = (r, w') \<Longrightarrow> restart w' = restart w"
  using sysCall_same by (auto simp: fileCall_def split: if_splits)

lemma ctxErr_same: "ctxErr c w = (r, w') \<Longrightarrow> restart w' = restart w"
  by (auto simp: ctxErr_def restart_def split: ctx.splits list.splits if_splits)

lemma fileCall_open: "fileCall f w = (None, w') \<Longrightarrow> fileCall f (restart w) = (None, restart w)"
  by (auto simp: fileCall_def split: if_splits)

lemma loadEntries_reads:
  "loadEntries c f data qs offset st w = (r, w') \<Longrightarrow> restart w' = restart w \<and>
     (\<forall>st'. r = Inr st' \<longrightarrow> loadEntries c f data qs offset st (restart w) = (Inr st', restart w))"
proof (induction c f data qs offset st w arbitrary: r w' rule: loadEntries.induct)
  case (1 c f data qs offset st w)
  show ?case
  proof (cases "length data \<le> offset")
    case True
    then show ?thesis using "1.prems" by (auto simp: loadEntries.simps [of c f data qs offset st])
  next
    case False
    obtain a w1 where c1: "ctxErr c w = (a, w1)" by fastforce
    obtain b w2 where c2: "fileCall f w1 = (b, w2)" by fastforce
    obtain d w3 where c3: "fileCall f w2 = (d, w3)" by fastforce
    have r: "restart w1 = restart w" "restart w2 = restart w" "restart w3 = restart w"
      using ctxErr_same [OF c1] fileCall_same [OF c2] fileCall_same [OF c3] by simp_all
    define len where "len = unat (Uint32 (slice offset (offset + snapshotLengthSize) data))"
    define finish where "finish = offset + snapshotLengthSize + len"
    note step = loadEntries.simps [of c f data qs offset st]
    consider (stop) e where "a \<or> length data - offset < snapshotLengthSize \<or> b \<noteq> None \<or>
        len < snapshotRecordFixedSize - snapshotLengthSize \<or> length data < finish \<or> d \<noteq> None \<or>
        loadEntry qs st (slice (offset + snapshotLengthSize) finish data) = Inl e"
      | (go) st1 where "\<not> a" "\<not> length data - offset < snapshotLengthSize" "b = None"
        "\<not> (len < snapshotRecordFixedSize - snapshotLengthSize \<or> length data < finish)" "d = None"
        "loadEntry qs st (slice (offset + snapshotLengthSize) finish data) = Inr st1"
      by (cases "loadEntry qs st (slice (offset + snapshotLengthSize) finish data)") auto
    then show ?thesis
    proof cases
      case stop
      then have "(\<exists>x. r = Inl x) \<and> w' \<in> {w1, w2, w3}"
        using "1.prems" False c1 c2 c3
        by (auto simp: step len_def [symmetric] finish_def [symmetric] Let_def split: bool.splits if_splits option.splits sum.splits)
      then show ?thesis using r by auto
    next
      case go
      have run: "loadEntries c f data qs offset st w = loadEntries c f data qs finish st1 w3"
        using False c1 c2 c3 go by (simp add: step len_def [symmetric] finish_def [symmetric] Let_def)
      have o: "is_open f w1" using c2 go(3) by (auto simp: fileCall_def is_open_def split: if_splits)
      have op: "is_open f w" using o same_reads(5) [OF r(1)] by simp
      have run': "loadEntries c f data qs offset st (restart w) = loadEntries c f data qs finish st1 (restart w)"
        using False go op by (simp add: step len_def [symmetric] finish_def [symmetric] Let_def)
      have "restart w' = restart w3 \<and>
          (\<forall>st'. r = Inr st' \<longrightarrow> loadEntries c f data qs finish st1 (restart w3) = (Inr st', restart w3))"
        using "1.IH" [OF False c1 [symmetric] _ _ c2 [symmetric] _ len_def finish_def _ c3 [symmetric], of st1]
          "1.prems" run go by simp
      then show ?thesis using run' r by auto
    qed
  qed
qed

text \<open>The checks of the header, and \<open>loadFrom\<close> with its calls named.\<close>

definition header_error :: "bytes \<Rightarrow> (nat \<times> corruption) option" where
  "header_error data =
     (let fixed = take snapshotFixedHeaderSize data; version = Uint16 (slice 4 6 fixed); shardCount = Uint32 (slice 8 12 fixed)
      in if take 4 fixed \<noteq> snapshotMagic then Some (0, UnknownMagic (take 4 fixed))
         else if version \<noteq> formatVersion then Some (4, UnsupportedVersion version)
         else if Uint16 (slice 6 8 fixed) \<noteq> 0 then Some (6, UnsupportedFlags)
         else if shardCount = 0 \<or> shardCount AND (shardCount - 1) \<noteq> 0 then Some (8, InvalidShardCount shardCount)
         else if length data < snapshotFixedHeaderSize + unat shardCount * 8 then Some (snapshotFixedHeaderSize, UnexpectedEOF)
         else None)"

lemma loadFrom_calls:
  assumes "fileCall f w = (a, w1)" "fileCall f w1 = (b, w2)" "fileCall f w2 = (d, w3)"
  defines "data \<equiv> fileBytes f w1"
  defines "cnt \<equiv> Uint32 (slice 8 12 (take snapshotFixedHeaderSize data))"
  defines "hs \<equiv> snapshotFixedHeaderSize + unat cnt * 8"
  defines "qs \<equiv> readSequences (unat cnt) (slice snapshotFixedHeaderSize hs data)"
  shows "loadFrom c f st w =
    (case a of Some e \<Rightarrow> (Inl (0, OsCause e), w1)
     | None \<Rightarrow>
         if length data < snapshotFixedHeaderSize then (Inl (0, UnexpectedEOF), w1)
         else
           (case b of Some e \<Rightarrow> (Inl (0, OsCause e), w2)
           | None \<Rightarrow>
               (case header_error data of Some err \<Rightarrow> (Inl err, w2)
                | None \<Rightarrow>
                    (case d of Some e \<Rightarrow> (Inl (snapshotFixedHeaderSize, OsCause e), w3)
                     | None \<Rightarrow>
                         (case loadEntries c f data qs hs st w3 of
                            (Inl err, w4) \<Rightarrow> (Inl err, w4)
                          | (Inr st', w4) \<Rightarrow> (Inr (newSnapshotState qs (\<not> cnt \<noteq> of_nat (length (shards st))), st'), w4))))))"
  unfolding loadFrom_def header_error_def Let_def assms(1-3) prod.case data_def [symmetric] cnt_def [symmetric]
    hs_def [symmetric] qs_def [symmetric]
  by (cases a; simp; cases b; simp; cases d; simp split: if_splits)

lemma loadFrom_reads:
  assumes "loadFrom c f st w = (r, w')"
  shows "restart w' = restart w \<and>
    (\<forall>x. r = Inr x \<longrightarrow> loadFrom c f st (restart w) = (Inr x, restart w))"
proof -
  obtain a w1 where c1: "fileCall f w = (a, w1)" by fastforce
  obtain b w2 where c2: "fileCall f w1 = (b, w2)" by fastforce
  obtain d w3 where c3: "fileCall f w2 = (d, w3)" by fastforce
  have ws: "restart w1 = restart w" "restart w2 = restart w" "restart w3 = restart w"
    using fileCall_same [OF c1] fileCall_same [OF c2] fileCall_same [OF c3] by simp_all
  note data = same_reads(4) [OF ws(1), of f]
  define cnt where "cnt = Uint32 (slice 8 12 (take snapshotFixedHeaderSize (fileBytes f w)))"
  define hs where "hs = snapshotFixedHeaderSize + unat cnt * 8"
  define qs where "qs = readSequences (unat cnt) (slice snapshotFixedHeaderSize hs (fileBytes f w))"
  obtain le w4 where c4: "loadEntries c f (fileBytes f w) qs hs st w3 = (le, w4)" by fastforce
  note l = loadEntries_reads [OF c4]
  note run = loadFrom_calls [OF c1 c2 c3, of c st, unfolded data, folded cnt_def, folded hs_def, folded qs_def, unfolded c4]
  note out = run [unfolded assms prod.case]
  show ?thesis
  proof (cases "a = None \<and> \<not> length (fileBytes f w) < snapshotFixedHeaderSize \<and> b = None \<and>
      header_error (fileBytes f w) = None \<and> d = None")
    case False
    then have "(\<exists>x. r = Inl x) \<and> (w' = w1 \<or> w' = w2 \<or> w' = w3)"
      using out by (simp split: option.split_asm if_split_asm)
    then show ?thesis using ws by auto
  next
    case True
    then have o: "fileCall f (restart w) = (None, restart w)" using fileCall_open c1 by blast
    note run' = loadFrom_calls [OF o o o, of c st, unfolded restart_frame(9), folded cnt_def, folded hs_def, folded qs_def]
    show ?thesis
    proof (cases le)
      case (Inl e)
      then show ?thesis using True out l ws by auto
    next
      case (Inr st')
      have x: "r = Inr (newSnapshotState qs (\<not> cnt \<noteq> of_nat (length (shards st))), st')" "w' = w4"
        using True out Inr by simp_all
      have "loadEntries c f (fileBytes f w) qs hs st (restart w) = (Inr st', restart w)" using l Inr ws(3) by auto
      then have "loadFrom c f st (restart w) = (r, restart w)" using run' True x(1) by simp
      then show ?thesis using x l ws by auto
    qed
  qed
qed

lemma openFile_reads:
  assumes "openFile name w = (r, w')"
  shows "reads w w' \<and> (\<forall>f. r = Inr f \<longrightarrow> nextHandle w \<le> hid f \<and> hid f < nextHandle w' \<and>
    openFile name (restart w) = (Inr f, restart w'))"
proof -
  obtain a w1 where c: "sysCall w = (a, w1)" by fastforce
  note k = same_reads [OF sysCall_same [OF c]] sysCall_same [OF c]
  have w1: "restart w1 = w1\<lparr>faults := [], cancels := []\<rparr>" by (simp add: restart_def)
  show ?thesis
  proof (cases a)
    case (Some e)
    then show ?thesis using assms c k by (auto simp: openFile_def)
  next
    case None
    have d: "dir (restart w) = dir w1" "nextHandle (restart w) = nextHandle w1" using k by simp_all
    have "sysCall (w1\<lparr>faults := [], cancels := []\<rparr>) = (None, w1\<lparr>faults := [], cancels := []\<rparr>)"
      by (simp add: sysCall_def nextFault_def)
    moreover have "restart w = w1\<lparr>faults := [], cancels := []\<rparr>" using k(6) w1 by simp
    ultimately show ?thesis
      using assms c None k d
      by (auto simp: openFile_def openHandle_def reads_def restart_def split: option.splits node.splits)
  qed
qed

lemma closeFile_reads:
  assumes "closeFile f w = (r, w')" "nextHandle v \<le> hid f" "hid f < nextHandle w" "reads v w"
  shows "reads v w' \<and> (r = None \<longrightarrow> closeFile f (restart w) = (None, restart w')) \<and>
    snd (closeFile f (restart w)) = restart w'"
proof -
  obtain a w1 where c: "fileCall f w = (a, w1)" by fastforce
  have w': "r = a" "w' = w1\<lparr>closedHandles := hid f # closedHandles w1\<rparr>" using assms(1) c by (auto simp: closeFile_def)
  note k = same_reads [OF fileCall_same [OF c]] fileCall_same [OF c]
  have "reads v w1" using reads_trans [OF assms(4) k(1)] .
  then have r: "reads v w'" using assms(2,3) k w'(2) by (auto simp: reads_def)
  have "restart w' = (restart w1)\<lparr>closedHandles := hid f # closedHandles w1\<rparr>" by (simp add: w'(2) restart_def)
  moreover have "closedHandles w1 = closedHandles (restart w)" using arg_cong [OF k(6), of closedHandles] by simp
  ultimately have e: "restart w' = (restart w)\<lparr>closedHandles := hid f # closedHandles (restart w)\<rparr>" using k(6) by simp
  have "snd (fileCall f (restart w)) = restart w" by (simp add: fileCall_def)
  then have "snd (closeFile f (restart w)) = restart w'" using e by (auto simp: closeFile_def split: prod.splits)
  moreover have "closeFile f (restart w) = (None, restart w')" if "r = None"
    using fileCall_open [of f w w1] c that w'(1) e by (simp add: closeFile_def)
  ultimately show ?thesis using r by blast
qed

lemma readDir_reads:
  assumes "readDir w = (r, w')"
  shows "restart w' = restart w \<and> (\<forall>x. r = Inr x \<longrightarrow> readDir (restart w) = (Inr x, restart w))"
proof -
  obtain a w1 where c: "sysCall w = (a, w1)" by fastforce
  note k = same_reads(3) [OF sysCall_same [OF c]] sysCall_same [OF c]
  then show ?thesis using assms c by (auto simp: readDir_def split: option.splits)
qed

lemma listSegments_reads:
  assumes "listSegments w = (r, w')"
  shows "restart w' = restart w \<and> (\<forall>x. r = Inr x \<longrightarrow> listSegments (restart w) = (Inr x, restart w))"
proof -
  obtain a w1 where c: "readDir w = (a, w1)" by fastforce
  note k = readDir_reads [OF c]
  then show ?thesis using assms c by (cases a) (auto simp: listSegments_def split: sum.splits)
qed

lemma listSnapshots_reads:
  assumes "listSnapshots w = (r, w')"
  shows "restart w' = restart w \<and> (\<forall>x. r = Inr x \<longrightarrow> listSnapshots (restart w) = (Inr x, restart w))"
proof -
  obtain a w1 where c: "readDir w = (a, w1)" by fastforce
  note k = readDir_reads [OF c]
  then show ?thesis using assms c by (cases a) (auto simp: listSnapshots_def split: sum.splits)
qed

section \<open>Reading a snapshot and the segments\<close>

lemma loadSnapshot_reads:
  assumes "loadSnapshot c st w = (r, w')"
  shows "reads w w' \<and> (\<forall>x. r = Inr x \<longrightarrow> loadSnapshot c st (restart w) = (Inr x, restart w'))"
proof -
  obtain a w1 where c1: "listSnapshots w = (a, w1)" by fastforce
  note l = listSnapshots_reads [OF c1]
  note l1 = same_reads [OF conjunct1 [OF l]]
  show ?thesis
  proof (cases "\<exists>snaps. a = Inr snaps \<and> snaps \<noteq> []")
    case False
    then show ?thesis
      using assms c1 l l1(1) by (cases a) (auto simp: loadSnapshot_def Let_def split: if_splits)
  next
    case True
    then obtain snaps where snaps: "a = Inr snaps" "snaps \<noteq> []" by blast
    let ?p = "fst (last snaps)"
    obtain b w2 where c2: "openFile ?p w1 = (b, w2)" by fastforce
    note o = openFile_reads [OF c2]
    show ?thesis
    proof (cases b)
      case (Inl e)
      then have "r = Inl (ErrOs ''open snapshot'' e)" "w' = w2" using assms c1 c2 snaps by (simp_all add: loadSnapshot_def Let_def)
      then show ?thesis using reads_trans [OF l1(1)] o by auto
    next
      case (Inr f)
      obtain d w3 where c3: "loadFrom c f st w2 = (d, w3)" by fastforce
      note lf = loadFrom_reads [OF c3]
      obtain e w4 where c4: "closeFile f w3 = (e, w4)" by fastforce
      have hid: "nextHandle w1 \<le> hid f" "hid f < nextHandle w2" using o Inr by auto
      note lf1 = same_reads [OF conjunct1 [OF lf]]
      have r13: "reads w1 w3" using reads_trans [OF _ lf1(1)] o by blast
      have cl: "reads w1 w4" "snd (closeFile f (restart w3)) = restart w4" using closeFile_reads [OF c4 hid(1) _ r13] hid(2) lf1(2) by simp_all
      have w': "w' = w4" and r: "r = (case d of Inl (offset, cause) \<Rightarrow> Inl (ErrRecover ?p offset cause) | Inr x \<Rightarrow> Inr x)"
        using assms c1 c2 c3 c4 snaps Inr by (auto simp: loadSnapshot_def Let_def split: sum.splits)
      have "loadSnapshot c st (restart w) = (Inr x, restart w')" if x: "r = Inr x" for x
      proof -
        have d: "d = Inr x" using r x by (auto split: sum.splits)
        have "loadFrom c f st (restart w2) = (Inr x, restart w2)" using lf d by blast
        moreover have "openFile ?p (restart w) = (Inr f, restart w2)" using o Inr l by simp
        moreover have "listSnapshots (restart w) = (Inr snaps, restart w)" using l snaps by simp
        moreover have "restart w3 = restart w2" using lf by blast
        ultimately show ?thesis
          using cl(2) snaps(2) w' by (simp add: loadSnapshot_def Let_def)
      qed
      then show ?thesis using reads_trans [OF l1(1) cl(1)] w' by blast
    qed
  qed
qed

lemma recoverRecords_reads:
  "recoverRecords c f q False sn through data offset s b st w = (r, w') \<Longrightarrow>
     restart w' = restart w \<and>
     (\<forall>x. r = Inr x \<longrightarrow> recoverRecords c f q False sn through data offset s b st (restart w) = (Inr x, restart w))"
proof (induction "length data - offset" arbitrary: offset s b st w rule: less_induct)
  case less
  note step = recoverRecords.simps [of c f q False sn through data offset s b st]
  show ?case
  proof (cases "length data \<le> offset")
    case True
    then show ?thesis using less.prems by (auto simp: step)
  next
    case False
    obtain a w1 where c1: "ctxErr c w = (a, w1)" by fastforce
    obtain x w2 where c2: "fileCall f w1 = (x, w2)" by fastforce
    obtain d w3 where c3: "fileCall f w2 = (d, w3)" by fastforce
    have ws: "restart w1 = restart w" "restart w2 = restart w" "restart w3 = restart w"
      using ctxErr_same [OF c1] fileCall_same [OF c2] fileCall_same [OF c3] by simp_all
    define len where "len = unat (Uint32 (slice offset (offset + segmentLengthSize) data))"
    define finish where "finish = offset + segmentLengthSize + len"
    define payload where "payload = slice (offset + segmentLengthSize) finish data"
    define out where "out = replayRecord q sn through b s st payload"
    note defs = step len_def [symmetric] finish_def [symmetric] payload_def [symmetric] out_def [symmetric] Let_def tornTail_def
    show ?thesis
    proof (cases "\<not> a \<and> \<not> length data - offset < segmentLengthSize \<and> x = None \<and>
        \<not> (len < recordFixedSize - segmentLengthSize \<or> length data < finish) \<and> \<not> maxInt < len \<and> d = None \<and>
        Checksum (drop (recordOpOffset - segmentLengthSize) payload) =
          Uint32 (slice (recordCRCOffset - segmentLengthSize) (recordOpOffset - segmentLengthSize) payload)")
      case False': False
      then have "(\<exists>e. r = Inl e) \<and> w' \<in> {w1, w2, w3}"
        using less.prems False c1 c2 c3 by (auto simp: defs split: bool.splits if_splits option.splits)
      then show ?thesis using ws by auto
    next
      case True
      have run: "recoverRecords c f q False sn through data offset s b st w =
          (case out of StopReplay \<Rightarrow> (Inr (offset, s, st), w3) | BadRecord e \<Rightarrow> (Inl (offset, e), w3)
           | Replayed q' st' \<Rightarrow> recoverRecords c f q False sn through data finish q' False st' w3)"
        using False True c1 c2 c3 by (cases out) (simp_all add: defs)
      have "is_open f w1" using c2 True by (auto simp: fileCall_def is_open_def split: if_splits)
      then have op: "is_open f w" using same_reads(5) [OF ws(1)] by simp
      have run': "recoverRecords c f q False sn through data offset s b st (restart w) =
          (case out of StopReplay \<Rightarrow> (Inr (offset, s, st), restart w) | BadRecord e \<Rightarrow> (Inl (offset, e), restart w)
           | Replayed q' st' \<Rightarrow> recoverRecords c f q False sn through data finish q' False st' (restart w))"
        using False True op by (cases out) (simp_all add: defs)
      show ?thesis
      proof (cases out)
        case (Replayed q' st')
        have "length data - finish < length data - offset"
          using False True unfolding finish_def by (simp add: layout) arith
        from less.hyps [OF this, of q' False st' w3] less.prems run run' Replayed
        show ?thesis using ws by auto
      qed (use less.prems run run' ws in auto)
    qed
  qed
qed

end
