(* ===== verification/Cache_Compaction.thy ===== *)
theory Cache_Compaction
  imports Cache_Reads Cache_Snapshot
begin

text \<open>
  The durable image that a compaction rebuilds: \<open>recoverDurableImage\<close>. Whatever calls fail, when it
  returns an image, the image holds what the log through the given sequence holds, for all
  shards or for the one shard it was asked for.
\<close>

section \<open>Reading segments while calls fail\<close>

lemma replayFile_reads:
  assumes "replayFile c f q False p sn through st w = (r, w')"
  shows "restart w' = restart w \<and>
    (\<forall>x. r = Inr x \<longrightarrow> replayFile c f q False p sn through st (restart w) = (Inr x, restart w))"
proof -
  obtain a w1 where c1: "fileCall f w = (a, w1)" by fastforce
  obtain b w2 where c2: "fileCall f w1 = (b, w2)" by fastforce
  note data = same_reads(4) [OF fileCall_same [OF c1], of f]
  obtain d w3 where c3: "recoverRecords c f q False sn through (fileBytes f w) segmentHeaderSize p True st w2 = (d, w3)" by fastforce
  obtain e w4 where c4: "fileCall f w3 = (e, w4)" by fastforce
  note rr = recoverRecords_reads [OF c3]
  have ws: "restart w1 = restart w" "restart w2 = restart w" "restart w3 = restart w" "restart w4 = restart w"
    using fileCall_same [OF c1] fileCall_same [OF c2] fileCall_same [OF c4] rr by simp_all
  define hd8 where "hd8 = take segmentHeaderSize (fileBytes f w)"
  define bad where "bad = (take 4 hd8 \<noteq> segmentMagic \<or> Uint16 (slice 4 6 hd8) \<noteq> formatVersion \<or> Uint16 (slice 6 8 hd8) \<noteq> 0)"
  note defs = replayFile_def Let_def data hd8_def [symmetric]
  show ?thesis
  proof (cases "a = None \<and> \<not> length (fileBytes f w) < segmentHeaderSize \<and> b = None \<and> \<not> bad \<and> (\<exists>x. d = Inr x) \<and> e = None")
    case False
    then have "(\<exists>x. r = Inl x) \<and> (w' = w1 \<or> w' = w2 \<or> w' = w3 \<or> w' = w4)"
      using assms c1 c2 c3 c4 by (cases a; cases b; cases d; cases e) (auto simp: defs bad_def split: if_split_asm)
    then show ?thesis using ws by auto
  next
    case True
    then obtain offset s st' where d: "d = Inr (offset, s, st')" by (metis prod_cases3)
    have o: "fileCall f (restart w) = (None, restart w)" using fileCall_open c1 True by blast
    have r: "r = Inr (offset, s, st')" "w' = w4"
      using assms c1 c2 c3 c4 True d by (auto simp: defs bad_def)
    have "recoverRecords c f q False sn through (fileBytes f w) segmentHeaderSize p True st (restart w) = (d, restart w)"
      using rr d ws(2) by auto
    then have "replayFile c f q False p sn through st (restart w) = (r, restart w)"
      using True o d r(1) by (simp add: defs bad_def)
    then show ?thesis using ws r by auto
  qed
qed

lemma recoverSegment_reads:
  assumes "recoverSegment c st seg False p sn through w = (r, w')"
  shows "reads w w' \<and> (\<forall>x. r = Inr x \<longrightarrow> nextHandle w \<le> hid (fst x) \<and> hid (fst x) < nextHandle w' \<and>
    recoverSegment c st seg False p sn through (restart w) = (Inr x, restart w'))"
proof -
  obtain a w1 where c1: "openFile (fst seg) w = (a, w1)" by fastforce
  note o = openFile_reads [OF c1]
  show ?thesis
  proof (cases a)
    case (Inl e)
    then show ?thesis using assms c1 o by (auto simp: recoverSegment_def)
  next
    case (Inr f)
    obtain b w2 where c2: "replayFile c f (snd seg) False p sn through st w1 = (b, w2)" by fastforce
    note rf = replayFile_reads [OF c2]
    note rf1 = same_reads [OF conjunct1 [OF rf]]
    have hid: "nextHandle w \<le> hid f" "hid f < nextHandle w2" "reads w w2" using o Inr rf1(2) reads_trans [OF _ rf1(1)] by auto
    show ?thesis
    proof (cases b)
      case (Inl err)
      obtain off cause where err: "err = (off, cause)" by fastforce
      have "w' = snd (closeFile f w2)" "\<exists>x. r = Inl x"
        using assms c1 Inr c2 Inl err by (auto simp: recoverSegment_def)
      then show ?thesis using closeFile_reads [of f w2 "fst (closeFile f w2)" "snd (closeFile f w2)" w] hid by auto
    next
      case r2: (Inr x)
      obtain off s st' where x: "x = (off, s, st')" by (metis prod_cases3)
      have r: "r = Inr (f, x)" "w' = w2" using assms c1 Inr c2 r2 x by (auto simp: recoverSegment_def)
      have "recoverSegment c st seg False p sn through (restart w) = (r, restart w')"
        using o Inr rf r2 x r by (simp add: recoverSegment_def)
      then show ?thesis using r hid by auto
    qed
  qed
qed

lemma compactSegments_reads:
  "compactSegments c st sn through p segs w = (r, w') \<Longrightarrow>
     reads w w' \<and> (\<forall>x. r = Inr x \<longrightarrow> compactSegments c st sn through p segs (restart w) = (Inr x, restart w'))"
proof (induction segs arbitrary: st p w)
  case (Cons seg segs)
  show ?case
  proof (cases "through < snd seg")
    case True
    then show ?thesis using Cons.prems by auto
  next
    case False
    obtain a w1 where c1: "ctxErr c w = (a, w1)" by fastforce
    note k1 = same_reads(1,2) [OF ctxErr_same [OF c1]] ctxErr_same [OF c1]
    show ?thesis
    proof (cases a)
      case True
      then show ?thesis using Cons.prems c1 k1 False by auto
    next
      case na: False
      obtain b w2 where c2: "recoverSegment c st seg False p sn through w1 = (b, w2)" by fastforce
      note rs = recoverSegment_reads [OF c2]
      have r2: "reads w w2" using reads_trans [OF k1(1)] rs by blast
      show ?thesis
      proof (cases b)
        case (Inl e)
        then show ?thesis using Cons.prems c1 c2 False na r2 by auto
      next
        case (Inr x)
        obtain f off s st' where x: "x = (f, off, s, st')" by (metis prod_cases4)
        obtain d w3 where c3: "closeFile f w2 = (d, w3)" by fastforce
        note cl = closeFile_reads [OF c3, of w]
        have hid: "nextHandle w \<le> hid f" "hid f < nextHandle w2" using rs Inr x k1 by auto
        have r3: "reads w w3" using cl hid r2 by blast
        show ?thesis
        proof (cases d)
          case (Some e)
          then show ?thesis using Cons.prems c1 c2 c3 False na Inr x r3 by auto
        next
          case None
          have run: "compactSegments c st' sn through s segs w3 = (r, w')"
            using Cons.prems c1 c2 c3 False na Inr x None by auto
          note IH = Cons.IH [OF run]
          have "recoverSegment c st seg False p sn through (restart w) = (Inr x, restart w2)"
            using rs Inr k1 by simp
          moreover have "closeFile f (restart w2) = (None, restart w3)" using cl hid r2 None by blast
          ultimately have "compactSegments c st sn through p (seg # segs) (restart w) =
              compactSegments c st' sn through s segs (restart w3)"
            using False x by simp
          then show ?thesis using IH reads_trans [OF r3] by auto
        qed
      qed
    qed
  qed
qed auto

lemma recoverDurableImage_reads:
  assumes "recoverDurableImage c st through w = (r, w')"
  shows "reads w w' \<and> (\<forall>x. r = Inr x \<longrightarrow> recoverDurableImage c st through (restart w) = (Inr x, restart w'))"
proof -
  obtain a w1 where c1: "loadSnapshot c st w = (a, w1)" by fastforce
  note l = loadSnapshot_reads [OF c1]
  obtain b w2 where c2: "listSegments w1 = (b, w2)" by fastforce
  note s = listSegments_reads [OF c2]
  have r2: "reads w w2" using reads_trans [OF _ same_reads(1) [OF conjunct1 [OF s]]] l by blast
  show ?thesis
  proof (cases "\<exists>sn st1 segs. a = Inr (sn, st1) \<and> \<not> (loaded sn \<and> through < highest sn) \<and> b = Inr segs")
    case False
    then have "(\<exists>e. r = Inl e) \<and> (w' = w1 \<or> w' = w2)"
      using assms c1 c2 by (cases a; cases b) (auto simp: recoverDurableImage_def split: if_splits)
    then show ?thesis using l r2 by auto
  next
    case True
    then obtain sn st1 segs where a: "a = Inr (sn, st1)" "\<not> (loaded sn \<and> through < highest sn)" "b = Inr segs" by blast
    define start where "start = (if loaded sn then startIndex (firstRequired sn) segs else 0)"
    define p where "p = (if loaded sn then snd (segs ! start) - 1 else 0)"
    obtain d w3 where c3: "compactSegments c st1 sn through p (drop start segs) w2 = (d, w3)" by fastforce
    note cs = compactSegments_reads [OF c3]
    note defs = recoverDurableImage_def Let_def start_def [symmetric] p_def [symmetric]
    have "loadSnapshot c st (restart w) = (Inr (sn, st1), restart w1)" using l a by blast
    moreover have "listSegments (restart w1) = (Inr segs, restart w2)" using s a(3) by auto
    moreover have "reads w w3" using reads_trans [OF r2] cs by blast
    ultimately show ?thesis
      using assms c1 c2 c3 a cs r2 by (cases d) (auto simp: defs split: if_splits)
  qed
qed

section \<open>Reading through a sequence\<close>

abbreviation upto_seq :: "u64 \<Rightarrow> logrec list \<Rightarrow> logrec list" where
  "upto_seq q rs \<equiv> filter (\<lambda>r. lseq r \<le> q) rs"

lemma recoverRecords_stop:
  assumes calm: "calm w" "is_open f w" and data: "data = pre @ encodeRec r @ post" and r: "good_rec r" "through < lseq r"
  shows "recoverRecords c f firstSequence final snapshot through data (length pre) sequence first s w =
    (Inr (length pre, sequence, s), w)"
proof -
  let ?p = "payloadOf r" and ?L = "PutUint32 (of_nat (length (payloadOf r)))"
  note len = length_payloadOf [OF r(1)]
  have data': "data = pre @ ?L @ ?p @ post" using data by (simp add: encodeRec_payload)
  have sl: "slice (length pre) (length pre + 4) data = ?L"
    unfolding data' by simp
  have sp: "slice (length pre + 4) (length pre + 4 + length ?p) data = ?p"
    unfolding data' using slice_append_at [of "length pre + 4" "pre @ ?L" "length pre + 4 + length ?p" ?p post] by simp
  have lens: "length data = length pre + 4 + length ?p + length post" by (simp add: data')
  have crc: "Checksum (drop 4 ?p) = Uint32 (slice 0 4 ?p)" by (simp add: recordPayload_fields)
  have mi: "\<not> maxInt < length ?p" using len(3) by (simp add: maxInt_def)
  have "replayRecord firstSequence snapshot through first sequence s ?p = StopReplay"
    using r by (simp add: replayRecord_def recordPayload_fields layout Let_def)
  then show ?thesis
    by (subst recoverRecords.simps) (use calm sl sp lens crc len mi in \<open>simp add: layout Let_def\<close>)
qed

lemma chain_upto: "chain q rs \<Longrightarrow> \<exists>rest. rs = upto_seq through rs @ rest \<and> (\<forall>r\<in>set rest. through < lseq r)"
proof (induction rs arbitrary: q)
  case (Cons r rs)
  show ?case
  proof (cases "lseq r \<le> through")
    case True
    then show ?thesis using Cons by auto
  next
    case False
    have "through < lseq x" if "x \<in> set rs" for x
      using chain_bounds [of "lseq r" rs x] Cons.prems that False by (auto simp: not_le intro: less_trans)
    then have "upto_seq through rs = []" by (auto simp: filter_empty_conv not_le)
    then show ?thesis using False \<open>\<And>x. x \<in> set rs \<Longrightarrow> through < lseq x\<close> by (auto simp: not_le)
  qed
qed simp

lemma replayFile_through:
  assumes calm: "calm w" "is_open f w" and bytes: "fileBytes f w = seg_bytes rs @ t" and t: "t = [] \<or> torn t"
    and rs: "chain q rs" "rs \<noteq> [] \<Longrightarrow> lseq (hd rs) = firstSequence"
    and run: "replayFile c f firstSequence False q sn through s w = (Inr (off, q', s'), w')"
  shows "q' = last_seq q (upto_seq through rs) \<and> s' = fold (replay_one sn) (upto_seq through rs) s \<and> w' = w"
proof -
  define data where "data = seg_bytes rs @ t"
  let ?ok = "upto_seq through rs"
  obtain rest where rest: "rs = ?ok @ rest" "\<forall>r\<in>set rest. through < lseq r" using chain_upto [OF rs(1)] by blast
  have chs: "chain q (?ok @ rest)" using rs(1) rest(1) by simp
  then have ch: "chain q ?ok" "chain (last_seq q ?ok) rest" unfolding chain_append by simp_all
  have le: "?ok \<noteq> [] \<Longrightarrow> last_seq q ?ok \<le> through" using last_in_set [of ?ok] by (auto simp: last_seq_def)
  have hd8: "take 8 data = segmentHeader" by (simp add: data_def seg_bytes_def header_checks)
  have len: "\<not> length data < 8" by (simp add: data_def seg_bytes_def header_checks)
  have hdok: "?ok \<noteq> [] \<Longrightarrow> lseq (hd ?ok) = firstSequence"
    using rs(2) rest(1) by (metis append_is_Nil_conv hd_append2)
  have data2: "data = segmentHeader @ encodeRecs ?ok @ encodeRecs rest @ t"
    using arg_cong [OF rest(1), of encodeRecs] by (simp add: data_def seg_bytes_def)
  have go: "recoverRecords c f firstSequence False sn through data 8 q True s w =
    recoverRecords c f firstSequence False sn through data (length (segmentHeader @ encodeRecs ?ok))
      (last_seq q ?ok) (?ok = []) (fold (replay_one sn) ?ok s) w"
  proof (cases "?ok = []")
    case True
    then show ?thesis by (simp add: header_checks)
  next
    case False
    then show ?thesis
      using recoverRecords_chain [OF calm data2 ch(1) le [OF False] hdok, of True c False sn s] by (simp add: header_checks)
  qed
  have "(\<exists>n. recoverRecords c f firstSequence False sn through data 8 q True s w =
      (Inr (n, last_seq q ?ok, fold (replay_one sn) ?ok s), w)) \<or>
    (\<exists>e. recoverRecords c f firstSequence False sn through data 8 q True s w = (Inl e, w))"
  proof (cases rest)
    case (Cons r rest')
    have "recoverRecords c f firstSequence False sn through data (length (segmentHeader @ encodeRecs ?ok))
        (last_seq q ?ok) (?ok = []) (fold (replay_one sn) ?ok s) w =
      (Inr (length (segmentHeader @ encodeRecs ?ok), last_seq q ?ok, fold (replay_one sn) ?ok s), w)"
      by (rule recoverRecords_stop [OF calm, where post = "encodeRecs rest' @ t" and r = r])
        (use data2 Cons ch(2) rest(2) in auto)
    then show ?thesis using go by auto
  next
    case Nil
    show ?thesis
    proof (cases "t = []")
      case True
      then have "data = segmentHeader @ encodeRecs ?ok" using data2 Nil by simp
      then show ?thesis using go recoverRecords_end [of c f firstSequence False sn through data] by auto
    next
      case False
      then have "data = (segmentHeader @ encodeRecs ?ok) @ t" "torn t" using data2 Nil t by simp_all
      then show ?thesis
        using go recoverRecords_torn [OF calm \<open>torn t\<close> False, of c firstSequence False sn through "segmentHeader @ encodeRecs ?ok"]
        by (auto simp: tornTail_def)
    qed
  qed
  then show ?thesis
  proof (elim disjE exE)
    fix n assume "recoverRecords c f firstSequence False sn through data 8 q True s w =
      (Inr (n, last_seq q ?ok, fold (replay_one sn) ?ok s), w)"
    then have "replayFile c f firstSequence False q sn through s w =
        (Inr (n, last_seq q ?ok, fold (replay_one sn) ?ok s), w)"
      using calm unfolding replayFile_def
      by (simp add: bytes [folded data_def] Let_def len hd8 header_checks Uint16_zeros segmentHeaderSize_def)
    then show ?thesis using run by simp
  next
    fix e assume "recoverRecords c f firstSequence False sn through data 8 q True s w = (Inl e, w)"
    then have "replayFile c f firstSequence False q sn through s w = (Inl e, w)"
      using calm unfolding replayFile_def
      by (simp add: bytes [folded data_def] Let_def len hd8 header_checks Uint16_zeros segmentHeaderSize_def)
    then show ?thesis using run by simp
  qed
qed

lemma last_seq_le: "chain q rs \<Longrightarrow> q \<le> last_seq q rs"
  using chain_unat by (simp add: word_le_nat_alt)

text \<open>The loop over the segments.\<close>

lemma compactSegments_through:
  assumes "calm w" "handles_ok w" "seg_chain q S"
    and "\<forall>s\<in>set S. map_of (dir w) (sname s) = Some (NFile (sino s))"
    and "\<forall>s\<in>set (butlast S). content (inodes w (sino s)) = seg_bytes (srecs s)"
    and "S \<noteq> [] \<Longrightarrow> content (inodes w (sino (last S))) = seg_bytes (srecs (last S)) @ t" "t = [] \<or> torn t"
    and "compactSegments c st sn through q (map seqfile_of S) w = (Inr (q', st'), w')"
  shows "q' = last_seq q (upto_seq through (all_recs S)) \<and> st' = fold (replay_one sn) (upto_seq through (all_recs S)) st"
  using assms
proof (induction S arbitrary: q st w)
  case (Cons s S)
  have s1: "chain q (srecs s)" "sfirst s = q + 1" "seg_chain (last_seq q (srecs s)) S" "q \<noteq> maxSequence" using Cons.prems(3) by auto
  have none: "upto_seq through (all_recs T) = []" if "seg_chain p T" "T \<noteq> []" "through < sfirst (hd T)" for p T
  proof -
    have f: "sfirst (hd T) = p + 1" "p \<noteq> maxSequence" using that(1,2) by (cases T; auto)+
    then have "through \<le> p" using that(3) word_succ_neq_zero [of p] by (auto simp: word_less_nat_alt word_le_nat_alt maxSequence_def)
    then have "through < lseq r" if "r \<in> set (all_recs T)" for r
      using chain_bounds [OF seg_chain_chain [OF \<open>seg_chain p T\<close>] that] by auto
    then show ?thesis by (auto simp: filter_empty_conv not_le)
  qed
  show ?case
  proof (cases "through < sfirst s")
    case True
    then show ?thesis using none [of q "s # S"] Cons.prems(3,8) by simp
  next
    case False
    let ?t = "if S = [] then t else []"
    have bytes: "content (inodes w (sino s)) = seg_bytes (srecs s) @ ?t" using Cons.prems(5,6) by (cases S) auto
    obtain f w1 where o: "openFile (sname s) w = (Inr f, w1)" "hino f = sino s" "is_open f w1" "calm w1"
      "handles_ok w1" "same_disk w w1" "hid f < nextHandle w1"
      using openFile_calm [OF Cons.prems(1,2), of "sname s"] Cons.prems(4) by auto
    have fb: "fileBytes f w1 = seg_bytes (srecs s) @ ?t" using o(2,6) bytes by (simp add: fileBytes_def same_disk_def)
    have hd: "srecs s \<noteq> [] \<Longrightarrow> lseq (hd (srecs s)) = sfirst s" using s1 by (cases "srecs s") auto
    obtain r w2 where rf: "replayFile c f (sfirst s) False q sn through st w1 = (r, w2)" by fastforce
    have "\<exists>off p st1. r = Inr (off, p, st1)"
      using Cons.prems(1,8) False o(1) rf by (cases r) (auto simp: recoverSegment_def split: prod.splits)
    then obtain off p st1 where r: "r = Inr (off, p, st1)" by blast
    have tt: "?t = [] \<or> torn ?t" using Cons.prems(7) by simp
    note th = replayFile_through [OF o(4,3) fb tt s1(1) hd rf [unfolded r]]
    define w3 where "w3 = w1\<lparr>closedHandles := hid f # closedHandles w1\<rparr>"
    have cl: "closeFile f w2 = (None, w3)" using closeFile_calm [OF o(4,3)] th by (simp add: w3_def)
    have w3: "calm w3" "handles_ok w3" "dir w3 = dir w" "inodes w3 = inodes w"
      using o(4-7) by (auto simp: w3_def calm_def handles_ok_def same_disk_def)
    have run: "compactSegments c st1 sn through p (map seqfile_of S) w3 = (Inr (q', st'), w')"
      using Cons.prems(1,8) False o(1) rf r cl by (simp add: recoverSegment_def)
    show ?thesis
    proof (cases "upto_seq through (srecs s) = srecs s")
      case True
      have "q' = last_seq p (upto_seq through (all_recs S)) \<and> st' = fold (replay_one sn) (upto_seq through (all_recs S)) st1"
      proof (rule Cons.IH [OF w3(1,2) _ _ _ _ Cons.prems(7) run])
        show "seg_chain p S" using s1(3) th True by simp
      qed (use Cons.prems(4-6) w3 in \<open>auto split: if_split_asm\<close>)
      then show ?thesis using th True by simp
    next
      case stop: False
      show ?thesis
      proof (cases S)
        case Nil
        then show ?thesis using run th by simp
      next
        case (Cons s2 S2)
        obtain x where x: "x \<in> set (srecs s)" "through < lseq x" using stop by (auto simp: filter_id_conv not_le)
        have "sfirst s2 = last_seq q (srecs s) + 1" "last_seq q (srecs s) \<noteq> maxSequence" using s1(3) Cons by auto
        then have "through < sfirst s2"
          using x chain_bounds [OF s1(1) x(1)] word_succ_neq_zero [of "last_seq q (srecs s)"]
          by (auto simp: word_less_nat_alt word_le_nat_alt maxSequence_def)
        then show ?thesis using run th none [of "last_seq q (srecs s)" S] s1(3) Cons by simp
      qed
    qed
  qed
qed simp

section \<open>Recovering one shard or all\<close>

text \<open>The keys that a recovery with \<open>recoveryShard\<close> takes in.\<close>

definition wanted :: "store \<Rightarrow> key \<Rightarrow> bool" where
  "wanted st k \<longleftrightarrow> recoveryShard st = None \<or> recoveryShard st = Some (shardIndex st k)"

definition only :: "(key \<Rightarrow> bool) \<Rightarrow> (key \<rightharpoonup> item) \<Rightarrow> (key \<rightharpoonup> item)" where
  "only A m = (\<lambda>k. if A k then m k else None)"

lemma apply_store_generation: "wf_store st \<Longrightarrow> evictionGeneration (apply_store r st) = evictionGeneration st"
proof (cases r)
  case (LSet k v d q)
  assume wf: "wf_store st"
  obtain x st' sh' where "setEntryLocked st (shardFor st k) k v d q = (x, st', sh')" by (metis prod_cases3)
  then show ?thesis
    using setEntryLocked_correct(5) [OF wf_store_shard(1) [OF wf]] LSet by (simp add: apply_store_def applyRecoveredSet_def Let_def)
next
  case (LDel k q)
  then show ?thesis
    by (auto simp: apply_store_def applyDelete_def Let_def dest: removeEntryLocked_frame split: option.splits prod.splits)
qed

lemma wanted_cong: "shardMask s = shardMask s' \<Longrightarrow> recoveryShard s = recoveryShard s' \<Longrightarrow> wanted s = wanted s'"
  by (simp add: wanted_def fun_eq_iff shardIndex_cong [of s s'])

lemma fold_load_wanted:
  assumes "wf_store st" "contents st = Map.empty"
  shows "wf_store (fold load_one es st) \<and> recoveryShard (fold load_one es st) = recoveryShard st \<and>
    shardMask (fold load_one es st) = shardMask st \<and> length (shards (fold load_one es st)) = length (shards st) \<and>
    evictionGeneration (fold load_one es st) = evictionGeneration st \<and>
    contents (fold load_one es st) = only (wanted st) (entry_map es)"
proof (induction es rule: rev_induct)
  case Nil
  then show ?case using assms by (simp add: entry_map_def only_def)
next
  case (snoc e es)
  let ?s = "fold load_one es st" and ?r = "LSet (ekey e) (evalue e) (edeadline e) (esequence e)"
  have w: "wanted ?s = wanted st" using wanted_cong snoc by metis
  have l: "fold load_one (es @ [e]) st = (if wanted st (ekey e) then apply_store ?r ?s else ?s)"
    using w by (simp add: load_one_def wanted_def apply_store_def fun_eq_iff)
  note a = apply_store_correct [of ?s ?r] apply_store_generation [of ?s ?r]
  have "contents (apply_store ?r ?s) = only (wanted st) (entry_map (es @ [e]))" if "wanted st (ekey e)"
    using a(2) snoc that by (auto simp: entry_map_def fun_eq_iff only_def)
  moreover have "only (wanted st) (entry_map es) = only (wanted st) (entry_map (es @ [e]))" if "\<not> wanted st (ekey e)"
    using that by (auto simp: entry_map_def fun_eq_iff only_def)
  ultimately show ?case using snoc a l by simp
qed

lemma fold_replay_generation:
  "wf_store st \<Longrightarrow> evictionGeneration (fold (replay_one sn) rs st) = evictionGeneration st"
proof (induction rs arbitrary: st)
  case (Cons r rs)
  then show ?case
    using apply_store_correct(1) [OF Cons.prems, of r] apply_store_generation [OF Cons.prems, of r] by (simp add: replay_one_def)
qed simp

lemma replay_filter_key:
  "replay (filter (\<lambda>r. A (lkey r) \<and> P r) rs) m k = (if A k then replay (filter P rs) m k else m k)"
proof -
  have "filter (\<lambda>r. lkey r = k) (filter (\<lambda>r. A (lkey r) \<and> P r) rs) =
      (if A k then filter (\<lambda>r. lkey r = k) (filter P rs) else [])"
    by (induction rs) auto
  then show ?thesis by (simp add: replay_last)
qed

lemma replay_other_key: "replay rs m k = replay rs m' k" if "m k = m' k"
  using that by (simp add: replay_last)

lemma lacks_only: "lacks E m m' \<Longrightarrow> lacks E (only A m) (only A m')"
  by (auto simp: lacks_def only_def)

lemma wf_store_recoveryShard [simp]:
  "wf_store (st\<lparr>recoveryShard := x\<rparr>) = wf_store st" "contents (st\<lparr>recoveryShard := x\<rparr>) = contents st"
  "shardIndex (st\<lparr>recoveryShard := x\<rparr>) k = shardIndex st k"
  by (simp_all add: wf_store_def routed_def homed_def shardIndex_def contents_def shardFor_def fun_eq_iff)

lemma shouldApply_wanted:
  "shouldApply st sn k q \<longleftrightarrow> wanted st k \<and> shouldApply (st\<lparr>recoveryShard := None\<rparr>) sn k q"
  by (cases "replaySequences sn") (simp_all add: shouldApply_def wanted_def)

text \<open>A snapshot with the log behind it, replayed for the wanted keys.\<close>

lemma replayed_wanted:
  assumes st: "wf_store st" "contents st = Map.empty"
    and qs: "0 < length qs" "length qs < 2 ^ 63"
    and H: "chain 0 (old @ rs)" "\<forall>r\<in>set old. lseq r \<le> lowest (newSnapshotState qs True)"
    and cov: "covers E (snap_seq qs) (old @ rs) (entry_map es)"
  defines "sn \<equiv> newSnapshotState qs (length qs = length (shards st))"
  defines "st' \<equiv> fold (replay_one sn) rs (fold load_one es st)"
  shows "wf_store st'" "lacks E (contents st') (only (wanted st) (replay (old @ rs) Map.empty))"
    "length (shards st') = length (shards st)" "evictionGeneration st' = evictionGeneration st"
proof -
  let ?n = "length (shards st)" and ?s = "fold load_one es st"
  note l = fold_load_wanted [OF st, of es]
  note r = fold_replay_one [of ?s st' sn rs, OF _ st'_def [THEN meta_eq_to_obj_eq]]
  have app: "shouldApply ?s sn k q \<longleftrightarrow> wanted st k \<and> replay_from qs ?n k < q" for k q
  proof -
    have "wf_store (?s\<lparr>recoveryShard := None\<rparr>)" using l by simp
    then have "shouldApply (?s\<lparr>recoveryShard := None\<rparr>) sn k q \<longleftrightarrow> replay_from qs ?n k < q"
      using shouldApply_from [of "?s\<lparr>recoveryShard := None\<rparr>" ?n qs k q] l by (simp add: sn_def)
    moreover have "wanted ?s k = wanted st k" using wanted_cong [of ?s st] l by (simp add: fun_eq_iff)
    ultimately show ?thesis using shouldApply_wanted [of ?s sn k q] by simp
  qed
  have low: "\<forall>k. lowest (newSnapshotState qs True) \<le> replay_from qs ?n k"
    using replay_from_bounds(1) [OF qs] by blast
  have all: "lacks E (replay (filter (\<lambda>r. replay_from qs ?n (lkey r) < lseq r) rs) (entry_map es)) (replay (old @ rs) Map.empty)"
    using replay_over_snapshot [OF chain_sorted [OF H(1)] cov, of "replay_from qs ?n"] replay_from_bounds(2) [OF qs]
      filter_skipped [OF H(2) low, of rs] by simp
  have "contents st' = only (wanted st) (replay (filter (\<lambda>r. replay_from qs ?n (lkey r) < lseq r) rs) (entry_map es))"
  proof
    fix k
    have "contents st' k = replay (filter (\<lambda>r. wanted st (lkey r) \<and> replay_from qs ?n (lkey r) < lseq r) rs) (only (wanted st) (entry_map es)) k"
      using r l by (simp add: app)
    also have "\<dots> = only (wanted st) (replay (filter (\<lambda>r. replay_from qs ?n (lkey r) < lseq r) rs) (entry_map es)) k"
      using replay_other_key [of "only (wanted st) (entry_map es)" k "entry_map es"]
        replay_filter_key [of "wanted st" "\<lambda>r. replay_from qs ?n (lkey r) < lseq r" rs "only (wanted st) (entry_map es)" k]
      by (simp add: only_def)
    finally show "contents st' k = only (wanted st) (replay (filter (\<lambda>r. replay_from qs ?n (lkey r) < lseq r) rs) (entry_map es)) k" .
  qed
  then show "lacks E (contents st') (only (wanted st) (replay (old @ rs) Map.empty))" using lacks_only [OF all] by simp
  show "wf_store st'" "length (shards st') = length (shards st)" using r l by auto
  show "evictionGeneration st' = evictionGeneration st" unfolding st'_def using fold_replay_generation l by metis
qed

section \<open>The durable image\<close>

lemma covers_upto:
  assumes "covers E q H m" "\<forall>k. q k \<le> through"
  shows "covers E q (upto_seq through H) m"
proof -
  have "filter (\<lambda>r. lseq r \<le> q k) (upto_seq through H) = filter (\<lambda>r. lseq r \<le> q k) H" for k
    using assms(2) by (auto intro!: filter_cong intro: order_trans)
  then show ?thesis using assms(1) by (simp add: covers_def)
qed

lemma upto_all: "\<forall>r\<in>set rs. lseq r \<le> q \<Longrightarrow> upto_seq q rs = rs"
  by (simp add: filter_id_conv)

lemma snap_seq_bounds:
  assumes "0 < length qs" "length qs < 2 ^ 63"
  shows "lowest (newSnapshotState qs b) \<le> snap_seq qs k" "snap_seq qs k \<le> highest (newSnapshotState qs b)"
  using snap_shard_less [OF assms, of k] lowest_le highest_ge by (metis nth_mem)+

text \<open>What is known of an image that was recovered through the sequence \<open>q\<close> of the log \<open>H\<close>.\<close>

definition image_of :: "(item \<Rightarrow> bool) \<Rightarrow> logrec list \<Rightarrow> store \<Rightarrow> u64 \<Rightarrow> store \<Rightarrow> bool" where
  "image_of E H st q img \<longleftrightarrow> wf_store img \<and> length (shards img) = length (shards st) \<and> logSequence img = q \<and>
     evictionGeneration img = evictionGeneration st \<and>
     lacks E (contents img) (only (wanted st) (replay (upto_seq q H) Map.empty))"

lemma setLogSequence_simps [simp]:
  "wf_store (setLogSequence q st) = wf_store st" "contents (setLogSequence q st) = contents st"
  "shards (setLogSequence q st) = shards st" "logSequence (setLogSequence q st) = q"
  "evictionGeneration (setLogSequence q st) = evictionGeneration st"
  by (simp_all add: setLogSequence_def wf_store_def routed_def homed_def shardIndex_def contents_def shardFor_def fun_eq_iff)

text \<open>The segments that are read, after those that the snapshot makes superfluous.\<close>

lemma compacted_log:
  assumes w: "calm w" "handles_ok w" and d: "disk_log w base S t" and S12: "S = S1 @ S2"
    and run: "compactSegments c st sn through (last_seq base (all_recs S1)) (map seqfile_of S2) w = (Inr (through, st'), w')"
    and S1: "\<forall>r\<in>set (all_recs S1). lseq r \<le> through" "base \<le> through"
  shows "st' = fold (replay_one sn) (upto_seq through (all_recs S2)) st" "through \<le> last_seq base (all_recs S)"
proof -
  from d have S: "segs_in_dir w S" "seg_chain base S"
    and bl: "\<forall>s\<in>set (butlast S). content (inodes w (sino s)) = seg_bytes (srecs s)"
    and last: "content (inodes w (sino (last S))) = seg_bytes (srecs (last S)) @ t" "t = [] \<or> torn t"
    by (auto simp: disk_log_def)
  let ?q = "last_seq base (all_recs S1)"
  have c2: "seg_chain ?q S2" using seg_chain_suffix [of base S1 S2] S(2) S12 by simp
  have sub: "set (butlast S2) \<subseteq> set (butlast S)" "S2 \<noteq> [] \<Longrightarrow> last S2 = last S" unfolding S12 by (auto simp: butlast_append)
  have r: "through = last_seq ?q (upto_seq through (all_recs S2)) \<and> st' = fold (replay_one sn) (upto_seq through (all_recs S2)) st"
  proof (rule compactSegments_through [OF w c2 _ _ _ last(2) run])
    show "\<forall>s\<in>set S2. map_of (dir w) (sname s) = Some (NFile (sino s))" using segs_in_dir_lookup [OF S(1)] S12 by simp
    show "\<forall>s\<in>set (butlast S2). content (inodes w (sino s)) = seg_bytes (srecs s)" using bl sub by blast
    show "S2 \<noteq> [] \<Longrightarrow> content (inodes w (sino (last S2))) = seg_bytes (srecs (last S2)) @ t" using last(1) sub by simp
  qed
  then show "st' = fold (replay_one sn) (upto_seq through (all_recs S2)) st" by blast
  obtain rest where rest: "all_recs S2 = upto_seq through (all_recs S2) @ rest"
    using chain_upto [OF seg_chain_chain [OF c2]] by blast
  have "chain ?q (upto_seq through (all_recs S2) @ rest)" using seg_chain_chain [OF c2] rest by simp
  then have "last_seq ?q (upto_seq through (all_recs S2)) \<le> last_seq (last_seq ?q (upto_seq through (all_recs S2))) rest"
    unfolding chain_append using last_seq_le by blast
  also have "\<dots> = last_seq base (all_recs S)" using rest S12 by (metis concat_append last_seq_simps(3) map_append)
  finally show "through \<le> last_seq base (all_recs S)" using r by simp
qed

lemma durable_image_log:
  assumes w: "calm w" "handles_ok w" and d: "disk_log w 0 S t" and sn: "no_snapshots w"
    and st: "wf_store st" "contents st = Map.empty"
    and run: "recoverDurableImage c st through w = (Inr img, w')"
  shows "image_of E (all_recs S) st through img" "through \<le> last_seq 0 (all_recs S)"
proof -
  from d have S: "S \<noteq> []" "segs_in_dir w S" "seg_chain 0 S" by (auto simp: disk_log_def)
  have f: "snd (hd (map seqfile_of S)) = 1" using S(1,3) by (cases S) auto
  have ls: "listSegments w = (Inr (map seqfile_of S), w)" using listSegments_disk [OF w(1) S(2,3)] .
  obtain r w2 where c: "compactSegments c st noSnapshot through 0 (map seqfile_of S) w = (r, w2)" by fastforce
  have "\<not> loaded noSnapshot" by (simp add: noSnapshot_def)
  then obtain st' where r: "r = Inr (through, st')" "img = setLogSequence through st'"
    using run c ls f S(1) loadSnapshot_none [OF w(1) sn, of c st]
    by (cases r) (auto simp: recoverDurableImage_def Let_def split: if_splits)
  have st': "st' = fold (replay_one noSnapshot) (upto_seq through (all_recs S)) st"
    and le: "through \<le> last_seq 0 (all_recs S)"
    using compacted_log [OF w d, of "[]" S c st noSnapshot through st' w2] c r(1) by simp_all
  note fr = fold_replay_one [OF st(1) st']
  have "shouldApply st noSnapshot k q \<longleftrightarrow> wanted st k" for k q
    by (simp add: shouldApply_def wanted_def noSnapshot_def)
  then have "contents st' k = only (wanted st) (replay (upto_seq through (all_recs S)) Map.empty) k" for k
    using fr replay_filter_key [of "wanted st" "\<lambda>_. True" "upto_seq through (all_recs S)" Map.empty k] st(2)
    by (simp add: only_def)
  then have "lacks E (contents st') (only (wanted st) (replay (upto_seq through (all_recs S)) Map.empty))"
    by (simp add: lacks_def)
  then show "image_of E (all_recs S) st through img"
    using fr r(2) fold_replay_generation [OF st(1)] st' by (simp add: image_of_def)
  show "through \<le> last_seq 0 (all_recs S)" by (rule le)
qed

lemma disk_log_same_disk: "same_disk w w' \<Longrightarrow> disk_log w' base S t = disk_log w base S t"
  unfolding disk_log_def segs_in_dir_def flushed_def same_disk_def by simp

lemma durable_image_snapshot:
  assumes w: "calm w" "handles_ok w" and d: "disk_log w base S t"
    and H: "chain 0 (old @ all_recs S)" "last_seq 0 old = base"
    and fits: "snapshot_fits w qs es E (old @ all_recs S) base (last_seq base (all_recs S))"
    and st: "wf_store st" "contents st = Map.empty" "length (shards st) < 2 ^ 32"
    and run: "recoverDurableImage c st through w = (Inr img, w')"
  shows "image_of E (old @ all_recs S) st through img" "through \<le> last_seq base (all_recs S)"
    "highest (newSnapshotState qs True) \<le> through"
proof -
  let ?sn = "newSnapshotState qs (length qs = length (shards st))" and ?st = "fold load_one es st"
  from fits have sn: "snapshot_on_disk w qs es" and low: "base \<le> lowest (newSnapshotState qs True)"
    and cov: "covers E (snap_seq qs) (old @ all_recs S) (entry_map es)" by (auto simp: snapshot_fits_def)
  have qs: "0 < length qs" "length qs < 2 ^ 63"
    using sn power_strict_increasing [of _ 63 "2 :: nat"] by (auto simp: snapshot_on_disk_def)
  from d have S: "S \<noteq> []" "segs_in_dir w S" "seg_chain base S" by (auto simp: disk_log_def)
  obtain w1 where ld: "loadSnapshot c st w = (Inr (?sn, ?st), w1)" and w1: "calm w1" "handles_ok w1" "same_disk w w1"
    using loadSnapshot_disk [OF w sn st(3), of c] by blast
  have d1: "disk_log w1 base S t" using d disk_log_same_disk [OF w1(3)] by simp
  have ls: "listSegments w1 = (Inr (map seqfile_of S), w1)"
    using listSegments_disk [OF w1(1) _ S(3)] d1 by (simp add: disk_log_def)
  have hl: "lowest ?sn = lowest (newSnapshotState qs True)" "highest ?sn = highest (newSnapshotState qs True)"
    using lowest_flag by metis+
  have lowsn: "base \<le> lowest ?sn" using low hl by simp
  have lh: "lowest ?sn \<le> highest ?sn" using snap_seq_bounds [OF qs] order_trans by blast
  note hd = hd_first_le [OF S(3,1) lowsn]
  have hdS: "snd (hd (map seqfile_of S)) = sfirst (hd S)" "map seqfile_of S \<noteq> []" using S(1) by (simp_all add: hd_map)
  have hi: "highest ?sn \<le> through" using run ld by (auto simp: recoverDurableImage_def split: if_splits)
  then show "highest (newSnapshotState qs True) \<le> through" using hl by simp
  have q_le: "\<forall>k. snap_seq qs k \<le> through" using snap_seq_bounds(2) [OF qs] hi hl order_trans by metis
  have old_le: "lseq r \<le> lowest (newSnapshotState qs True)" if "r \<in> set old" for r
    using chain_bounds [of 0 old r] H low that by (auto intro: order_trans)
  note lw = fold_load_wanted [OF st(1,2), of es]
  note defs = recoverDurableImage_def Let_def ld ls prod.case sum.case newSnapshotState_simps(1) simp_thms if_True if_False
  show "image_of E (old @ all_recs S) st through img" "through \<le> last_seq base (all_recs S)"
  proof (atomize (full), cases "highest ?sn = through \<and> through < sfirst (hd S)")
    case True
    have img: "img = setLogSequence through ?st"
      using run True hdS by (simp add: defs)
    have "sfirst (hd S) = base + 1" "base \<noteq> maxSequence" using S(1,3) by (cases S; auto)+
    then have "through \<le> base"
      using True word_succ_neq_zero [of base] by (auto simp: word_less_nat_alt word_le_nat_alt maxSequence_def)
    then have "snap_seq qs k = through" for k
      using snap_seq_bounds [OF qs, where k = k] True lowsn hl by (metis order_antisym order_trans)
    then have "covers E (\<lambda>k. through) (old @ all_recs S) (entry_map es)" using cov by simp
    then have "image_of E (old @ all_recs S) st through img"
      using lw img lacks_only [of E "entry_map es"] by (simp add: image_of_def covers_def)
    moreover have "through \<le> last_seq base (all_recs S)"
      using \<open>through \<le> base\<close> last_seq_le [OF seg_chain_chain [OF S(3)]] by (rule order_trans)
    ultimately show "image_of E (old @ all_recs S) st through img \<and> through \<le> last_seq base (all_recs S)" by blast
  next
    case False
    define i where "i = startIndex (firstRequired ?sn) (map seqfile_of S)"
    have i: "i < length S" "sfirst (S ! i) \<le> firstRequired ?sn"
      using startIndex_ok [of "map seqfile_of S" "firstRequired ?sn"] S(1) hd by (auto simp: i_def hd_map)
    define S1 S2 where "S1 = take i S" and "S2 = drop i S"
    have S12: "S = S1 @ S2" "S2 \<noteq> []" "hd S2 = S ! i"
      using i(1) by (simp_all add: S1_def S2_def hd_drop_conv_nth)
    let ?q = "last_seq base (all_recs S1)"
    have c2: "seg_chain ?q S2" using seg_chain_suffix [of base S1 S2] S(3) S12(1) by simp
    then have prev: "snd (map seqfile_of S ! i) - 1 = ?q" using S12(2,3) i(1) by (cases S2) auto
    obtain r w2 where c: "compactSegments c ?st ?sn through ?q (map seqfile_of S2) w1 = (r, w2)" by fastforce
    have c': "compactSegments c ?st ?sn through (snd (map seqfile_of S ! i) - 1) (drop i (map seqfile_of S)) w1 = (r, w2)"
      using c by (simp only: prev S2_def drop_map)
    have k: "(through < highest ?sn) = False" "(map seqfile_of S = []) = False"
      "(firstRequired ?sn < snd (hd (map seqfile_of S))) = False"
      "(highest ?sn = through \<and> through < snd (hd (map seqfile_of S))) = False"
      using hd hdS hi False by auto
    have "recoverDurableImage c st through w =
        (case r of Inl err \<Rightarrow> (Inl err, w2)
         | Inr (lastSequence, st') \<Rightarrow>
             (if lastSequence \<noteq> through then (Inl (ErrCompactionGap lastSequence through), w2)
              else (Inr (setLogSequence through st'), w2)))"
      by (simp only: defs k i_def [symmetric] c')
    then obtain st' where r: "r = Inr (through, st')" "img = setLogSequence through st'"
      using run by (cases r) (auto split: if_splits)
    have low1: "\<forall>r\<in>set (all_recs S1). lseq r \<le> lowest ?sn"
      using skipped_records [of base S1 S2 ?sn] S(3) S12 i(2) by metis
    then have S1_le: "\<forall>r\<in>set (all_recs S1). lseq r \<le> through" "base \<le> through"
      using lh hi lowsn by (meson order_trans)+
    note cl = compacted_log [OF w1(1,2) d1 S12(1) c [unfolded r(1)] S1_le]
    have up: "upto_seq through (old @ all_recs S) = (old @ all_recs S1) @ upto_seq through (all_recs S2)"
    proof -
      have "lowest (newSnapshotState qs True) \<le> through" using lh hi hl by simp
      then have "\<forall>r\<in>set old. lseq r \<le> through" using old_le by (meson order_trans)
      then show ?thesis using S12(1) upto_all [of old through] upto_all [OF S1_le(1)] by simp
    qed
    have ch: "chain 0 ((old @ all_recs S1) @ upto_seq through (all_recs S2))"
    proof -
      obtain rest where "old @ all_recs S = upto_seq through (old @ all_recs S) @ rest" using chain_upto [OF H(1)] by blast
      then show ?thesis using H(1) up by (metis chain_append)
    qed
    have cov': "covers E (snap_seq qs) ((old @ all_recs S1) @ upto_seq through (all_recs S2)) (entry_map es)"
      using covers_upto [OF cov q_le] up by simp
    have "\<forall>r\<in>set (old @ all_recs S1). lseq r \<le> lowest (newSnapshotState qs True)" using old_le low1 hl by auto
    note rw = replayed_wanted [OF st(1,2) qs ch this cov', folded cl(1)]
    then show "image_of E (old @ all_recs S) st through img \<and> through \<le> last_seq base (all_recs S)"
      using r(2) cl(2) up by (simp add: image_of_def)
  qed
qed

text \<open>
  The two cases together, and with calls that may fail: what an image holds that was
  returned at all.
\<close>

lemma durable_image:
  assumes "handles_ok w" "disk_log w base S t" "chain 0 (old @ all_recs S)" "last_seq 0 old = base"
    and sn: "no_snapshots w \<and> old = [] \<or>
      snapshot_fits (restart w) qs es E (old @ all_recs S) base (last_seq base (all_recs S))"
    and st: "wf_store st" "contents st = Map.empty" "length (shards st) < 2 ^ 32"
    and run: "recoverDurableImage c st through w = (Inr img, w')"
  shows "image_of E (old @ all_recs S) st through img" "through \<le> last_seq base (all_recs S)"
    "no_snapshots w \<or> highest (newSnapshotState qs True) \<le> through"
proof (atomize (full))
  have r: "recoverDurableImage c st through (restart w) = (Inr img, restart w')"
    using recoverDurableImage_reads [OF run] by blast
  have w: "calm (restart w)" "handles_ok (restart w)" "disk_log (restart w) base S t" using assms(1,2) by simp_all
  from sn show "image_of E (old @ all_recs S) st through img \<and> through \<le> last_seq base (all_recs S) \<and>
    (no_snapshots w \<or> highest (newSnapshotState qs True) \<le> through)"
  proof
    assume n: "no_snapshots w \<and> old = []"
    then have "base = 0" using assms(4) by simp
    then show ?thesis
      using durable_image_log [OF w(1,2) _ _ st(1,2) r] w(3) n by auto
  next
    assume "snapshot_fits (restart w) qs es E (old @ all_recs S) base (last_seq base (all_recs S))"
    then show ?thesis using durable_image_snapshot [OF w assms(3,4) _ st r] by blast
  qed
qed

end
