(* ===== verification/Cache_Compaction_Props.thy ===== *)
theory Cache_Compaction_Props
  imports Cache_Compaction Cache_Snapshot_Props
begin

text \<open>
  Compaction as a whole: it succeeds on a log that was rolled before, as \<open>startSnapshot\<close> does it, and
  what it returns is what the log holds.
\<close>

section \<open>Compaction succeeds\<close>

lemma last_seq_less: "chain q rs \<Longrightarrow> rs \<noteq> [] \<Longrightarrow> q < last_seq q rs"
  using chain_bounds [of q rs "last rs"] last_in_set [of rs] by (simp add: last_seq_def)

lemma compactSegments_runs:
  assumes "calm w" "handles_ok w" "seg_chain q (S1 @ S2)" "S2 \<noteq> []" "last_seq q (all_recs S1) = through"
    and "\<forall>s\<in>set S1. map_of (dir w) (sname s) = Some (NFile (sino s)) \<and> content (inodes w (sino s)) = seg_bytes (srecs s)"
  shows "\<exists>st' w'. compactSegments c st sn through q (map seqfile_of (S1 @ S2)) w = (Inr (through, st'), w')"
  using assms
proof (induction S1 arbitrary: q st w)
  case Nil
  then have "sfirst (hd S2) = through + 1" "through \<noteq> maxSequence" by (cases S2; auto)+
  then have "through < sfirst (hd S2)"
    using word_succ_neq_zero [of through] by (auto simp: word_less_nat_alt maxSequence_def)
  then show ?case using Nil.prems by (cases S2) auto
next
  case (Cons s S1)
  have s: "chain q (srecs s)" "sfirst s = q + 1" "q \<noteq> maxSequence" "srecs s \<noteq> []" "seg_chain (last_seq q (srecs s)) (S1 @ S2)"
    using Cons.prems(3,4) by auto
  have le: "last_seq q (srecs s) \<le> through"
    using last_seq_le [of "last_seq q (srecs s)" "all_recs S1"] Cons.prems(5) seg_chain_chain [OF s(5)] by simp
  have "q < through" using last_seq_less [OF s(1,4)] le by simp
  then have notpast: "\<not> through < sfirst s"
    using s(2,3) word_succ_neq_zero [of q] by (auto simp: word_less_nat_alt maxSequence_def not_less)
  obtain f w1 where r: "recoverSegment c st (seqfile_of s) False q sn through w =
      (Inr (f, length (seg_bytes (srecs s)), last_seq q (srecs s), fold (replay_one sn) (srecs s) st), w1)"
    and d1: "replayed_disk [s] w f w1" and same: "inodes w1 = inodes w"
    using recoverSegment_through [OF Cons.prems(1,2) _ _ _ s(1,2) le, of "[]" False c st sn] Cons.prems(6) by auto
  define w2 where "w2 = w1\<lparr>closedHandles := hid f # closedHandles w1\<rparr>"
  have cl: "closeFile f w1 = (None, w2)" using d1 closeFile_calm [of w1 f] by (simp add: replayed_disk_def w2_def)
  have w2: "calm w2" "handles_ok w2" "dir w2 = dir w" "inodes w2 = inodes w"
    using d1 same by (auto simp: w2_def replayed_disk_def calm_def handles_ok_def)
  obtain st' w' where "compactSegments c (fold (replay_one sn) (srecs s) st) sn through (last_seq q (srecs s))
      (map seqfile_of (S1 @ S2)) w2 = (Inr (through, st'), w')"
    using Cons.IH [OF w2(1,2) s(5) Cons.prems(4)] Cons.prems(5,6) w2(3,4) by fastforce
  then show ?case using r cl notpast Cons.prems(1) by simp
qed

text \<open>A log with its last segment open and \<open>through\<close> at the end of the segments before it.\<close>

lemma compaction_log_runs:
  assumes w: "calm w" "handles_ok w" and d: "disk_log w 0 (S1 @ S2) t" "S2 \<noteq> []" and sn: "no_snapshots w"
  shows "\<exists>img w'. recoverDurableImage c st (last_seq 0 (all_recs S1)) w = (Inr img, w')"
proof -
  let ?S = "S1 @ S2"
  from d(1) have S: "?S \<noteq> []" "segs_in_dir w ?S" "seg_chain 0 ?S" by (auto simp: disk_log_def)
  have f: "snd (hd (map seqfile_of ?S)) = 1" using S(1,3) by (cases "?S") auto
  have ls: "listSegments w = (Inr (map seqfile_of ?S), w)" using listSegments_disk [OF w(1) S(2,3)] .
  have bl: "\<forall>s\<in>set S1. map_of (dir w) (sname s) = Some (NFile (sino s)) \<and> content (inodes w (sino s)) = seg_bytes (srecs s)"
    using d segs_in_dir_lookup [OF S(2)] by (auto simp: disk_log_def butlast_append)
  obtain st' w' where "compactSegments c st noSnapshot (last_seq 0 (all_recs S1)) 0 (map seqfile_of ?S) w =
      (Inr (last_seq 0 (all_recs S1), st'), w')"
    using compactSegments_runs [OF w S(3) d(2) refl bl] by blast
  moreover have "\<not> loaded noSnapshot" by (simp add: noSnapshot_def)
  ultimately show ?thesis
    using ls f S(1) loadSnapshot_none [OF w(1) sn, of c st] by (simp add: recoverDurableImage_def Let_def)
qed

lemma compaction_snapshot_runs:
  assumes w: "calm w" "handles_ok w" and d: "disk_log w base (S1 @ S2) t" "S2 \<noteq> []"
    and sn: "snapshot_on_disk w qs es" "base \<le> lowest (newSnapshotState qs True)"
      "highest (newSnapshotState qs True) \<le> last_seq base (all_recs S1)"
    and st: "length (shards st) < 2 ^ 32"
  shows "\<exists>img w'. recoverDurableImage c st (last_seq base (all_recs S1)) w = (Inr img, w')"
proof -
  let ?sn = "newSnapshotState qs (length qs = length (shards st))" and ?S = "S1 @ S2" and ?th = "last_seq base (all_recs S1)"
  have qs: "0 < length qs" "length qs < 2 ^ 63"
    using sn(1) power_strict_increasing [of _ 63 "2 :: nat"] by (auto simp: snapshot_on_disk_def)
  from d(1) have S: "?S \<noteq> []" "segs_in_dir w ?S" "seg_chain base ?S" by (auto simp: disk_log_def)
  obtain w1 where ld: "loadSnapshot c st w = (Inr (?sn, fold load_one es st), w1)"
    and w1: "calm w1" "handles_ok w1" "same_disk w w1"
    using loadSnapshot_disk [OF w sn(1) st, of c] by blast
  have d1: "disk_log w1 base ?S t" using d(1) disk_log_same_disk [OF w1(3)] by simp
  then have S1': "segs_in_dir w1 ?S" by (simp add: disk_log_def)
  have ls: "listSegments w1 = (Inr (map seqfile_of ?S), w1)" using listSegments_disk [OF w1(1) S1' S(3)] .
  have hl: "lowest ?sn = lowest (newSnapshotState qs True)" "highest ?sn = highest (newSnapshotState qs True)"
    using lowest_flag by metis+
  have lh: "lowest ?sn \<le> highest ?sn" using snap_seq_bounds [OF qs] order_trans by blast
  have lowsn: "base \<le> lowest ?sn" using sn(2) hl by simp
  note hd = hd_first_le [OF S(3,1) lowsn]
  have hdS: "snd (hd (map seqfile_of ?S)) = sfirst (hd ?S)" "map seqfile_of ?S \<noteq> []" using S(1) by (simp_all add: hd_map del: map_append)
  have hi: "\<not> ?th < highest ?sn" using sn(3) hl by simp
  have c2: "seg_chain ?th S2" using seg_chain_suffix [OF S(3)] .
  then have s2: "sfirst (hd S2) = ?th + 1" "?th \<noteq> maxSequence" using d(2) by (cases S2; auto)+
  define i where "i = startIndex (firstRequired ?sn) (map seqfile_of ?S)"
  have i: "i < length ?S" "sfirst (?S ! i) \<le> firstRequired ?sn"
    using startIndex_ok [of "map seqfile_of ?S" "firstRequired ?sn"] S(1) hd hdS by (auto simp: i_def simp del: map_append)
  have fr: "firstRequired ?sn \<le> ?th + 1"
  proof -
    have "lowest ?sn \<le> ?th" using hi lh by simp
    moreover from this have "lowest ?sn \<noteq> maxSequence" using s2(2) by (auto simp: maxSequence_def word_order.extremum_unique)
    ultimately show ?thesis
      using s2(2) word_succ_neq_zero [of "lowest ?sn"] word_succ_neq_zero [of ?th]
      by (simp add: firstRequired_def word_le_nat_alt maxSequence_def)
  qed
  have i1: "i \<le> length S1"
  proof (rule ccontr)
    assume "\<not> i \<le> length S1"
    then obtain s T where S2: "S2 = s # T" "?S ! i \<in> set T"
      using i(1) d(2) by (cases S2) (auto simp: nth_append nth_Cons' intro!: nth_mem)
    then have "?th + 1 < sfirst (?S ! i)"
      using c2 last_seq_less [of ?th "srecs s"] seg_chain_first [of "last_seq ?th (srecs s)" T "?S ! i"] s2(2) word_succ_neq_zero [of ?th]
      by (cases T) (auto simp: word_less_nat_alt maxSequence_def)
    then show False using i(2) fr by simp
  qed
  let ?q = "last_seq base (all_recs (take i S1))"
  have "seg_chain ?q (drop i S1 @ S2)" using seg_chain_suffix [of base "take i S1" "drop i S1 @ S2"] S(3)
    by (metis append.assoc append_take_drop_id)
  moreover have "last_seq ?q (all_recs (drop i S1)) = ?th"
    by (metis append_take_drop_id concat_append last_seq_simps(3) map_append)
  moreover have "\<forall>s\<in>set (drop i S1). map_of (dir w1) (sname s) = Some (NFile (sino s)) \<and> content (inodes w1 (sino s)) = seg_bytes (srecs s)"
    using d1 d(2) segs_in_dir_lookup [OF S1'] by (auto simp: disk_log_def butlast_append dest: in_set_dropD)
  ultimately obtain st' w' where c: "compactSegments c (fold load_one es st) ?sn ?th ?q (map seqfile_of (drop i S1 @ S2)) w1 =
      (Inr (?th, st'), w')"
    using compactSegments_runs [OF w1(1,2) _ d(2)] by blast
  have "drop i (map seqfile_of ?S) = map seqfile_of (drop i S1 @ S2)" using i1 by (simp add: drop_map)
  moreover have "snd (map seqfile_of ?S ! i) - 1 = ?q"
    using \<open>seg_chain ?q (drop i S1 @ S2)\<close> i i1 hd_drop_conv_nth [of i ?S]
    by (cases "drop i S1 @ S2") (auto simp del: map_append)
  ultimately have c': "compactSegments c (fold load_one es st) ?sn ?th (snd (map seqfile_of ?S ! i) - 1) (drop i (map seqfile_of ?S)) w1 =
      (Inr (?th, st'), w')" using c by simp
  have k: "(?th < highest ?sn) = False" "(map seqfile_of ?S = []) = False" "(firstRequired ?sn < snd (hd (map seqfile_of ?S))) = False"
    using hi hd hdS by auto
  show ?thesis
    by (cases "highest ?sn = ?th \<and> ?th < snd (hd (map seqfile_of ?S))")
      (simp_all only: recoverDurableImage_def Let_def ld ls prod.case sum.case newSnapshotState_simps(1) simp_thms if_True if_False
        k i_def [symmetric] c', auto)
qed

section \<open>The property\<close>

lemma restart_calm: "calm w \<Longrightarrow> restart w = w"
  by (simp add: calm_def restart_def)

lemma snapshot_not_none:
  assumes "snapshot_on_disk (restart w) qs es"
  shows "\<not> no_snapshots w"
proof
  assume "no_snapshots w"
  then have "listSnapshots (restart w) = (Inr [], restart w)" by (simp add: listSnapshots_none)
  then show False using assms by (simp add: snapshot_on_disk_def)
qed

text \<open>C19. A compaction rebuilds the log. Take a directory whose segments hold the end of the history, with a
  snapshot that covers the rest or with all of it in segments. Whatever calls fail, an image that
  \<open>recoverDurableImage\<close> returns for the sequence \<open>through\<close> is a well-formed store that holds what replaying the
  history through \<open>through\<close> gives, but for expired items, and nothing was evicted from it; with
  \<open>recoveryShard\<close> set it holds that shard of it. And when no call fails and the log was rolled after
  \<open>through\<close>, as \<open>startSnapshot\<close> does it, an image is returned.\<close>

theorem compaction_rebuilds_the_log:
  assumes "handles_ok w" "disk_log w base S t" "chain 0 (old @ all_recs S)" "last_seq 0 old = base"
    "no_snapshots w \<and> old = [] \<or>
       snapshot_fits (restart w) qs es E (old @ all_recs S) base (last_seq base (all_recs S))"
    "0 < n" "n < 2 ^ 32" and st_def: "st = (newStoreState n cap)\<lparr>recoveryShard := only_shard\<rparr>"
  shows "(recoverDurableImage c st through w = (Inr img, w') \<longrightarrow>
      wf_store img \<and> logSequence img = through \<and> evictionGeneration img = 0 \<and>
      lacks E (contents img)
        (only (\<lambda>k. \<forall>i. only_shard = Some i \<longrightarrow> shardIndex st k = i) (replay (upto_seq through (old @ all_recs S)) Map.empty))) \<and>
    (calm w \<and> S = S1 @ S2 \<and> S2 \<noteq> [] \<and> (no_snapshots w \<or> highest (newSnapshotState qs True) \<le> last_seq base (all_recs S1)) \<longrightarrow>
      (\<exists>img w'. recoverDurableImage c st (last_seq base (all_recs S1)) w = (Inr img, w')))"
proof (intro conjI impI)
  have st: "wf_store st" "contents st = Map.empty"
    using wf_newStoreState [of n cap] assms(6,7) by (simp_all add: st_def)
  have st': "length (shards st) < 2 ^ 32" "evictionGeneration st = 0"
    using assms(7) by (simp_all add: st_def newStoreState_def)
  have wt: "wanted st = (\<lambda>k. \<forall>i. only_shard = Some i \<longrightarrow> shardIndex st k = i)"
    by (cases only_shard) (auto simp: wanted_def st_def fun_eq_iff)
  show "wf_store img" "logSequence img = through" "evictionGeneration img = 0"
    "lacks E (contents img)
        (only (\<lambda>k. \<forall>i. only_shard = Some i \<longrightarrow> shardIndex st k = i) (replay (upto_seq through (old @ all_recs S)) Map.empty))"
    if "recoverDurableImage c st through w = (Inr img, w')"
    using durable_image(1) [OF assms(1-5) st st'(1) that] st'(2) by (simp_all add: image_of_def wt)
  assume r: "calm w \<and> S = S1 @ S2 \<and> S2 \<noteq> [] \<and> (no_snapshots w \<or> highest (newSnapshotState qs True) \<le> last_seq base (all_recs S1))"
  show "\<exists>img w'. recoverDurableImage c st (last_seq base (all_recs S1)) w = (Inr img, w')"
  proof (cases "no_snapshots w \<and> old = []")
    case True
    then show ?thesis using compaction_log_runs [of w S1 S2 t c st] r assms(1,2,4) by auto
  next
    case False
    then have fits: "snapshot_fits (restart w) qs es E (old @ all_recs S) base (last_seq base (all_recs S))" using assms(5) by blast
    then have "\<not> no_snapshots w" using snapshot_not_none by (auto simp: snapshot_fits_def)
    then show ?thesis
      using compaction_snapshot_runs [of w base S1 S2 t qs es st c] r assms(1,2) fits st'(1)
      by (auto simp: snapshot_fits_def restart_calm)
  qed
qed

text \<open>A log that was rolled after its first record.\<close>

definition rolled_world :: world where
  "rolled_world = (snap_world 1)\<lparr>dir := [(segmentName 1, NFile 0), (segmentName 2, NFile 2)],
     inodes := (inodes (snap_world 1))(2 := \<lparr>content = segmentHeader, synced = 8\<rparr>), nextInode := 3\<rparr>"

lemma rolled_world_ok: "calm rolled_world" "handles_ok rolled_world" "no_snapshots rolled_world"
  "disk_log rolled_world 0 ([sample_seg] @ [new_seg 2 2]) []"
  using segmentName_not_snap
  by (auto simp: rolled_world_def calm_def handles_ok_def no_snapshots_def disk_log_def segs_in_dir_def snap_world_def
      sample_seg_def new_seg_def flushed_def listed_def HasSuffix_segmentName seg.parse_name maxSequence_def good_rec_def
      recordSizeFor_def layout seg_bytes_def header_checks seg.name_inject length_encodeRec length_recordPayload)

theorem compaction_rebuilds_the_log_witness:
  "\<exists>img w'. recoverDurableImage Background (newStoreState 4 500) 1 rolled_world = (Inr img, w') \<and>
     contents img [1] = Some sample_item \<and> logSequence img = 1"
proof -
  have ch: "chain 0 ([] @ all_recs ([sample_seg] @ [new_seg 2 2]))"
    by (simp add: sample_seg_def maxSequence_def good_rec_def recordSizeFor_def layout)
  have st: "newStoreState 4 500 = (newStoreState 4 500)\<lparr>recoveryShard := None\<rparr>" by (simp add: newStoreState_def)
  have q: "last_seq 0 (all_recs [sample_seg]) = 1" by (simp add: sample_seg_def)
  note c = compaction_rebuilds_the_log [OF rolled_world_ok(2,4) ch, of "[]" "[]" "\<lambda>_. False" 4 "newStoreState 4 500" None 500
      Background 1]
  obtain img w' where r: "recoverDurableImage Background (newStoreState 4 500) 1 rolled_world = (Inr img, w')"
    using c [of undefined undefined "[sample_seg]" "[new_seg 2 2]"] q st rolled_world_ok(1,3) by auto
  have "contents img [1] = Some sample_item \<and> logSequence img = 1"
    using c [of img w'] r st rolled_world_ok(3)
    by (simp add: only_def lacks_def sample_seg_def new_seg_def sample_item_def)
  then show ?thesis using r by blast
qed

end
