(* ===== verification/Cache_Live.thy ===== *)
theory Cache_Live
  imports Cache_Client_Props
begin

text \<open>
  Progress: the writer is never stuck on a request, and \<open>Close\<close> can always be completed. What is
  needed of the store is only that it is well formed; a locale shows once for all invariants of
  the store that no step of the system breaks them.
\<close>

section \<open>Invariants of the store\<close>

text \<open>
  Steps touch the store in four ways: they change its counters, a client reads, the writer applies a
  request, the sweep takes a pass over a shard.
\<close>

locale store_invariant =
  fixes P :: "store \<Rightarrow> bool"
  assumes counters: "P st \<Longrightarrow> same_data st st' \<Longrightarrow> P st'"
    and reading: "P st \<Longrightarrow> P (snd (getInto st k t))"
    and applying: "P st \<Longrightarrow> applyRequest st r q w = Some (st', w') \<Longrightarrow> P st'"
    and sweeping: "P st \<Longrightarrow> i < length (shards st) \<Longrightarrow> sweepPass st (shards st ! i) t order 0 0 = (st', sh, m, n) \<Longrightarrow>
      P (putShard st' i sh)"
begin

lemma readers_keep: "P (fst p) \<Longrightarrow> P (fst (readers reads i p))"
proof -
  have "P (fst p) \<Longrightarrow> P (fst (fold clientRead ks p))" for ks
    by (induction ks arbitrary: p) (auto simp: clientRead_def reading split: prod.splits)
  then show "P (fst p) \<Longrightarrow> P (fst (readers reads i p))" by (simp add: readers_def)
qed

lemma addSnapshot_keep: "P st \<Longrightarrow> P (addSnapshot st)"
  using counters by (simp add: same_data_def addSnapshot_def)

lemma publish_keep: "publishSnapshot g f low st w = (r, st', w') \<Longrightarrow> P st \<Longrightarrow> P st'"
  by (auto simp: publishSnapshot_def addSnapshot_keep split: if_splits prod.splits option.splits)

lemma phaseStep_keep: "phaseStep orders phase st w = (r, st', w') \<Longrightarrow> P st \<Longrightarrow> P st'"
  by (induction orders phase st w rule: phaseStep.induct)
    (auto simp: addSnapshot_keep source_def dest: publish_keep split: prod.splits sum.splits option.splits if_splits)

lemma finishSnapshot_keep: "P st \<Longrightarrow> P (finishSnapshot n err st)"
  using counters by (simp add: same_data_def finishSnapshot_def setSnapshotError_def split: option.splits)

lemma before_keep: "P (fst p) \<Longrightarrow> P (fst (before (readers reads) phase p))"
  by (cases phase) (simp_all add: readers_keep)

lemma drivePhases_keep: "P st \<Longrightarrow> P (fst (snd (drivePhases (readers reads) orders phase st w)))"
proof (induction "readers reads" orders phase st w rule: drivePhases.induct)
  case (1 orders phase st w)
  obtain st1 w1 where b: "before (readers reads) phase (st, w) = (st1, w1)" by fastforce
  obtain r st2 w2 where s: "phaseStep orders phase st1 w1 = (r, st2, w2)" by (metis prod_cases3)
  have "P st1" using before_keep [of "(st, w)" reads phase] b "1.prems" by simp
  then have "P st2" using phaseStep_keep [OF s] by simp
  then show ?case
    using "1.hyps" [OF b [symmetric] s [symmetric] _ refl] b s
    by (subst drivePhases.simps) (cases r; simp)
qed

lemma waitSnapshot_keep: "P (fst p) \<Longrightarrow> P (fst (waitSnapshot sch running p))"
  using drivePhases_keep finishSnapshot_keep
  by (auto simp: waitSnapshot_def split: option.splits prod.splits) (metis fst_conv snd_conv)

lemma writeShards_keep: "writeShards (readers reads) orders f is st w = (r, st', w') \<Longrightarrow> P st \<Longrightarrow> P st'"
proof (induction "is" arbitrary: st w r)
  case (Cons i "is")
  obtain st1 w1 where e: "readers reads i (st, w) = (st1, w1)" by fastforce
  have "P st1" using readers_keep [of "(st, w)" reads i] e Cons.prems(2) by simp
  then show ?case using Cons e by (auto split: prod.splits option.splits sum.splits)
qed simp

lemma populateMemory_keep: "populateMemory (readers reads) orders f st w = (r, st', w') \<Longrightarrow> P st \<Longrightarrow> P st'"
  by (auto simp: populateMemory_def Let_def dest: writeShards_keep split: prod.splits option.splits sum.splits)

lemma installSnapshot_keep:
  assumes "installSnapshot (readers reads) g populate st w = (r, st', w')" "P st"
    "\<And>f st w r st' w'. populate f st w = (r, st', w') \<Longrightarrow> P st \<Longrightarrow> P st'"
  shows "P st'"
proof -
  have "P (fst (readers reads i (s, v)))" if "P s" for i s v using readers_keep [of "(s, v)"] that by simp
  then show ?thesis
    using assms(1,2)
    by (auto simp: installSnapshot_def dest!: assms(3) publish_keep split: prod.splits option.splits sum.splits)
      (metis fst_conv)+
qed

lemma writeFinalSnapshot_keep:
  assumes "writeFinalSnapshot (readers reads) orders through st w = (r, st', w')" "P st"
  shows "P st'"
proof -
  have "P st2" if "populateFinal orders through f st1 w1 = (r1, st2, w2)" "P st1" for f st1 w1 r1 st2 w2
    using that by (auto simp: populateFinal_def Let_def split: prod.splits option.splits)
  then show ?thesis
    using assms populateMemory_keep installSnapshot_keep
    by (auto simp: writeFinalSnapshot_def writeSnapshotAt_def split: if_splits)
qed

lemma latch_keep: "P st \<Longrightarrow> P (snd (latch st e))"
  by (rule counters [OF _ same_data_updates(4)])

lemma addFsync_keep: "P st \<Longrightarrow> P (addFsync st)"
  by (rule counters [OF _ same_data_updates(1)])

lemma fsyncLog_keep:
  assumes "fsyncLog st log w = (r, st', w')" "P st"
  shows "P st'"
proof -
  have "P s" if "latch st e = (x, s)" for e x s using latch_keep [OF assms(2), of e] that by simp
  then show ?thesis
    using assms addFsync_keep by (auto simp: fsyncLog_def split: prod.splits option.splits)
qed

lemma handleControl_keep:
  assumes "handleControl sch running st log r w = (stop, ans, st', w')" "P st"
  shows "P st'"
proof -
  have s: "P (setSnapshotError e s)" if "P s" for e s
    using counters [OF that] by (simp add: same_data_def setSnapshotError_def)
  have wt: "P st2" if "waitSnapshot sch running (st1, w1) = (st2, w2)" "P st1" for st1 w1 st2 w2
    using waitSnapshot_keep [of "(st1, w1)" sch running] that by simp
  show ?thesis
    using assms
    by (auto simp: handleControl_def Let_def dest!: fsyncLog_keep wt writeFinalSnapshot_keep intro: s split: if_splits prod.splits)
qed

lemma applyBatch_keep: "applyBatch st log rs w = Some (st', log', ans, w') \<Longrightarrow> P st \<Longrightarrow> P st'"
proof (induction rs arbitrary: st log w ans)
  case (Cons r rs)
  obtain st1 w1 where "applyRequest st r (logSeq log + 1) w = Some (st1, w1)" using Cons.prems by (auto split: bind_splits)
  moreover from this have "P (addRecord st1)" using applying counters same_data_updates(2) Cons.prems(2) by blast
  ultimately show ?case using Cons by (auto split: bind_splits)
qed simp

lemma writeLoop_keep: "writeLoop segSize st log rs w = Some out \<Longrightarrow> P st \<Longrightarrow> P (fst out)"
proof -
  assume run: "writeLoop segSize st log rs w = Some out" and st: "P st"
  have fail: "P (fst (failBatch s l e rs v))" if "P s" for s l e rs v using counters [OF that failBatch_data] .
  have roll: "P s'" if "rollIfFull segSize r s l v = (x, s', l', v')" "P s" for r s l v x s' l' v'
    using counters [OF that(2) rollIfFull_data [OF that(1)]] .
  have "P st \<longrightarrow> P (fst out)"
  proof (rule writeLoop_induct [OF run, where P = "\<lambda>st log rs w out. P st \<longrightarrow> P (fst out)"], goal_cases)
    case (5 st log rs w st1 log1 w1 payload n e w2 log2 k st3 log3 ans3 w3 st4 log4 ans4 w4)
    have "P (addBytesWritten n st3)" if "P st"
      using applyBatch_keep [OF 5(4) roll [OF 5(1) that]] by (rule counters) simp
    then show ?case using 5(5) by simp
  qed (auto intro: fail dest: roll)
  then show ?thesis using st by simp
qed

lemma writeBatch_keep: "writeBatch segSize st log rs w = Some (st', log', ans, w') \<Longrightarrow> P st \<Longrightarrow> P st'"
  using writeLoop_keep by (fastforce simp: writeBatch_def split: option.splits)

lemma writerTurn_keep:
  assumes "writerTurn segSize threshold sch running r waiting st log w = Some (stop, answers, rest, job, st', log', w')" "P st"
  shows "P st'"
  using assms counters [OF _ maybeSnapshot_data]
  by (auto simp: writerTurn_def dest!: handleControl_keep writeBatch_keep split: if_splits bind_splits prod.splits option.splits)

lemma step_keep: "sys_step segSize threshold y y' \<Longrightarrow> P (ystore y) \<Longrightarrow> P (ystore y')"
proof (induction rule: sys_step.induct)
  case (turn y r rest sch stop answers rest' job st log w)
  then show ?case using writerTurn_keep by simp
next
  case (flush y st w)
  then show ?case using latch_keep addFsync_keep by (auto simp: flushTick_def split: if_splits prod.splits option.splits)
next
  case (get k y st w)
  then show ?case using reading by (auto simp: clientRead_def split: prod.splits)
next
  case (sweep y t w order st sh sampled reclaimed late)
  then show ?case using sweeping by simp
next
  case (snapshot y phase successful orders result)
  then show ?case
    using phaseStep_keep finishSnapshot_keep by (cases result rule: prod_cases3) (auto simp: afterPhase_def split: sum.splits)
qed (auto simp: submit_def beginClose_def sendClose_def finishClose_def split: if_splits bind_splits prod.splits)

lemma run_keep: "(sys_step segSize threshold)\<^sup>*\<^sup>* y y' \<Longrightarrow> P (ystore y) \<Longrightarrow> P (ystore y')"
  by (induction rule: rtranclp_induct) (auto dest: step_keep)

end

section \<open>A store stays well formed\<close>

lemma applyRequest_wf: "wf_store st \<Longrightarrow> \<exists>st' w'. applyRequest st r q w = Some (st', w') \<and> wf_store st'"
  using applySet_correct [of st "rkey r" "rvalue r" "rdeadline r" q "fst (now w)"] applyDelete_correct(1) [of st]
  by (auto simp: applyRequest_def split: prod.splits)

lemma sweepPass_wf:
  assumes wf: "wf_store st" and i: "i < length (shards st)"
    and s: "sweepPass st (shards st ! i) t order 0 0 = (st', sh, m, n)"
  shows "wf_store (putShard st' i sh)"
proof -
  have sh: "wf_shard (shards st ! i)" "homed st i (shards st ! i)" using wf i by (auto simp: wf_store_def routed_def)
  have c: "shard_step st (shards st ! i) st' sh" "\<exists>ks. items sh = unexpired t ks (items (shards st ! i))"
    using sweepPass_correct [OF sh(1) s] by auto
  have "set (items sh) \<subseteq> set (items (shards st ! i))" using c(2) set_unexpired by metis
  then show ?thesis
    using wf_store_putShard [OF wf i c(1)] homed_items_subset [OF wf i shard_step_wf [OF c(1)]] by simp
qed

interpretation wf: store_invariant wf_store
proof
  show "wf_store st'" if "wf_store st" "same_data st st'" for st st' using that same_data_facts(1) by blast
  show "wf_store (snd (getInto st k t))" if "wf_store st" for st k t
    using getInto_correct(1) [OF that, of k t] by (metis surjective_pairing)
  show "wf_store st'" if "wf_store st" "applyRequest st r q w = Some (st', w')" for st r q w st' w'
    using applyRequest_wf [OF that(1), of r q w] that(2) by auto
qed (rule sweepPass_wf)

section \<open>The writer is never stuck\<close>

lemma applyBatch_returns: "wf_store st \<Longrightarrow> \<exists>out. applyBatch st log rs w = Some out"
proof (induction rs arbitrary: st log w)
  case (Cons r rs)
  obtain st1 w1 where a: "applyRequest st r (logSeq log + 1) w = Some (st1, w1)" "wf_store st1"
    using applyRequest_wf [OF Cons.prems] by blast
  have "wf_store (addRecord st1)" using a(2) same_data_facts(1) same_data_updates(2) by blast
  then show ?case using Cons.IH [of "addRecord st1" "log\<lparr>logSeq := logSeq log + 1\<rparr>" w1] a(1) by auto
qed simp

lemma rollSegment_logSeq: "rollSegment st log q w = (r, st', log', w') \<Longrightarrow> logSeq log' = logSeq log"
  by (auto simp: rollSegment_def split: prod.splits option.splits sum.splits)

lemma rollIfFull_logSeq: "rollIfFull n req st log w = (r, st', log', w') \<Longrightarrow> logSeq log' = logSeq log"
  by (auto simp: rollIfFull_def dest: rollSegment_logSeq split: if_splits)

lemma writeLoop_returns: "wf_store st \<Longrightarrow> writeLoop segSize st log rs w \<noteq> None"
proof (induction "length rs" arbitrary: st log rs w rule: less_induct)
  case less
  show ?case
  proof (cases "rs = [] \<or> logSeq log = maxSequence")
    case True
    then show ?thesis by (subst writeLoop.simps) (auto simp del: not_None_eq)
  next
    case False
    obtain res st1 log1 w1 where rl: "rollIfFull segSize (hd rs) st log w = (res, st1, log1, w1)" by (metis prod_cases4)
    have wf1: "wf_store st1" using less.prems same_data_facts(1) rollIfFull_data [OF rl] by blast
    let ?k = "selectChunk segSize log1 rs 0 0"
    have k: "0 < ?k" using selectChunk_pos [of log1 rs segSize] False rollIfFull_logSeq [OF rl] by simp
    let ?payload = "encodeBatch [] (logSeq log1) 0 (take ?k rs)"
    obtain n e w2 where wf: "writeFile (lfile log1) ?payload w1 = ((n, e), w2)" by (metis prod.exhaust)
    let ?log2 = "log1\<lparr>loffset := loffset log1 + n, bytesSinceSnapshot := bytesSinceSnapshot log1 + n\<rparr>"
    obtain st3 log3 ans3 w3 where a: "applyBatch st1 ?log2 (take ?k rs) w2 = Some (st3, log3, ans3, w3)"
      using applyBatch_returns [OF wf1] by (metis prod_cases4)
    have "wf_store st3" using wf.applyBatch_keep [OF a wf1] .
    then have "wf_store (addBytesWritten n st3)" using same_data_facts(1) same_data_updates(3) by blast
    moreover have "length (drop ?k rs) < length rs" using k False by (cases rs) auto
    ultimately have "writeLoop segSize (addBytesWritten n st3) log3 (drop ?k rs) w3 \<noteq> None" by (rule less.hyps [rotated])
    then obtain out where "writeLoop segSize (addBytesWritten n st3) log3 (drop ?k rs) w3 = Some out" by blast
    then show ?thesis
      using False rl wf a by (subst writeLoop.simps) (auto simp: Let_def simp del: not_None_eq split: option.splits prod.splits)
  qed
qed

lemma writerTurn_returns:
  assumes "wf_store st"
  shows "writerTurn segSize threshold sch running r waiting st log w \<noteq> None"
proof -
  have "writeBatch segSize st log rs w \<noteq> None" for rs
    using writeLoop_returns [OF assms] by (simp add: writeBatch_def split: option.splits)
  then have wb: "\<exists>st1 log1 ans w1. writeBatch segSize st log rs w = Some (st1, log1, ans, w1)" for rs by (metis not_None_eq prod_cases4)
  show ?thesis
  proof (cases "drainWrites r waiting" rule: prod_cases3)
    case (fields batch control rest)
    obtain st1 log1 ans w1 where "writeBatch segSize st log batch w = Some (st1, log1, ans, w1)" using wb by blast
    then show ?thesis using fields
      by (cases "handleControl sch running st log r w" rule: prod_cases4) (simp add: writerTurn_def del: not_None_eq)
  qed
qed

lemma turn_enabled:
  assumes "wf_store (ystore y)" "\<not> ydone y" "yqueue y \<noteq> []"
  shows "\<exists>y'. sys_step segSize threshold y y' \<and> yanswers y' \<noteq> yanswers y \<and> length (yqueue y') < length (yqueue y) \<and>
    yclosed y' = yclosed y \<and> ycloseSent y' = ycloseSent y \<and> yaccepted y' = yaccepted y"
proof -
  obtain r rest where q: "yqueue y = r # rest" using assms(3) by (cases "yqueue y") auto
  obtain orders where ord: "range_order orders" using range_order_exists by blast
  let ?sch = "\<lparr>sreads = \<lambda>_. [], sorders = orders, swaitReads = \<lambda>_. [], swaitOrders = orders\<rparr>"
  obtain stop answers rest' job st log w where
    t: "writerTurn segSize threshold ?sch (yjob y) r rest (ystore y) (ylog y) (yworld y) =
      Some (stop, answers, rest', job, st, log, w)"
    using writerTurn_returns [OF assms(1)] by (metis not_None_eq prod_cases7)
  obtain handled where h: "r # rest = handled @ rest'" "handled \<noteq> []" "map fst answers = map rid handled"
    using writerTurn_answers [OF t] by blast
  have "answers \<noteq> []" using h(2,3) by auto
  moreover have "length rest' < length (yqueue y)" using h(1,2) q by (metis length_append length_greater_0_conv less_add_same_cancel2)
  moreover have "sys_step segSize threshold y (y\<lparr>ystore := st, ylog := log, yworld := w, yqueue := rest',
      yanswers := yanswers y @ answers, ydone := stop, yjob := jobAfter stop job st (yjob y)\<rparr>)"
    using sys_step.turn [OF assms(2) q _ _ t] ord by simp
  ultimately show ?thesis by (intro exI [of _ "y\<lparr>ystore := st, ylog := log, yworld := w, yqueue := rest',
      yanswers := yanswers y @ answers, ydone := stop, yjob := jobAfter stop job st (yjob y)\<rparr>"]) simp
qed

text \<open>Histories only grow.\<close>

lemma step_grows:
  "sys_step segSize threshold y y' \<Longrightarrow>
     (\<exists>more. yaccepted y' = yaccepted y @ more) \<and> (\<exists>more. yanswers y' = yanswers y @ more)"
  by (induction rule: sys_step.induct)
    (auto simp: submit_def beginClose_def sendClose_def finishClose_def split: if_splits bind_splits prod.splits)

text \<open>A run with \<open>n\<close> turns of the writer: the steps that answer something.\<close>

inductive run :: "nat \<Rightarrow> nat \<Rightarrow> nat \<Rightarrow> system \<Rightarrow> system \<Rightarrow> bool" for segSize threshold where
  stay: "run segSize threshold 0 y y"
| go: "run segSize threshold n y y' \<Longrightarrow> sys_step segSize threshold y' y'' \<Longrightarrow>
     run segSize threshold (if yanswers y'' = yanswers y' then n else Suc n) y y''"

lemma run_reaches: "run segSize threshold n y y' \<Longrightarrow> (sys_step segSize threshold)\<^sup>*\<^sup>* y y'"
  by (induction rule: run.induct) auto

lemma run_grows:
  "run segSize threshold n y y' \<Longrightarrow>
     (\<exists>more. yaccepted y' = yaccepted y @ more) \<and> length (yanswers y) + n \<le> length (yanswers y')"
proof (induction rule: run.induct)
  case (go n y y' y'')
  from go.IH step_grows [OF go.hyps(2)] obtain more more' where "yaccepted y' = yaccepted y @ more" "yaccepted y'' = yaccepted y' @ more'"
    by blast
  moreover obtain ans where ans: "yanswers y'' = yanswers y' @ ans" using step_grows [OF go.hyps(2)] by blast
  ultimately show ?case using go.IH by (cases ans) simp_all
qed simp

lemma sys_inv_answers: "sys_inv y \<Longrightarrow> map rid (yaccepted y) = map fst (yanswers y) @ map rid (yqueue y)"
  by (auto simp: sys_inv_def)

lemma append_take: "xs @ ys = zs @ us \<Longrightarrow> length xs \<le> length zs \<Longrightarrow> \<exists>vs. zs = xs @ vs"
  by (auto simp: append_eq_append_conv2)

lemma enough_turns:
  assumes "sys_inv y" "run segSize threshold n y y'" "length (yqueue y) \<le> n"
  shows "\<exists>rest. map fst (yanswers y') = map rid (yaccepted y) @ rest"
proof -
  have inv': "sys_inv y'" using reachable_inv [OF run_reaches [OF assms(2)] assms(1)] .
  have a: "map rid (yaccepted y) = map fst (yanswers y) @ map rid (yqueue y)"
    "map rid (yaccepted y') = map fst (yanswers y') @ map rid (yqueue y')"
    using assms(1) inv' by (simp_all add: sys_inv_answers)
  obtain more where m: "yaccepted y' = yaccepted y @ more" "length (yanswers y) + n \<le> length (yanswers y')"
    using run_grows [OF assms(2)] by blast
  have "length (yaccepted y) \<le> length (yanswers y')"
    using arg_cong [OF a(1), of length] m(2) assms(3) by simp
  moreover have "map rid (yaccepted y) @ map rid more = map fst (yanswers y') @ map rid (yqueue y')"
    using a(2) unfolding m(1) map_append .
  ultimately show ?thesis using append_take by fastforce
qed

section \<open>Closing\<close>

lemma retryEINTR_returns: "\<exists>err w'. retryEINTR (fileCall f) w = Some (err, w')"
proof (induction "length (faults w)" arbitrary: w rule: less_induct)
  case less
  obtain err w1 where c: "fileCall f w = (err, w1)" by fastforce
  have "length (faults w1) < length (faults w)" if "err = Some EINTR"
    using c that by (auto simp: fileCall_def sysCall_def nextFault_def EINTR_def EBADF_def split: if_splits list.splits fault.splits)
  then show ?case using less c by (subst retryEINTR.simps) auto
qed

lemma finishClose_returns: "\<exists>err y'. finishClose e y = Some (err, y') \<and> yreleased y'"
proof -
  obtain err w where "retryEINTR (fileCall (ylock y)) (yworld y) = Some (err, w)" using retryEINTR_returns by blast
  moreover obtain c w' where "closeFile (ylock y) w = (c, w')" by fastforce
  ultimately show ?thesis by (auto simp: finishClose_def releaseDirectoryLock_def)
qed

lemma drain:
  assumes "wf_store (ystore y)" "sys_inv y"
  shows "\<exists>y'. (sys_step segSize threshold)\<^sup>*\<^sup>* y y' \<and> yqueue y' = [] \<and> yclosed y' = yclosed y \<and> ycloseSent y' = ycloseSent y"
  using assms
proof (induction "length (yqueue y)" arbitrary: y rule: less_induct)
  case less
  show ?case
  proof (cases "yqueue y = []")
    case False
    then have "\<not> ydone y" using close_drains [OF less.prems(2)] by blast
    then obtain y1 where y1: "sys_step segSize threshold y y1" "length (yqueue y1) < length (yqueue y)"
      "yclosed y1 = yclosed y" "ycloseSent y1 = ycloseSent y"
      using turn_enabled [OF less.prems(1) _ False] by blast
    have "wf_store (ystore y1)" "sys_inv y1" using wf.step_keep [OF y1(1) less.prems(1)] step_inv [OF y1(1) less.prems(2)] .
    then show ?thesis using less.hyps [OF y1(2)] y1 by (metis converse_rtranclp_into_rtranclp)
  qed (use rtranclp.rtrancl_refl in blast)
qed

lemma close_sent_done:
  assumes "sys_inv y" "ycloseSent y" "yqueue y = []"
  shows "ydone y"
  using assms by (auto simp: sys_inv_def)

lemma close_completes:
  assumes "wf_store (ystore y)" "sys_inv y"
  shows "\<exists>y'. (sys_step segSize threshold)\<^sup>*\<^sup>* y y' \<and> yreleased y'"
proof -
  let ?R = "(sys_step segSize threshold)\<^sup>*\<^sup>*"
  have keep: "wf_store (ystore b) \<and> sys_inv b" if "?R a b" "wf_store (ystore a) \<and> sys_inv a" for a b
    using wf.run_keep [OF that(1)] reachable_inv [OF that(1)] that(2) by blast
  obtain y1 where y1: "?R y y1" "yclosed y1"
  proof (cases "yclosed y")
    case False
    then show ?thesis using that [of "beginClose y"] sys_step.begin_close [of y] by (auto simp: beginClose_def)
  qed (use that in blast)
  obtain y2 where y2: "?R y1 y2" "yqueue y2 = []" "yclosed y2"
    using drain [of y1] keep [OF y1(1)] assms y1(2) by metis
  obtain y3 where y3: "?R y2 y3" "ycloseSent y3"
  proof (cases "ycloseSent y2")
    case False
    then have "sys_step segSize threshold y2 (sendClose 0 y2)"
      using sys_step.send_close [of y2 segSize threshold 0] y2(2,3) by (simp add: channelCapacity_def)
    then show ?thesis using that [of "sendClose 0 y2"] by (auto simp: sendClose_def)
  qed (use that in blast)
  have k3: "?R y y3" "wf_store (ystore y3) \<and> sys_inv y3" using y1(1) y2(1) y3(1) keep [of y y3] assms by (meson rtranclp_trans)+
  obtain y4 where y4: "?R y3 y4" "yqueue y4 = []" "ycloseSent y4" using drain [of y3] k3(2) y3(2) by metis
  have k4: "?R y y4" "sys_inv y4" using k3 y4(1) keep by (meson rtranclp_trans)+
  show ?thesis
  proof (cases "yreleased y4")
    case False
    obtain err y5 where "finishClose (snd (last (yanswers y4))) y4 = Some (err, y5)" "yreleased y5"
      using finishClose_returns by blast
    then show ?thesis
      using sys_step.finish_close [OF close_sent_done [OF k4(2) y4(3,2)] False] k4(1) by (meson rtranclp.rtrancl_into_rtrancl)
  qed (use k4(1) in blast)
qed

text \<open>C5. Progress. In every state that a store started from a well-formed state can reach, whatever
  system calls fail: when a request waits, the writer can take a turn and answer something;
  after as many turns as requests were waiting, however the other steps interleave, every
  request accepted so far has its answer; and \<open>Close\<close> can always be brought to its end, at
  which the lock on the directory is given up.\<close>

theorem accepted_requests_are_answered:
  assumes "started y" "wf_store (ystore y)" "(sys_step segSize threshold)\<^sup>*\<^sup>* y y'"
  shows "(yqueue y' \<noteq> [] \<longrightarrow> (\<exists>y''. sys_step segSize threshold y' y'' \<and> yanswers y'' \<noteq> yanswers y')) \<and>
    (\<forall>n y''. run segSize threshold n y' y'' \<and> length (yqueue y') \<le> n \<longrightarrow>
       (\<exists>rest. map fst (yanswers y'') = map rid (yaccepted y') @ rest)) \<and>
    (\<exists>y''. (sys_step segSize threshold)\<^sup>*\<^sup>* y' y'' \<and> yreleased y'')"
proof -
  have inv: "sys_inv y'" "wf_store (ystore y')"
    using reachable_inv [OF assms(3) started_inv [OF assms(1)]] wf.run_keep [OF assms(3,2)] .
  have "yqueue y' \<noteq> [] \<Longrightarrow> \<not> ydone y'" using close_drains [OF inv(1)] by blast
  then show ?thesis
    using turn_enabled [OF inv(2)] enough_turns [OF inv(1)] close_completes [OF inv(2,1)] by blast
qed

theorem accepted_requests_are_answered_witness:
  "\<exists>y'. (sys_step 100 1000)\<^sup>*\<^sup>* sample_system y' \<and> yreleased y'"
proof -
  have "started sample_system" "wf_store (ystore sample_system)"
    using wf_newStoreState [of 2 200] by (simp_all add: started_def sample_system_def)
  from accepted_requests_are_answered [OF this rtranclp.rtrancl_refl] show ?thesis by blast
qed

end
