(* ===== verification/Cache_Platform.thy ===== *)
theory Cache_Platform
  imports Cache_Store
begin

unbundle bit_operations_syntax

text \<open>
  The other platforms: the directory lock of \<open>lock_windows.go\<close> and \<open>lock_unsupported.go\<close>, and the directory
  sync of \<open>syncdir_windows.go\<close> and \<open>syncdir_unsupported.go\<close>. The Unix versions are in \<open>Cache_Store\<close> and \<open>Cache_OS\<close>.
  The procedures of \<open>kernel32.dll\<close> are arguments: a call gets the handle and the words passed to it,
  and returns the result word and the error that goes with it.
\<close>

section \<open>Windows\<close>

type_synonym kernelProc = "handle \<Rightarrow> u32 list \<Rightarrow> world \<Rightarrow> (u64 \<times> errno) \<times> world"

definition lockFileFailImmediately :: u32 where "lockFileFailImmediately = 1"
definition lockFileExclusiveLock :: u32 where "lockFileExclusiveLock = 2"
definition errorLockViolation :: errno where "errorLockViolation = 33"

text \<open>\<open>LockFileEx\<close> on the first byte of the file: flags, a reserved word, and the length in two words.\<close>

definition acquireDirectoryLock_windows :: "kernelProc \<Rightarrow> handle \<Rightarrow> world \<Rightarrow> go_error option \<times> world" where
  "acquireDirectoryLock_windows lockFileEx f w =
     (case lockFileEx f [lockFileFailImmediately OR lockFileExclusiveLock, 0, 1, 0] w of
        ((result, err), w1) \<Rightarrow>
          (if result = 0
           then Some (if err = errorLockViolation then ErrLockHeld else ErrOs ''lock store directory'' err)
           else None, w1))"

definition releaseDirectoryLock_windows :: "kernelProc \<Rightarrow> handle \<Rightarrow> world \<Rightarrow> go_error option \<times> world" where
  "releaseDirectoryLock_windows unlockFileEx f w =
     (case unlockFileEx f [0, 1, 0] w of
        ((result, err), w1) \<Rightarrow>
          (if result = 0 then Some (ErrOs ''unlock store directory'' err) else None, w1))"

definition syncDirectory_windows :: "world \<Rightarrow> go_error option \<times> world" where
  "syncDirectory_windows w = (None, w)"

section \<open>Platforms without support\<close>

definition acquireDirectoryLock_unsupported :: "string \<Rightarrow> handle \<Rightarrow> world \<Rightarrow> go_error option \<times> world" where
  "acquireDirectoryLock_unsupported goos f w = (Some (ErrUnsupported ''file locking'' goos), w)"

definition releaseDirectoryLock_unsupported :: "handle \<Rightarrow> world \<Rightarrow> go_error option \<times> world" where
  "releaseDirectoryLock_unsupported f w = (None, w)"

definition syncDirectory_unsupported :: "string \<Rightarrow> world \<Rightarrow> go_error option \<times> world" where
  "syncDirectory_unsupported goos w = (Some (ErrUnsupported ''directory synchronization'' goos), w)"

section \<open>What the lock reports\<close>

text \<open>A call of \<open>flock\<close> that was interrupted is made again; its last error is the one that counts.\<close>

lemma retryEINTR_result:
  assumes "retryEINTR operation w = Some r"
  shows "fst r \<noteq> Some EINTR"
proof (rule retryEINTR.raw_induct [OF _ assms])
  fix retry operation w r
  assume "\<And>operation w r. retry operation w = Some r \<Longrightarrow> fst r \<noteq> Some EINTR"
    "(case operation w of (err, w1) \<Rightarrow> if err = Some EINTR then retry operation w1 else Some (err, w1)) = Some r"
  then show "fst r \<noteq> Some EINTR" by (auto split: prod.splits if_splits) (metis fst_conv)
qed

text \<open>
  On Unix and on Windows the error that another process holds the directory is returned for
  exactly the error code of the platform, and every other failure of the call is passed on; the
  interruption of the call is never returned.
\<close>

lemma unix_lock_errors:
  assumes "acquireDirectoryLock f w = Some (r, w')"
  shows "\<exists>err. retryEINTR (fileCall f) w = Some (err, w') \<and> err \<noteq> Some EINTR \<and> (r = None \<longleftrightarrow> err = None) \<and>
    (r = Some ErrLockHeld \<longleftrightarrow> err = Some EWOULDBLOCK)"
proof -
  obtain err w1 where e: "retryEINTR (fileCall f) w = Some (err, w1)"
    using assms by (auto simp: acquireDirectoryLock_def split: bind_splits)
  then show ?thesis
    using assms retryEINTR_result [OF e] by (auto simp: acquireDirectoryLock_def split: option.splits if_splits)
qed

lemma windows_lock_errors:
  assumes "lockFileEx f [3, 0, 1, 0] w = ((result, err), w')"
  shows "acquireDirectoryLock_windows lockFileEx f w = (None, w') \<longleftrightarrow> result \<noteq> 0"
    "acquireDirectoryLock_windows lockFileEx f w = (Some ErrLockHeld, w') \<longleftrightarrow> result = 0 \<and> err = errorLockViolation"
proof -
  have "lockFileFailImmediately OR lockFileExclusiveLock = 3"
    by (simp add: lockFileFailImmediately_def lockFileExclusiveLock_def)
  then show "acquireDirectoryLock_windows lockFileEx f w = (None, w') \<longleftrightarrow> result \<noteq> 0"
    "acquireDirectoryLock_windows lockFileEx f w = (Some ErrLockHeld, w') \<longleftrightarrow> result = 0 \<and> err = errorLockViolation"
    using assms by (simp_all add: acquireDirectoryLock_windows_def)
qed

end
