(* ===== verification/Spec2Isabelle.thy ===== *)
theory Spec2Isabelle
  imports Cache_Entries_Props Cache_Names_Props Cache_Durability Cache_Store_Props Cache_Open_Props Cache_Client_Props
    Cache_Cli_Props Cache_Snapshot_Steps Cache_Compaction_Props Cache_Live Cache_Platform
begin

text \<open>
  A verification development for the embedded key-value cache of \<open>src/cache\<close> and its command line
  tool \<open>src/cache/cmd/cached\<close>, written in Go.

  \<^bold>\<open>The program.\<close> A store keeps its entries in memory, in shards with a least-recently-used list
  each, and appends every write to a log of segment files before it becomes visible. One
  writer goroutine takes the requests of all clients from a channel, writes them in batches,
  rolls segments and answers. Snapshots of the memory, or rebuilt from the log once something
  was evicted, let older segments be removed. Opening a directory takes its lock, loads the newest
  snapshot, replays the log and cuts off a torn end. A sweep removes expired entries. The tool
  has an interactive mode and a load generator.

  \<^bold>\<open>The model, theory by theory.\<close>
  \<^item> \<open>Cache_Prelude\<close>, \<open>Cache_Bytes\<close>: lists, words, little-endian fields, CRC-32C.
  \<^item> \<open>Cache_State\<close>, \<open>Cache_Entries\<close> (\<open>store.go\<close>, \<open>entries.go\<close>): errors as the datatype \<open>go_error\<close>;
    entries, shards and the store as records. A shard carries the part of the heap that holds
    its entries, so that the links of the recency list are the pointers of the code. Every
    operation of \<open>entries.go\<close> is a definition. Loops that follow pointers are \<open>partial_function (option)\<close>,
    where \<open>None\<close> is a nil dereference or a loop without end.
  \<^item> \<open>Cache_Record\<close>, \<open>Cache_Names\<close> (\<open>wal.go\<close>, \<open>snapshot.go\<close>, \<open>recovery.go\<close>): the bytes of records, headers
    and snapshot entries, and file names.
  \<^item> \<open>Cache_OS\<close>: the directory, files with the bytes that are on stable storage, open handles, the
    clock, contexts, and a list of faults that lets any system call fail or write less; on top
    of it the listings and the removal of superseded files.
  \<^item> \<open>Cache_Wal\<close> (\<open>wal.go\<close>): creating and rolling segments, batches, the drained channel.
  \<^item> \<open>Cache_Recovery\<close> (\<open>recovery.go\<close>, \<open>snapshot.go\<close>): loading a snapshot and replaying segments.
  \<^item> \<open>Cache_Snapshot\<close> (\<open>snapshot.go\<close>): filling, installing and starting snapshots; what the other
    goroutines do between two locks is an argument \<open>env\<close>, the order of a map another one. The same
    goroutine as a sequence of steps (\<open>phaseStep\<close>), for the step relation of the system.
  \<^item> \<open>Cache_Options\<close> (\<open>options.go\<close>); \<open>Cache_Store\<close> (\<open>store.go\<close>, \<open>wal.go\<close>, \<open>lock_unix.go\<close>): \<open>Open\<close>, the requests
    of the public operations, control requests, \<open>Close\<close>, and the goroutines as the step relation
    \<open>sys_step\<close> over the record \<open>system\<close>.
  \<^item> \<open>Cache_Platform\<close> (\<open>lock_windows.go\<close>, \<open>syncdir_windows.go\<close>, \<open>lock_unsupported.go\<close>, \<open>syncdir_unsupported.go\<close>): the lock and the
    directory sync of the other platforms.
  \<^item> \<open>Cache_Client\<close> (\<open>store.go\<close>): the public operations as blocking calls of a single client.
  \<^item> \<open>Cache_Cli\<close>, \<open>Cache_Load\<close> (\<open>cmd/cached/main.go\<close>): flags, the interactive mode, and the load generator
    with its workers as the step relation \<open>load_step\<close>.

  \<^bold>\<open>The proofs.\<close>
  \<^item> \<open>Cache_LRU\<close> and \<open>Cache_Image\<close> show that the linked lists refine a list of items and that every
    operation keeps the invariant \<open>wf_store\<close>; \<open>contents\<close> is the map a store holds. The locale
    \<open>record_store\<close> is what recovery needs of a store. \<open>Cache_Entries_Props\<close> has the properties:
    refinement of the recency list, exact accounting, eviction that ends within capacity, reads,
    expiry and the sweep.
  \<^item> \<open>Cache_Names_Props\<close>: names and sequences determine each other, in order; the locale
    \<open>sequence_names\<close> is what listing and pruning use.
  \<^item> \<open>Cache_Replay\<close>, \<open>Cache_Disk\<close> and \<open>Cache_Recovery_Props\<close>: what is on disk (\<open>disk_log\<close>: consecutive records in
    segments, perhaps a torn end) is what replay reads back.
  \<^item> \<open>Cache_Wal_Props\<close>, \<open>Cache_Batch\<close> and \<open>Cache_Durability\<close>: under every fault the writer keeps the log on
    disk in step with its answers, so acknowledged writes survive a crash of the process and
    synced ones a loss of power.
  \<^item> \<open>Cache_Snapshot_Load\<close>, \<open>Cache_Snapshot_Write\<close>, \<open>Cache_Snapshot_Install\<close> and \<open>Cache_Snapshot_Props\<close>: a snapshot written
    while the writer goes on covers each shard through its own sequence (\<open>covers\<close>), recovery
    over it equals replay of the whole log, and publishing and pruning keep that so. One
    theorem shows a gap: a snapshot can be on disk ahead of a log that was not yet flushed, and then
    recovery refuses the directory.
  \<^item> \<open>Cache_Snapshot_Steps\<close>: the steps of an automatic snapshot, driven to the end, are the goroutine.
  \<^item> \<open>Cache_Reads\<close>, \<open>Cache_Compaction\<close> and \<open>Cache_Compaction_Props\<close>: what a read returns does not depend on calls that
    could have failed; the image that a compaction rebuilds is the log through its sequence.
  \<^item> \<open>Cache_Store_Props\<close>: in every interleaving requests are answered once and in order, a failure is
    final, and \<open>Sync\<close> means stable; deadlines and their overflow; the requests of clients fit
    their records.
  \<^item> \<open>Cache_Live\<close>: the locale \<open>store_invariant\<close> shows once that no step of the system breaks an invariant of the
    store; with it, the writer is never stuck, waiting requests are answered after that many
    turns, and \<open>Close\<close> can always be completed.
  \<^item> \<open>Cache_Open_Props\<close>: the directory of a store that was not closed can be opened again, and what the
    opened store then holds.
  \<^item> \<open>Cache_Client_Props\<close>: the locale \<open>key_value\<close> is what a client relies on; the calls of \<open>Cache_Client\<close>
    satisfy it, and they return.
  \<^item> \<open>Cache_Cli_Props\<close>: what a session prints, the keys of the load generator, and that it prints only
    acknowledged writes and reports its first failure.

  \<^bold>\<open>Numbers and loops.\<close> Sequences, sizes and counters are 64-bit words, deadlines are signed 64-bit
  words, and field widths are those of the formats; lengths of byte strings are natural numbers,
  and the checks that keep them within the fields are part of the model. No fuel is used: a loop
  either has a termination proof or is a \<open>partial_function (option)\<close> that is shown to return.

  \<^bold>\<open>Not modelled.\<close> The logger and the text of errors and log messages; the signal handler and exit
  status of \<open>main\<close>; the number and duration parsers of Go's library, which are arguments without
  assumptions. A turn of the writer, one pass of the sweep and a read are single steps of
  \<open>sys_step\<close>; an automatic snapshot takes one step per lock it holds, and the rebuilding of an image
  from the log is one of them. Timers only decide when a step happens.
\<close>

end
